theory Spec2Isabelle
  imports Main "HOL-Library.Word" "HOL-Library.Multiset" "HOL-Library.Monad_Syntax"
begin

unbundle bit_operations_syntax

section \<open>Machine integers\<close>

text \<open>
  \<^verbatim>\<open>size_t\<close> is a 64-bit unsigned integer.  Its values are modelled by natural numbers
  below \<open>2 ^ 64\<close>; every addition, subtraction and shift of the source that can wrap is
  written with the wrap-around spelled out.  The results of the \<^verbatim>\<open>Hash\<close> functor are
  64-bit words and enter the model through \<open>unat\<close>.
\<close>

definition size_add :: "nat \<Rightarrow> nat \<Rightarrow> nat" where
  "size_add a b = (a + b) mod 2 ^ 64"

definition size_sub :: "nat \<Rightarrow> nat \<Rightarrow> nat" where
  "size_sub a b = (a + 2 ^ 64 - b) mod 2 ^ 64"

definition size_shl1 :: "nat \<Rightarrow> nat" where
  "size_shl1 a = (2 * a) mod 2 ^ 64"

text \<open>\<^verbatim>\<open>const size_t UNOCCUPIED = -1;\<close>\<close>

definition UNOCCUPIED :: nat where
  "UNOCCUPIED = 2 ^ 64 - 1"

section \<open>HashBucket\<close>

text \<open>
  The members \<^verbatim>\<open>value_\<close>, \<^verbatim>\<open>hash_\<close>, \<^verbatim>\<open>distance_\<close> of the source carry a trailing
  underscore, which is not an Isabelle identifier; they are written with the prefix
  \<open>b_\<close> here (and the members of \<^verbatim>\<open>HashMap\<close> with the prefix \<open>m_\<close>).

  \<^verbatim>\<open>value_\<close> is raw storage in which a \<^verbatim>\<open>HashValue\<close> (a key/value pair) is constructed by
  placement new and destroyed by an explicit destructor call.  The model records whether
  an object lives in the storage: \<open>None\<close> is storage without a live object.  The
  source never looks at that: \<^verbatim>\<open>empty()\<close> reads the distance alone.  Using the storage
  without a live object in it (reading, moving from or destroying it) is undefined
  behaviour, which the model reports as the result \<open>None\<close> of the operation.
  \<^verbatim>\<open>hash_\<close> is indeterminate in a fresh bucket; the model takes 0.
\<close>

record ('k, 'v) HashBucket =
  b_value :: "('k \<times> 'v) option"
  b_hash :: nat
  b_distance :: nat

definition HashBucket_new :: "('k, 'v) HashBucket" where
  "HashBucket_new = \<lparr>b_value = None, b_hash = 0, b_distance = UNOCCUPIED\<rparr>"

definition HashBucket_empty :: "('k, 'v) HashBucket \<Rightarrow> bool" where
  "HashBucket_empty b \<longleftrightarrow> b_distance b = UNOCCUPIED"

definition destroy_value :: "('k, 'v) HashBucket \<Rightarrow> ('k, 'v) HashBucket option" where
  "destroy_value b = (case b_value b of None \<Rightarrow> None | Some kv \<Rightarrow> Some (b\<lparr>b_value := None\<rparr>))"

definition HashBucket_clear :: "('k, 'v) HashBucket \<Rightarrow> ('k, 'v) HashBucket option" where
  "HashBucket_clear b =
     (case (if \<not> HashBucket_empty b then destroy_value b else Some b) of
        None \<Rightarrow> None
      | Some b' \<Rightarrow> Some (b'\<lparr>b_distance := UNOCCUPIED\<rparr>))"

definition HashBucket_set ::
  "('k \<times> 'v) \<Rightarrow> nat \<Rightarrow> nat \<Rightarrow> ('k, 'v) HashBucket \<Rightarrow> ('k, 'v) HashBucket option" where
  "HashBucket_set v h d b =
     (case HashBucket_clear b of
        None \<Rightarrow> None
      | Some b' \<Rightarrow> Some (b'\<lparr>b_value := Some v, b_hash := h, b_distance := d\<rparr>))"

text \<open>
  \<^verbatim>\<open>swap(hash_value, hash, distance)\<close> exchanges the bucket's triple with the caller's;
  the result is the new bucket and the caller's new triple.
\<close>

definition HashBucket_swap ::
  "('k, 'v) HashBucket \<Rightarrow> ('k \<times> 'v) \<Rightarrow> nat \<Rightarrow> nat \<Rightarrow>
     (('k, 'v) HashBucket \<times> ('k \<times> 'v) \<times> nat \<times> nat) option" where
  "HashBucket_swap b v h d =
     (case b_value b of
        None \<Rightarrow> None
      | Some v' \<Rightarrow> Some (b\<lparr>b_value := Some v, b_hash := h, b_distance := d\<rparr>, v', b_hash b, b_distance b))"

section \<open>HashMap\<close>

record ('k, 'v) HashMap =
  m_hasher :: "'k \<Rightarrow> 64 word"
  m_size :: nat
  m_capacity :: nat
  m_mask :: nat
  m_buckets :: "('k, 'v) HashBucket list"
  m_max_size :: nat
  m_min_size :: nat

datatype error = out_of_range

text \<open>
  A \<^verbatim>\<open>HashIterator\<close> is a pair of vector iterators; the model keeps their indices.
\<close>

record HashIterator =
  current :: nat
  end_it :: nat

text \<open>\<^verbatim>\<open>buckets_[i]\<close>: reading outside the vector is undefined behaviour.\<close>

definition bucket_at :: "('k, 'v) HashMap \<Rightarrow> nat \<Rightarrow> ('k, 'v) HashBucket option" where
  "bucket_at m i = (if i < length (m_buckets m) then Some (m_buckets m ! i) else None)"

definition HashMap_empty :: "('k, 'v) HashMap \<Rightarrow> bool" where
  "HashMap_empty m \<longleftrightarrow> m_size m = 0"

definition HashMap_size :: "('k, 'v) HashMap \<Rightarrow> nat" where
  "HashMap_size m = m_size m"

definition next_bucket :: "('k, 'v) HashMap \<Rightarrow> nat \<Rightarrow> nat" where
  "next_bucket m bucket = size_add bucket 1 AND size_sub (m_capacity m) 1"

definition get_ideal :: "('k, 'v) HashMap \<Rightarrow> nat \<Rightarrow> nat" where
  "get_ideal m hash = hash AND m_mask m"

definition get_distance :: "('k, 'v) HashMap \<Rightarrow> nat \<Rightarrow> nat \<Rightarrow> nat" where
  "get_distance m position_1 position_2 = size_sub position_2 position_1 AND m_mask m"

text \<open>
  \<^verbatim>\<open>get_capacity\<close>: the loop doubles \<^verbatim>\<open>size\<close> until it reaches \<^verbatim>\<open>count\<close>; the shift wraps,
  so the loop need not end.
\<close>

partial_function (option) get_capacity_loop :: "nat \<Rightarrow> nat \<Rightarrow> nat option" where
  "get_capacity_loop sz cnt =
     (if sz < cnt then get_capacity_loop (size_shl1 sz) cnt else Some sz)"

declare get_capacity_loop.simps [code]

definition get_capacity :: "nat \<Rightarrow> nat option" where
  "get_capacity cnt =
     (if cnt = 0 then Some 0
      else (case get_capacity_loop 1 cnt of None \<Rightarrow> None | Some sz \<Rightarrow> Some (size_shl1 sz)))"

text \<open>
  \<^verbatim>\<open>update_sizes\<close> computes in single precision:
  \<^verbatim>\<open>max_size_ = std::min<size_t>(mask_, std::ceil(MAX_LOAD_FACTOR * capacity_))\<close> and
  \<^verbatim>\<open>min_size_ = std::max<float>(0, std::floor(MIN_LOAD_FACTOR * capacity_))\<close>.
  The \<^verbatim>\<open>float\<close> constants are \<open>0.8f = 13421773 / 2 ^ 24\<close> and
  \<open>0.2f = 13421773 / 2 ^ 26\<close>.  For a capacity that is 0 or a power of two up to
  \<open>2 ^ 63\<close> (the only values \<^verbatim>\<open>get_capacity\<close> returns) the conversion of the capacity
  and the product are exact in \<^verbatim>\<open>float\<close>, so that the two thresholds are the integers
  below; for other capacities the definitions ignore the rounding of the product.
\<close>

definition ceil_max_load :: "nat \<Rightarrow> nat" where
  "ceil_max_load cap = (13421773 * cap + 16777215) div 16777216"

definition floor_min_load :: "nat \<Rightarrow> nat" where
  "floor_min_load cap = (13421773 * cap) div 67108864"

definition update_sizes :: "('k, 'v) HashMap \<Rightarrow> ('k, 'v) HashMap" where
  "update_sizes m =
     m\<lparr>m_max_size := min (m_mask m) (ceil_max_load (m_capacity m)),
       m_min_size := max 0 (floor_min_load (m_capacity m))\<rparr>"

text \<open>
  \<^verbatim>\<open>container_type v(n)\<close> allocates a vector of \<open>n\<close> empty buckets.  The constructor
  throws \<^verbatim>\<open>std::length_error\<close> when \<open>n\<close> exceeds \<^verbatim>\<open>max_size()\<close>, which on a 64-bit
  implementation is at most \<^verbatim>\<open>PTRDIFF_MAX / sizeof(bucket_type)\<close>; a bucket holds two
  \<^verbatim>\<open>size_t\<close> and the aligned storage of a pair, so it has at least 24 bytes.  The
  exception leaves the function that allocates, and its callers; the model returns
  \<open>None\<close>.  An allocation within the bound is taken to succeed.
\<close>

definition vector_max_size :: nat where
  "vector_max_size = (2 ^ 63 - 1) div 24"

definition new_buckets :: "nat \<Rightarrow> ('k, 'v) HashBucket list option" where
  "new_buckets n = (if n \<le> vector_max_size then Some (replicate n HashBucket_new) else None)"

text \<open>The constructor \<^verbatim>\<open>HashMap(Hash hasher = Hash(), size_t count = 0)\<close>.\<close>

definition HashMap_new :: "('k \<Rightarrow> 64 word) \<Rightarrow> nat \<Rightarrow> ('k, 'v) HashMap option" where
  "HashMap_new hasher cnt =
     (case get_capacity cnt of
        None \<Rightarrow> None
      | Some cap \<Rightarrow>
          (case new_buckets cap of
             None \<Rightarrow> None
           | Some bs \<Rightarrow>
               Some (update_sizes
                 \<lparr>m_hasher = hasher, m_size = 0, m_capacity = cap,
                  m_mask = (if cap \<noteq> 0 then size_sub cap 1 else 0),
                  m_buckets = bs, m_max_size = 0, m_min_size = 0\<rparr>)))"

text \<open>The default-constructed map, \<^verbatim>\<open>HashMap(hasher, 0)\<close>.\<close>

definition HashMap_default :: "('k \<Rightarrow> 64 word) \<Rightarrow> ('k, 'v) HashMap" where
  "HashMap_default hasher =
     update_sizes
       \<lparr>m_hasher = hasher, m_size = 0, m_capacity = 0, m_mask = 0, m_buckets = [],
        m_max_size = 0, m_min_size = 0\<rparr>"

definition HashMap_clear :: "('k, 'v) HashMap \<Rightarrow> ('k, 'v) HashMap" where
  "HashMap_clear m =
     m\<lparr>m_size := 0, m_capacity := 0, m_mask := 0, m_max_size := 0, m_min_size := 0,
       m_buckets := []\<rparr>"

subsection \<open>Lookup\<close>

partial_function (option) find_bucket_loop ::
  "('k, 'v) HashMap \<Rightarrow> 'k \<Rightarrow> nat \<Rightarrow> nat \<Rightarrow> nat \<Rightarrow> nat option" where
  "find_bucket_loop m key hash bucket distance =
     (case bucket_at m bucket of
        None \<Rightarrow> None
      | Some b \<Rightarrow>
          if \<not> HashBucket_empty b \<and> distance \<le> b_distance b then
            (if b_hash b = hash then
               (case b_value b of
                  None \<Rightarrow> None
                | Some kv \<Rightarrow>
                    if fst kv = key then Some bucket
                    else find_bucket_loop m key hash (next_bucket m bucket) (size_add distance 1))
             else find_bucket_loop m key hash (next_bucket m bucket) (size_add distance 1))
          else Some bucket)"

declare find_bucket_loop.simps [code]

definition find_bucket :: "('k, 'v) HashMap \<Rightarrow> 'k \<Rightarrow> nat \<Rightarrow> nat option" where
  "find_bucket m key hash =
     (if HashMap_empty m then Some (get_ideal m hash)
      else find_bucket_loop m key hash (get_ideal m hash) 0)"

definition check :: "('k, 'v) HashMap \<Rightarrow> nat \<Rightarrow> 'k \<Rightarrow> nat \<Rightarrow> bool option" where
  "check m position key hash =
     (if HashMap_empty m then Some False
      else (case bucket_at m position of
              None \<Rightarrow> None
            | Some b \<Rightarrow>
                if HashBucket_empty b then Some False
                else if b_hash b \<noteq> hash then Some False
                else (case b_value b of None \<Rightarrow> None | Some kv \<Rightarrow> Some (fst kv = key))))"

definition end_iterator :: "('k, 'v) HashMap \<Rightarrow> HashIterator" where
  "end_iterator m = \<lparr>current = length (m_buckets m), end_it = length (m_buckets m)\<rparr>"

definition position_iterator :: "('k, 'v) HashMap \<Rightarrow> nat \<Rightarrow> HashIterator" where
  "position_iterator m position = \<lparr>current = position, end_it = length (m_buckets m)\<rparr>"

text \<open>\<^verbatim>\<open>operator*\<close> of an iterator: the pair stored in the bucket it points to.\<close>

definition deref :: "('k, 'v) HashMap \<Rightarrow> HashIterator \<Rightarrow> ('k \<times> 'v) option" where
  "deref m it = (case bucket_at m (current it) of None \<Rightarrow> None | Some b \<Rightarrow> b_value b)"

definition find :: "('k, 'v) HashMap \<Rightarrow> 'k \<Rightarrow> HashIterator option" where
  "find m key =
     (if HashMap_empty m then Some (end_iterator m)
      else (let hash = unat (m_hasher m key) in
            case find_bucket m key hash of
              None \<Rightarrow> None
            | Some position \<Rightarrow>
                (case check m position key hash of
                   None \<Rightarrow> None
                 | Some c \<Rightarrow>
                     if \<not> c then Some (end_iterator m)
                     else Some (position_iterator m position))))"

text \<open>
  \<^verbatim>\<open>at\<close> returns a reference to the value of a bucket or throws \<^verbatim>\<open>std::out_of_range\<close>.
  \<open>at_ref\<close> is the position of the bucket referred to, \<open>at\<close> the value read through
  the reference, \<open>ref_set\<close> an assignment through such a reference.
\<close>

definition at_ref :: "('k, 'v) HashMap \<Rightarrow> 'k \<Rightarrow> (error + nat) option" where
  "at_ref m key =
     (if HashMap_empty m then Some (Inl out_of_range)
      else (let hash = unat (m_hasher m key) in
            case find_bucket m key hash of
              None \<Rightarrow> None
            | Some position \<Rightarrow>
                (case check m position key hash of
                   None \<Rightarrow> None
                 | Some c \<Rightarrow>
                     if \<not> c then Some (Inl out_of_range)
                     else Some (Inr position))))"

definition ref_get :: "('k, 'v) HashMap \<Rightarrow> nat \<Rightarrow> 'v option" where
  "ref_get m position =
     (case bucket_at m position of
        None \<Rightarrow> None
      | Some b \<Rightarrow> (case b_value b of None \<Rightarrow> None | Some kv \<Rightarrow> Some (snd kv)))"

definition ref_set :: "('k, 'v) HashMap \<Rightarrow> nat \<Rightarrow> 'v \<Rightarrow> ('k, 'v) HashMap option" where
  "ref_set m position v =
     (case bucket_at m position of
        None \<Rightarrow> None
      | Some b \<Rightarrow>
          (case b_value b of
             None \<Rightarrow> None
           | Some kv \<Rightarrow>
               Some (m\<lparr>m_buckets := (m_buckets m)[position := b\<lparr>b_value := Some (fst kv, v)\<rparr>]\<rparr>)))"

definition at :: "('k, 'v) HashMap \<Rightarrow> 'k \<Rightarrow> (error + 'v) option" where
  "at m key =
     (case at_ref m key of
        None \<Rightarrow> None
      | Some (Inl e) \<Rightarrow> Some (Inl e)
      | Some (Inr position) \<Rightarrow>
          (case ref_get m position of None \<Rightarrow> None | Some v \<Rightarrow> Some (Inr v)))"

subsection \<open>Insertion and rehash\<close>

text \<open>
  The probe loop of \<^verbatim>\<open>insert(hash_value_type&&, size_t)\<close>.  It changes the buckets and the
  locals \<^verbatim>\<open>position\<close>, \<^verbatim>\<open>value\<close>, \<^verbatim>\<open>hash\<close>, \<^verbatim>\<open>distance\<close>, \<^verbatim>\<open>answer\<close>, which are all returned.
\<close>

partial_function (option) insert_loop ::
  "('k, 'v) HashMap \<Rightarrow> nat \<Rightarrow> ('k \<times> 'v) \<Rightarrow> nat \<Rightarrow> nat \<Rightarrow> nat \<Rightarrow>
     (('k, 'v) HashMap \<times> nat \<times> ('k \<times> 'v) \<times> nat \<times> nat \<times> nat) option" where
  "insert_loop m position v hash distance answer =
     (case bucket_at m position of
        None \<Rightarrow> None
      | Some b \<Rightarrow>
          if \<not> HashBucket_empty b then
            (if b_distance b < distance then
               (case HashBucket_swap b v hash distance of
                  None \<Rightarrow> None
                | Some (b', v', hash', distance') \<Rightarrow>
                    insert_loop (m\<lparr>m_buckets := (m_buckets m)[position := b']\<rparr>)
                      (next_bucket m position) v' hash' (size_add distance' 1)
                      (if answer = UNOCCUPIED then position else answer))
             else insert_loop m (next_bucket m position) v hash (size_add distance 1) answer)
          else Some (m, position, v, hash, distance, answer))"

declare insert_loop.simps [code]

text \<open>
  \<^verbatim>\<open>insert(value, hash)\<close> calls \<^verbatim>\<open>rehash\<close>, whose loop calls \<^verbatim>\<open>insert(value)\<close>, which calls
  \<^verbatim>\<open>insert(value, hash)\<close> again.  The first argument of the four functions bounds the
  depth of these nested calls; \<open>None\<close> is returned when it is used up.
\<close>

fun insert_hash ::
    "nat \<Rightarrow> ('k, 'v) HashMap \<Rightarrow> ('k \<times> 'v) \<Rightarrow> nat \<Rightarrow> (('k, 'v) HashMap \<times> nat) option"
  and HashMap_insert ::
    "nat \<Rightarrow> ('k, 'v) HashMap \<Rightarrow> ('k \<times> 'v) \<Rightarrow> ('k, 'v) HashMap option"
  and rehash_loop ::
    "nat \<Rightarrow> ('k, 'v) HashMap \<Rightarrow> ('k, 'v) HashBucket list \<Rightarrow> ('k, 'v) HashMap option"
  and rehash ::
    "nat \<Rightarrow> ('k, 'v) HashMap \<Rightarrow> nat \<Rightarrow> ('k, 'v) HashMap option"
where
  "insert_hash 0 m v hash = None"
| "insert_hash (Suc d) m v hash =
     (case find_bucket m (fst v) hash of
        None \<Rightarrow> None
      | Some position \<Rightarrow>
          (case check m position (fst v) hash of
             None \<Rightarrow> None
           | Some c \<Rightarrow>
               if c then Some (m, position)
               else
                 (case (if m_size m = m_max_size m
                        then (case get_capacity (size_add (m_size m) 1) of
                                None \<Rightarrow> None
                              | Some cap \<Rightarrow> rehash d m cap)
                        else Some m) of
                    None \<Rightarrow> None
                  | Some m1 \<Rightarrow>
                      (case insert_loop m1 (get_ideal m1 hash) v hash 0 UNOCCUPIED of
                         None \<Rightarrow> None
                       | Some (m2, position2, v2, hash2, distance2, answer) \<Rightarrow>
                           (case bucket_at m2 position2 of
                              None \<Rightarrow> None
                            | Some b \<Rightarrow>
                                (case HashBucket_set v2 hash2 distance2 b of
                                   None \<Rightarrow> None
                                 | Some b' \<Rightarrow>
                                     Some (m2\<lparr>m_buckets := (m_buckets m2)[position2 := b'],
                                              m_size := size_add (m_size m2) 1\<rparr>,
                                           if answer = UNOCCUPIED then position2 else answer)))))))"
| "HashMap_insert d m v =
     (case insert_hash d m v (unat (m_hasher m (fst v))) of
        None \<Rightarrow> None
      | Some (m', position) \<Rightarrow> Some m')"
| "rehash_loop d m [] = Some m"
| "rehash_loop d m (cur # old_buckets) =
     (if \<not> HashBucket_empty cur then
        (case b_value cur of
           None \<Rightarrow> None
         | Some v \<Rightarrow>
             (case HashMap_insert d m v of
                None \<Rightarrow> None
              | Some m' \<Rightarrow> rehash_loop d m' old_buckets))
      else rehash_loop d m old_buckets)"
| "rehash 0 m sz = None"
| "rehash (Suc d) m sz =
     (case new_buckets sz of
        None \<Rightarrow> None
      | Some bs \<Rightarrow>
          rehash_loop d
            (update_sizes
               (m\<lparr>m_buckets := bs, m_capacity := sz, m_mask := size_sub sz 1, m_size := 0\<rparr>))
            (m_buckets m))"

text \<open>
  \<^verbatim>\<open>operator[]\<close>: the map after the call and the position of the bucket whose value the
  returned reference denotes.  \<open>dflt\<close> is the value-initialised \<^verbatim>\<open>Value()\<close>.
\<close>

definition index_op ::
  "nat \<Rightarrow> 'v \<Rightarrow> ('k, 'v) HashMap \<Rightarrow> 'k \<Rightarrow> (('k, 'v) HashMap \<times> nat) option" where
  "index_op d dflt m key =
     (let hash = unat (m_hasher m key) in
      case find_bucket m key hash of
        None \<Rightarrow> None
      | Some position \<Rightarrow>
          (case check m position key hash of
             None \<Rightarrow> None
           | Some c \<Rightarrow>
               (case (if \<not> c then insert_hash d m (key, dflt) hash else Some (m, position)) of
                  None \<Rightarrow> None
                | Some (m', position') \<Rightarrow>
                    (case ref_get m' position' of
                       None \<Rightarrow> None
                     | Some v \<Rightarrow> Some (m', position')))))"

subsection \<open>Deletion\<close>

text \<open>
  The backward-shift loop of \<^verbatim>\<open>erase(key, hash)\<close>.  When \<^verbatim>\<open>position\<close> and \<^verbatim>\<open>to_swap\<close>
  coincide, \<^verbatim>\<open>set\<close> destroys the very object it is about to move from, which is
  undefined behaviour.
\<close>

partial_function (option) erase_loop ::
  "('k, 'v) HashMap \<Rightarrow> nat \<Rightarrow> nat \<Rightarrow> ('k, 'v) HashMap option" where
  "erase_loop m position to_swap =
     (case bucket_at m to_swap of
        None \<Rightarrow> None
      | Some b \<Rightarrow>
          if b_distance b \<noteq> 0 then
            (if HashBucket_empty b then erase_loop m position (next_bucket m to_swap)
             else
               (case b_value b of
                  None \<Rightarrow> None
                | Some v \<Rightarrow>
                    if position = to_swap then None
                    else
                      (case bucket_at m position of
                         None \<Rightarrow> None
                       | Some pb \<Rightarrow>
                           (case HashBucket_set v (b_hash b)
                                   (get_distance m (get_ideal m (b_hash b)) position) pb of
                              None \<Rightarrow> None
                            | Some pb' \<Rightarrow>
                                (case HashBucket_clear b of
                                   None \<Rightarrow> None
                                 | Some b' \<Rightarrow>
                                     erase_loop
                                       (m\<lparr>m_buckets := (m_buckets m)[position := pb', to_swap := b']\<rparr>)
                                       (next_bucket m position) (next_bucket m to_swap))))))
          else Some m)"

declare erase_loop.simps [code]

definition erase_hash ::
  "nat \<Rightarrow> ('k, 'v) HashMap \<Rightarrow> 'k \<Rightarrow> nat \<Rightarrow> ('k, 'v) HashMap option" where
  "erase_hash d m key hash =
     (case find_bucket m key hash of
        None \<Rightarrow> None
      | Some position \<Rightarrow>
          (case check m position key hash of
             None \<Rightarrow> None
           | Some c \<Rightarrow>
               if \<not> c then Some m
               else
                 (case bucket_at m position of
                    None \<Rightarrow> None
                  | Some b \<Rightarrow>
                      (case HashBucket_clear b of
                         None \<Rightarrow> None
                       | Some b' \<Rightarrow>
                           (let m1 = m\<lparr>m_buckets := (m_buckets m)[position := b'],
                                       m_size := size_sub (m_size m) 1\<rparr>
                            in if HashMap_empty m1 then Some m1
                               else if m_size m1 < m_min_size m1 then
                                 (case get_capacity (m_size m1) of
                                    None \<Rightarrow> None
                                  | Some cap \<Rightarrow> rehash d m1 cap)
                               else erase_loop m1 position (next_bucket m1 position))))))"

definition erase :: "nat \<Rightarrow> ('k, 'v) HashMap \<Rightarrow> 'k \<Rightarrow> ('k, 'v) HashMap option" where
  "erase d m key = erase_hash d m key (unat (m_hasher m key))"

section \<open>Client operations and reachable states\<close>

text \<open>
  The operations a client performs on a map through its interface:
  \<^verbatim>\<open>m.insert({k, v})\<close>, \<^verbatim>\<open>m.erase(k)\<close>, \<^verbatim>\<open>m[k]\<close>, \<^verbatim>\<open>m[k] = v\<close>, \<^verbatim>\<open>m.at(k) = v\<close> and
  \<^verbatim>\<open>m.clear()\<close>.  \<^verbatim>\<open>m.at(k) = v\<close> on an absent key throws before anything is written, and
  the map stays as it is.
\<close>

datatype ('k, 'v) operation =
    Insert "'k \<times> 'v"
  | Erase 'k
  | Index 'k
  | Assign 'k 'v
  | Assign_at 'k 'v
  | Clear

fun apply_op ::
  "nat \<Rightarrow> 'v \<Rightarrow> ('k, 'v) HashMap \<Rightarrow> ('k, 'v) operation \<Rightarrow> ('k, 'v) HashMap option" where
  "apply_op d dflt m (Insert kv) = HashMap_insert d m kv"
| "apply_op d dflt m (Erase k) = erase d m k"
| "apply_op d dflt m (Index k) =
     (case index_op d dflt m k of None \<Rightarrow> None | Some (m', position) \<Rightarrow> Some m')"
| "apply_op d dflt m (Assign k v) =
     (case index_op d dflt m k of None \<Rightarrow> None | Some (m', position) \<Rightarrow> ref_set m' position v)"
| "apply_op d dflt m (Assign_at k v) =
     (case at_ref m k of
        None \<Rightarrow> None
      | Some (Inl e) \<Rightarrow> Some m
      | Some (Inr position) \<Rightarrow> ref_set m position v)"
| "apply_op d dflt m Clear = Some (HashMap_clear m)"

fun apply_ops ::
  "nat \<Rightarrow> 'v \<Rightarrow> ('k, 'v) HashMap \<Rightarrow> ('k, 'v) operation list \<Rightarrow> ('k, 'v) HashMap option" where
  "apply_ops d dflt m [] = Some m"
| "apply_ops d dflt m (x # xs) =
     (case apply_op d dflt m x of None \<Rightarrow> None | Some m' \<Rightarrow> apply_ops d dflt m' xs)"

text \<open>\<open>touches k x\<close>: the operation erases key \<open>k\<close> or overwrites its value.\<close>

fun touches :: "'k \<Rightarrow> ('k, 'v) operation \<Rightarrow> bool" where
  "touches k (Insert kv) = False"
| "touches k (Erase k') = (k' = k)"
| "touches k (Index k') = False"
| "touches k (Assign k' v) = (k' = k)"
| "touches k (Assign_at k' v) = (k' = k)"
| "touches k Clear = True"

text \<open>
  A state is reachable when a constructor call followed by client operations, each of
  which returns, produces it.
\<close>

inductive reachable :: "('k, 'v) HashMap \<Rightarrow> bool" where
  reachable_new: "HashMap_new hasher cnt = Some m \<Longrightarrow> reachable m"
| reachable_op: "reachable m \<Longrightarrow> apply_op d dflt m x = Some m' \<Longrightarrow> reachable m'"

section \<open>Abstraction and invariant\<close>

text \<open>The pairs stored in the table, in bucket order, and the mapping they denote.\<close>

definition entries :: "('k, 'v) HashMap \<Rightarrow> ('k \<times> 'v) list" where
  "entries m = List.map_filter b_value (m_buckets m)"

definition opt_mset :: "'a option \<Rightarrow> 'a multiset" where
  "opt_mset x = (case x of None \<Rightarrow> {#} | Some a \<Rightarrow> {#a#})"

definition lookup :: "('k, 'v) HashMap \<Rightarrow> 'k \<Rightarrow> 'v option" where
  "lookup m = map_of (entries m)"

text \<open>
  \<open>geometry m k\<close>: the table has \<open>2 ^ k\<close> buckets with \<open>k \<ge> 1\<close>, within the
  allocation bound, and the mask fits.
\<close>

definition geometry :: "('k, 'v) HashMap \<Rightarrow> nat \<Rightarrow> bool" where
  "geometry m k \<longleftrightarrow>
     1 \<le> k \<and> 2 ^ k \<le> vector_max_size \<and> m_capacity m = 2 ^ k \<and> m_mask m = 2 ^ k - 1 \<and>
     length (m_buckets m) = 2 ^ k"

text \<open>
  \<open>slot_ok m p\<close>: bucket \<open>p\<close> either holds no pair and the sentinel distance, or holds a
  pair together with the hash of its key and its circular distance from the ideal bucket.
\<close>

definition slot_ok :: "('k, 'v) HashMap \<Rightarrow> nat \<Rightarrow> bool" where
  "slot_ok m p \<longleftrightarrow>
     (case b_value (m_buckets m ! p) of
        None \<Rightarrow> b_distance (m_buckets m ! p) = UNOCCUPIED
      | Some kv \<Rightarrow>
          b_hash (m_buckets m ! p) = unat (m_hasher m (fst kv)) \<and>
          b_distance (m_buckets m ! p) =
            (p + m_capacity m - b_hash (m_buckets m ! p) mod m_capacity m) mod m_capacity m)"

text \<open>
  \<open>rh_ok m p\<close>: the Robin Hood order between bucket \<open>p\<close> and its circular successor: an
  occupied successor is at its ideal bucket or at most one step farther from home than an
  occupied bucket \<open>p\<close>.
\<close>

definition rh_ok :: "('k, 'v) HashMap \<Rightarrow> nat \<Rightarrow> bool" where
  "rh_ok m p \<longleftrightarrow>
     b_value (m_buckets m ! ((p + 1) mod m_capacity m)) = None \<or>
     b_distance (m_buckets m ! ((p + 1) mod m_capacity m)) = 0 \<or>
     (b_value (m_buckets m ! p) \<noteq> None \<and>
      b_distance (m_buckets m ! ((p + 1) mod m_capacity m)) \<le> b_distance (m_buckets m ! p) + 1)"

definition table_ok :: "('k, 'v) HashMap \<Rightarrow> bool" where
  "table_ok m \<longleftrightarrow>
     (\<exists>k. geometry m k) \<and> (\<forall>p < m_capacity m. slot_ok m p) \<and> (\<forall>p < m_capacity m. rh_ok m p)"

definition HashMap_inv :: "('k, 'v) HashMap \<Rightarrow> bool" where
  "HashMap_inv m \<longleftrightarrow>
     m_max_size m = min (m_mask m) (ceil_max_load (m_capacity m)) \<and>
     m_min_size m = floor_min_load (m_capacity m) \<and>
     m_size m = length (entries m) \<and>
     distinct (map fst (entries m)) \<and>
     m_size m \<le> m_max_size m \<and>
     (if m_capacity m = 0 then m_mask m = 0 \<and> m_buckets m = [] else table_ok m)"

text \<open>
  \<open>probe_ok m position v hash distance\<close>: the state of the probe loop of
  \<^verbatim>\<open>insert\<close>.  The table is well formed; the travelling pair \<open>v\<close> with its hash has come
  \<open>distance\<close> steps from its ideal bucket to \<open>position\<close>, and storing it at
  \<open>position\<close> would respect the Robin Hood order with the bucket before.
\<close>

definition probe_ok :: "('k, 'v) HashMap \<Rightarrow> nat \<Rightarrow> ('k \<times> 'v) \<Rightarrow> nat \<Rightarrow> nat \<Rightarrow> bool" where
  "probe_ok m position v hash distance \<longleftrightarrow>
     table_ok m \<and> position < m_capacity m \<and> hash = unat (m_hasher m (fst v)) \<and>
     distance = (position + m_capacity m - hash mod m_capacity m) mod m_capacity m \<and>
     (distance = 0 \<or>
      (b_value (m_buckets m ! ((position + m_capacity m - 1) mod m_capacity m)) \<noteq> None \<and>
       distance \<le>
         b_distance (m_buckets m ! ((position + m_capacity m - 1) mod m_capacity m)) + 1))"

text \<open>
  \<open>gap_ok m g\<close>: the state of the backward-shift loop of \<^verbatim>\<open>erase\<close>.  Bucket \<open>g\<close> has just
  been vacated; every bucket is well formed and the Robin Hood order holds everywhere
  except across the gap, where the bucket after the gap is at most two steps farther from
  home than the bucket before it.
\<close>

definition gap_ok :: "('k, 'v) HashMap \<Rightarrow> nat \<Rightarrow> bool" where
  "gap_ok m g \<longleftrightarrow>
     (\<exists>k. geometry m k) \<and> g < m_capacity m \<and> b_value (m_buckets m ! g) = None \<and>
     (\<forall>p < m_capacity m. slot_ok m p) \<and>
     (\<forall>p < m_capacity m. p \<noteq> g \<longrightarrow> rh_ok m p) \<and>
     (b_value (m_buckets m ! ((g + 1) mod m_capacity m)) = None \<or>
      b_distance (m_buckets m ! ((g + 1) mod m_capacity m)) \<le> 1 \<or>
      (b_value (m_buckets m ! ((g + m_capacity m - 1) mod m_capacity m)) \<noteq> None \<and>
       b_distance (m_buckets m ! ((g + 1) mod m_capacity m)) \<le>
         b_distance (m_buckets m ! ((g + m_capacity m - 1) mod m_capacity m)) + 2))"

text \<open>The sum of the distances of the stored pairs: it falls with every backward shift.\<close>

definition dist_sum :: "('k, 'v) HashBucket list \<Rightarrow> nat" where
  "dist_sum bs = sum_list (map (\<lambda>b. if b_value b = None then 0 else b_distance b) bs)"

text \<open>
  The layout of the table: for every bucket in physical order, whether \<^verbatim>\<open>empty()\<close> holds
  and, if not, the ideal bucket of the cached hash and the stored distance.
\<close>

definition layout :: "('k, 'v) HashMap \<Rightarrow> (nat \<times> nat) option list" where
  "layout m =
     map (\<lambda>b. if HashBucket_empty b then None
               else Some (get_ideal m (b_hash b), b_distance b))
       (m_buckets m)"

section \<open>The backward-shift pass of the specification\<close>

text \<open>
  The pass as section 4.5 of the specification words it, to be compared with the loop of
  the source (\<open>erase_loop\<close>): starting from the successor of the freed slot, while the
  current slot is occupied and its stored distance is nonzero, move its payload one
  position back into the gap, recompute its distance with \<open>distance_between\<close>, clear the
  vacated slot and advance the gap to the next position; stop at the first slot that is
  empty or already has distance 0.  \<open>spec_next\<close> is the specification's
  \<open>next(pos) = (pos + 1) & mask\<close>.
\<close>

definition spec_next :: "('k, 'v) HashMap \<Rightarrow> nat \<Rightarrow> nat" where
  "spec_next m pos = size_add pos 1 AND m_mask m"

partial_function (option) backward_shift_spec ::
  "('k, 'v) HashMap \<Rightarrow> nat \<Rightarrow> nat \<Rightarrow> ('k, 'v) HashMap option" where
  "backward_shift_spec m gap cur =
     (case bucket_at m cur of
        None \<Rightarrow> None
      | Some b \<Rightarrow>
          if \<not> HashBucket_empty b \<and> b_distance b \<noteq> 0 then
            (case b_value b of
               None \<Rightarrow> None
             | Some v \<Rightarrow>
                 (case bucket_at m gap of
                    None \<Rightarrow> None
                  | Some gb \<Rightarrow>
                      backward_shift_spec
                        (m\<lparr>m_buckets := (m_buckets m)
                             [gap := gb\<lparr>b_value := Some v, b_hash := b_hash b,
                                      b_distance := get_distance m (get_ideal m (b_hash b)) gap\<rparr>,
                              cur := b\<lparr>b_value := None, b_distance := UNOCCUPIED\<rparr>]\<rparr>)
                        (spec_next m gap) (spec_next m cur)))
          else Some m)"

section \<open>Example states\<close>

text \<open>A hasher for the examples: the key itself, as \<^verbatim>\<open>std::hash<size_t>\<close> computes it.\<close>

definition example_hasher :: "nat \<Rightarrow> 64 word" where
  "example_hasher k = word_of_nat k"

definition occupied_bucket :: "'k \<Rightarrow> 'v \<Rightarrow> nat \<Rightarrow> nat \<Rightarrow> ('k, 'v) HashBucket" where
  "occupied_bucket k v h d = \<lparr>b_value = Some (k, v), b_hash = h, b_distance = d\<rparr>"

definition empty_bucket :: "nat \<Rightarrow> ('k, 'v) HashBucket" where
  "empty_bucket h = \<lparr>b_value = None, b_hash = h, b_distance = UNOCCUPIED\<rparr>"

text \<open>The table after \<^verbatim>\<open>insert({1, 10})\<close> into a default-constructed map.\<close>

definition example_one :: "(nat, nat) HashMap" where
  "example_one =
     \<lparr>m_hasher = example_hasher, m_size = 1, m_capacity = 2, m_mask = 1,
      m_buckets = [empty_bucket 0, occupied_bucket 1 10 1 0],
      m_max_size = 1, m_min_size = 0\<rparr>"

text \<open>After \<^verbatim>\<open>insert({1, 10}); insert({5, 50})\<close>, and after the same in the other order.\<close>

definition example_1_5 :: "(nat, nat) HashMap" where
  "example_1_5 =
     \<lparr>m_hasher = example_hasher, m_size = 2, m_capacity = 4, m_mask = 3,
      m_buckets = [empty_bucket 0, occupied_bucket 1 10 1 0, occupied_bucket 5 50 5 1,
                   empty_bucket 0],
      m_max_size = 3, m_min_size = 0\<rparr>"

definition example_5_1 :: "(nat, nat) HashMap" where
  "example_5_1 =
     \<lparr>m_hasher = example_hasher, m_size = 2, m_capacity = 4, m_mask = 3,
      m_buckets = [empty_bucket 0, occupied_bucket 5 50 5 0, occupied_bucket 1 10 1 1,
                   empty_bucket 0],
      m_max_size = 3, m_min_size = 0\<rparr>"

text \<open>After \<^verbatim>\<open>insert({1, 10}); insert({5, 50}); erase(1)\<close>.\<close>

definition example_5 :: "(nat, nat) HashMap" where
  "example_5 =
     \<lparr>m_hasher = example_hasher, m_size = 1, m_capacity = 4, m_mask = 3,
      m_buckets = [empty_bucket 0, occupied_bucket 5 50 5 0, empty_bucket 5, empty_bucket 0],
      m_max_size = 3, m_min_size = 0\<rparr>"

text \<open>After \<^verbatim>\<open>insert({1, 10}); erase(1)\<close>.\<close>

definition example_erased :: "(nat, nat) HashMap" where
  "example_erased =
     \<lparr>m_hasher = example_hasher, m_size = 0, m_capacity = 2, m_mask = 1,
      m_buckets = [empty_bucket 0, empty_bucket 1],
      m_max_size = 1, m_min_size = 0\<rparr>"

lemma and_pow2_minus_1: "(x::nat) AND (2 ^ k - 1) = x mod 2 ^ k"
  by (metis mask_eq_exp_minus_1 take_bit_eq_mask take_bit_eq_mod)

lemma pow2_le_63: "k \<le> 63 \<Longrightarrow> (2::nat) ^ k \<le> 2 ^ 63"
  by (rule power_increasing) simp_all

lemma pow2_lt_64: "k \<le> 63 \<Longrightarrow> (2::nat) ^ k < 2 ^ 64"
proof -
  assume "k \<le> 63"
  then have "(2::nat) ^ k \<le> 2 ^ 63" by (rule pow2_le_63)
  also have "(2::nat) ^ 63 < 2 ^ 64" by (rule power_strict_increasing) simp_all
  finally show ?thesis .
qed

lemma pow2_dvd_64: "k \<le> 63 \<Longrightarrow> (2::nat) ^ k dvd 2 ^ 64"
  by (rule le_imp_power_dvd) simp

lemma wrap_sub_ge: "b \<le> a \<Longrightarrow> a < M \<Longrightarrow> (a + M - b) mod M = a - (b::nat)"
proof -
  assume a: "b \<le> a" "a < M"
  then have "a + M - b = (a - b) + M" by simp
  then have "(a + M - b) mod M = (a - b) mod M" by simp
  with a show ?thesis by simp
qed

lemma wrap_sub_lt: "a < b \<Longrightarrow> b < M \<Longrightarrow> (a + M - b) mod M = a + M - (b::nat)"
  by simp

lemma wrap_sub_mod:
  fixes a b c M :: nat
  assumes "c dvd M" "0 < c" "a < c" "b < c" "c \<le> M"
  shows "((a + M - b) mod M) mod c = (a + c - b) mod c"
proof (cases "b \<le> a")
  case True
  with assms have "(a + M - b) mod M = a - b" by (intro wrap_sub_ge) simp_all
  moreover from True have "(a + c - b) mod c = (a - b) mod c"
    by (metis Nat.add_diff_assoc2 mod_add_self2)
  ultimately show ?thesis by simp
next
  case False
  then have lt: "a < b" by simp
  with assms have e: "(a + M - b) mod M = a + M - b" by (intro wrap_sub_lt) simp_all
  from assms obtain q where q: "M = c * q" by (auto elim: dvdE)
  with assms have "q \<noteq> 0" by (cases q) simp_all
  then obtain r where r: "q = Suc r" by (cases q) simp_all
  from lt assms have "a + M - b = (a + c - b) + c * r" by (simp add: q r)
  then have "(a + M - b) mod c = (a + c - b) mod c" by simp
  with e show ?thesis by simp
qed

lemma size_sub_1_pow2: "k \<le> 63 \<Longrightarrow> size_sub (2 ^ k) 1 = 2 ^ k - 1"
  unfolding size_sub_def using pow2_lt_64 [of k] by (intro wrap_sub_ge) simp_all

lemma size_add_1_small: "a < 2 ^ 63 \<Longrightarrow> size_add a 1 = a + 1"
  by (simp add: size_add_def)

lemma size_sub_mod_pow2:
  assumes "k \<le> 63" "a < 2 ^ k" "b < 2 ^ k"
  shows "size_sub a b mod 2 ^ k = (a + 2 ^ k - b) mod 2 ^ k"
  unfolding size_sub_def using assms pow2_dvd_64 [of k] pow2_lt_64 [of k]
  by (intro wrap_sub_mod) simp_all

lemma next_bucket_pow2:
  assumes "k \<le> 63" "m_capacity m = 2 ^ k" "p < 2 ^ k"
  shows "next_bucket m p = (p + 1) mod 2 ^ k"
proof -
  from assms pow2_le_63 [of k] have "p < 2 ^ 63" by simp
  then have "size_add p 1 = p + 1" by (rule size_add_1_small)
  moreover have "size_sub (m_capacity m) 1 = 2 ^ k - 1"
    using assms by (simp only: size_sub_1_pow2)
  ultimately show ?thesis
    unfolding next_bucket_def by (simp only: and_pow2_minus_1)
qed

lemma get_ideal_pow2: "m_mask m = 2 ^ k - 1 \<Longrightarrow> get_ideal m h = h mod 2 ^ k"
  unfolding get_ideal_def by (simp only: and_pow2_minus_1)

lemma get_distance_pow2:
  assumes "k \<le> 63" "m_mask m = 2 ^ k - 1" "i < 2 ^ k" "p < 2 ^ k"
  shows "get_distance m i p = (p + 2 ^ k - i) mod 2 ^ k"
  unfolding get_distance_def using assms by (simp only: and_pow2_minus_1 size_sub_mod_pow2)

subsection \<open>Stored pairs\<close>

lemma opt_mset_simps [simp]: "opt_mset None = {#}" "opt_mset (Some a) = {#a#}"
  by (simp_all add: opt_mset_def)

lemma mset_map_filter_update:
  "p < length bs \<Longrightarrow>
   mset (List.map_filter f (bs[p := b])) + opt_mset (f (bs ! p)) =
   mset (List.map_filter f bs) + opt_mset (f b)"
proof (induction bs arbitrary: p)
  case Nil
  then show ?case by simp
next
  case (Cons a bs)
  show ?case
  proof (cases p)
    case 0
    then show ?thesis by (cases "f a"; cases "f b") (simp_all add: List.map_filter_simps)
  next
    case (Suc q)
    with Cons.prems have "q < length bs" by simp
    from Cons.IH [OF this] Suc show ?thesis
      by (cases "f a") (simp_all add: List.map_filter_simps)
  qed
qed

lemma set_map_filter_nth:
  "x \<in> set (List.map_filter f bs) \<longleftrightarrow> (\<exists>p < length bs. f (bs ! p) = Some x)"
proof (induction bs)
  case Nil
  then show ?case by (simp add: List.map_filter_simps)
next
  case (Cons a bs)
  have *: "(\<exists>p < length (a # bs). f ((a # bs) ! p) = Some x) \<longleftrightarrow>
     f a = Some x \<or> (\<exists>p < length bs. f (bs ! p) = Some x)"
  proof
    assume "\<exists>p < length (a # bs). f ((a # bs) ! p) = Some x"
    then obtain p where p: "p < length (a # bs)" "f ((a # bs) ! p) = Some x" by blast
    then show "f a = Some x \<or> (\<exists>p < length bs. f (bs ! p) = Some x)"
      by (cases p) auto
  next
    assume "f a = Some x \<or> (\<exists>p < length bs. f (bs ! p) = Some x)"
    then show "\<exists>p < length (a # bs). f ((a # bs) ! p) = Some x"
    proof
      assume "f a = Some x"
      then have "0 < length (a # bs) \<and> f ((a # bs) ! 0) = Some x" by simp
      then show ?thesis by blast
    next
      assume "\<exists>p < length bs. f (bs ! p) = Some x"
      then obtain q where "q < length bs" "f (bs ! q) = Some x" by blast
      then have "Suc q < length (a # bs) \<and> f ((a # bs) ! Suc q) = Some x" by simp
      then show ?thesis by blast
    qed
  qed
  show ?case unfolding * using Cons.IH by (cases "f a") (auto simp: List.map_filter_simps)
qed

lemma entries_update:
  "p < length (m_buckets m) \<Longrightarrow>
   mset (entries (m\<lparr>m_buckets := (m_buckets m)[p := b]\<rparr>)) + opt_mset (b_value (m_buckets m ! p)) =
   mset (entries m) + opt_mset (b_value b)"
  by (simp add: entries_def mset_map_filter_update)

lemma in_entries_iff:
  "kv \<in> set (entries m) \<longleftrightarrow> (\<exists>p < length (m_buckets m). b_value (m_buckets m ! p) = Some kv)"
  by (simp add: entries_def set_map_filter_nth)

lemma entries_distinct_pos:
  assumes d: "distinct (map fst (entries m))"
    and p: "p < length (m_buckets m)" "b_value (m_buckets m ! p) = Some (k, v)"
    and q: "q < length (m_buckets m)" "b_value (m_buckets m ! q) = Some (k, v')"
  shows "p = q"
proof (rule ccontr)
  assume ne: "p \<noteq> q"
  let ?e = "\<lparr>b_value = None, b_hash = 0, b_distance = 0\<rparr> :: ('a, 'b) HashBucket"
  let ?m1 = "m\<lparr>m_buckets := (m_buckets m)[p := ?e]\<rparr>"
  have 1: "mset (entries ?m1) + {#(k, v)#} = mset (entries m)"
    using entries_update [OF p(1), of ?e] p(2) by simp
  have "q < length (m_buckets ?m1)" using q by simp
  from entries_update [OF this, of ?e] q ne
  have 2: "mset (entries (?m1\<lparr>m_buckets := (m_buckets ?m1)[q := ?e]\<rparr>)) + {#(k, v')#} = mset (entries ?m1)"
    by simp
  from 1 2 have "{#(k, v), (k, v')#} \<subseteq># mset (entries m)"
    by (metis add_mset_add_single mset_subset_eq_add_right union_mset_add_mset_right)
  then have "image_mset fst {#(k, v), (k, v')#} \<subseteq># image_mset fst (mset (entries m))"
    by (rule image_mset_subseteq_mono)
  then have "{#k, k#} \<subseteq># mset (map fst (entries m))" by simp
  then have "count {#k, k#} k \<le> count (mset (map fst (entries m))) k"
    by (rule mset_subset_eq_count)
  moreover from d have "count (mset (map fst (entries m))) k \<le> 1"
    by (simp add: distinct_count_atmost_1)
  ultimately show False by simp
qed

lemma lookup_iff:
  assumes "distinct (map fst (entries m))"
  shows "lookup m k = Some v \<longleftrightarrow>
    (\<exists>p < length (m_buckets m). b_value (m_buckets m ! p) = Some (k, v))"
  using assms by (simp add: lookup_def in_entries_iff [symmetric])

lemma lookup_None_iff:
  "lookup m k = None \<longleftrightarrow>
    (\<forall>p < length (m_buckets m). \<forall>v. b_value (m_buckets m ! p) \<noteq> Some (k, v))"
proof -
  have "lookup m k = None \<longleftrightarrow> k \<notin> fst ` set (entries m)"
    by (simp add: lookup_def map_of_eq_None_iff)
  also have "\<dots> \<longleftrightarrow> (\<forall>v. (k, v) \<notin> set (entries m))" by force
  finally show ?thesis by (auto simp: in_entries_iff)
qed

subsection \<open>Geometry\<close>

lemma vector_max_size_lt: "vector_max_size < 2 ^ 59"
  by (simp add: vector_max_size_def)

lemma geometry_le_63: "geometry m k \<Longrightarrow> k \<le> 63"
proof (rule ccontr)
  assume g: "geometry m k" and "\<not> k \<le> 63"
  then have "(2::nat) ^ 59 \<le> 2 ^ k" by (intro power_increasing) simp_all
  with g vector_max_size_lt show False by (simp add: geometry_def)
qed

lemma geometry_cap:
  assumes "geometry m k"
  shows "m_capacity m = 2 ^ k" "length (m_buckets m) = m_capacity m" "2 \<le> m_capacity m"
    "m_capacity m \<le> 2 ^ 63" "m_capacity m < UNOCCUPIED" "m_mask m = m_capacity m - 1"
proof -
  from assms show c: "m_capacity m = 2 ^ k" and "length (m_buckets m) = m_capacity m"
    and "m_mask m = m_capacity m - 1"
    by (simp_all add: geometry_def)
  from assms have "1 \<le> k" by (simp add: geometry_def)
  then have "(2::nat) ^ 1 \<le> 2 ^ k" by (intro power_increasing) simp_all
  with c show "2 \<le> m_capacity m" by simp
  from pow2_le_63 [OF geometry_le_63 [OF assms]] c show le: "m_capacity m \<le> 2 ^ 63" by simp
  then show "m_capacity m < UNOCCUPIED" by (simp add: UNOCCUPIED_def)
qed

lemma geometry_next:
  "geometry m k \<Longrightarrow> p < m_capacity m \<Longrightarrow> next_bucket m p = (p + 1) mod m_capacity m"
  using next_bucket_pow2 [of k m p] geometry_le_63 [of m k] by (simp add: geometry_def)

lemma geometry_ideal: "geometry m k \<Longrightarrow> get_ideal m h = h mod m_capacity m"
  using get_ideal_pow2 [of m k h] by (simp add: geometry_def)

lemma geometry_distance:
  "geometry m k \<Longrightarrow> i < m_capacity m \<Longrightarrow> p < m_capacity m \<Longrightarrow>
   get_distance m i p = (p + m_capacity m - i) mod m_capacity m"
  using get_distance_pow2 [of k m i p] geometry_le_63 [of m k] by (simp add: geometry_def)

subsection \<open>Circular positions\<close>

lemma circ_pred_succ: "0 < c \<Longrightarrow> ((x + c - 1) mod c + 1) mod c = x mod (c::nat)"
proof -
  assume c: "0 < c"
  have "((x + c - 1) mod c + 1) mod c = ((x + c - 1) + 1) mod c" by (rule mod_add_left_eq)
  also from c have "(x + c - 1) + 1 = x + c" by simp
  finally show ?thesis by simp
qed

lemma circ_back_step:
  assumes "j < (c::nat)"
  shows "((p + c - j) mod c + c - 1) mod c = (p + c - Suc j) mod c"
proof -
  from assms have c: "0 < c" by simp
  then have "((p + c - j) mod c + c - 1) = (p + c - j) mod c + (c - 1)" by simp
  then have "((p + c - j) mod c + c - 1) mod c = ((p + c - j) + (c - 1)) mod c"
    by (simp only: mod_add_left_eq)
  also from assms have "(p + c - j) + (c - 1) = (p + c - Suc j) + c" by simp
  finally show ?thesis by simp
qed

lemma circ_back_succ:
  assumes "j < (c::nat)"
  shows "((p + c - Suc j) mod c + 1) mod c = (p + c - j) mod c"
proof -
  have "((p + c - Suc j) mod c + 1) mod c = ((p + c - Suc j) + 1) mod c" by (rule mod_add_left_eq)
  also from assms have "(p + c - Suc j) + 1 = p + c - j" by simp
  finally show ?thesis .
qed

lemma circ_dist_pos:
  assumes "p < (c::nat)" "i < c"
  shows "(i + (p + c - i) mod c) mod c = p"
proof -
  have "(i + (p + c - i) mod c) mod c = (i + (p + c - i)) mod c" by (rule mod_add_right_eq)
  also from assms have "i + (p + c - i) = p + c" by simp
  finally show ?thesis using assms by simp
qed

lemma circ_back_to:
  assumes "t \<le> d" "d < (c::nat)"
  shows "((i + d) mod c + c - (d - t)) mod c = (i + t) mod c"
proof -
  from assms have "(i + d) mod c + c - (d - t) = (i + d) mod c + (c - (d - t))" by simp
  then have "((i + d) mod c + c - (d - t)) mod c = ((i + d) + (c - (d - t))) mod c"
    by (simp only: mod_add_left_eq)
  also from assms have "(i + d) + (c - (d - t)) = (i + t) + c" by simp
  finally show ?thesis by simp
qed

lemma circ_dist_succ:
  assumes "p < (c::nat)" "i < c" "(p + c - i) mod c + 1 < c"
  shows "((p + 1) mod c + c - i) mod c = (p + c - i) mod c + 1"
proof -
  have "((p + 1) mod c + c - i) mod c = ((p + 1) mod c + (c - i)) mod c"
    using assms by simp
  also have "\<dots> = ((p + 1) + (c - i)) mod c" by (rule mod_add_left_eq)
  also from assms have "(p + 1) + (c - i) = (p + c - i) + 1" by simp
  also have "((p + c - i) + 1) mod c = ((p + c - i) mod c + 1) mod c"
    by (rule mod_add_left_eq [symmetric])
  also from assms have "\<dots> = (p + c - i) mod c + 1" by simp
  finally show ?thesis .
qed

lemma circ_dist_pred:
  assumes "p < (c::nat)" "i < c" "0 < ((p + 1) mod c + c - i) mod c"
  shows "(p + c - i) mod c = ((p + 1) mod c + c - i) mod c - 1"
proof -
  from assms have c: "0 < c" by simp
  have e: "((p + 1) mod c + c - i) mod c = ((p + c - i) mod c + 1) mod c"
  proof -
    have "((p + 1) mod c + c - i) mod c = ((p + 1) mod c + (c - i)) mod c"
      using assms by simp
    also have "\<dots> = ((p + 1) + (c - i)) mod c" by (rule mod_add_left_eq)
    also from assms have "(p + 1) + (c - i) = (p + c - i) + 1" by simp
    also have "((p + c - i) + 1) mod c = ((p + c - i) mod c + 1) mod c"
      by (rule mod_add_left_eq [symmetric])
    finally show ?thesis .
  qed
  have lt: "(p + c - i) mod c < c" using c by simp
  show ?thesis
  proof (cases "(p + c - i) mod c + 1 < c")
    case True
    then have "((p + c - i) mod c + 1) mod c = (p + c - i) mod c + 1" by simp
    with e show ?thesis by simp
  next
    case False
    with lt have "(p + c - i) mod c + 1 = c" by simp
    then have "((p + c - i) mod c + 1) mod c = 0" by simp
    with e assms(3) show ?thesis by simp
  qed
qed

subsection \<open>Facts of a well-formed table\<close>

lemma slot_okD_None:
  "slot_ok m p \<Longrightarrow> b_value (m_buckets m ! p) = None \<Longrightarrow> b_distance (m_buckets m ! p) = UNOCCUPIED"
  by (simp add: slot_ok_def)

lemma slot_okD_Some:
  assumes "slot_ok m p" "b_value (m_buckets m ! p) = Some kv"
  shows "b_hash (m_buckets m ! p) = unat (m_hasher m (fst kv))"
    and "b_distance (m_buckets m ! p) =
      (p + m_capacity m - unat (m_hasher m (fst kv)) mod m_capacity m) mod m_capacity m"
  using assms by (simp_all add: slot_ok_def)

lemma table_ok_slot: "table_ok m \<Longrightarrow> p < m_capacity m \<Longrightarrow> slot_ok m p"
  by (simp add: table_ok_def)

lemma table_ok_rh: "table_ok m \<Longrightarrow> p < m_capacity m \<Longrightarrow> rh_ok m p"
  by (simp add: table_ok_def)

lemma table_ok_geometry: "table_ok m \<Longrightarrow> \<exists>k. geometry m k"
  by (simp add: table_ok_def)

lemma table_ok_dist_lt:
  assumes "table_ok m" "p < m_capacity m" "b_value (m_buckets m ! p) = Some kv"
  shows "b_distance (m_buckets m ! p) < m_capacity m"
proof -
  from assms have "0 < m_capacity m" by simp
  then show ?thesis
    using slot_okD_Some(2) [OF table_ok_slot [OF assms(1,2)] assms(3)] by simp
qed

lemma table_ok_empty_iff:
  assumes "table_ok m" "p < m_capacity m"
  shows "HashBucket_empty (m_buckets m ! p) \<longleftrightarrow> b_value (m_buckets m ! p) = None"
proof (cases "b_value (m_buckets m ! p)")
  case None
  with slot_okD_None [OF table_ok_slot [OF assms]] show ?thesis
    by (simp add: HashBucket_empty_def)
next
  case (Some kv)
  from table_ok_geometry [OF assms(1)] obtain k where "geometry m k" ..
  from geometry_cap(5) [OF this] table_ok_dist_lt [OF assms Some] Some show ?thesis
    by (simp add: HashBucket_empty_def)
qed

lemma table_ok_bucket_at:
  assumes "table_ok m" "p < m_capacity m"
  shows "bucket_at m p = Some (m_buckets m ! p)"
proof -
  from table_ok_geometry [OF assms(1)] obtain k where "geometry m k" ..
  from geometry_cap(2) [OF this] assms(2) show ?thesis by (simp add: bucket_at_def)
qed

text \<open>An occupied bucket at distance \<open>d\<close> ends a run of occupied buckets that begins at its
  ideal bucket, and the distances along the run fall by at most one per step back.\<close>

lemma rh_run:
  assumes ok: "table_ok m" and p: "p < m_capacity m"
    and v: "b_value (m_buckets m ! p) = Some kv"
    and j: "j \<le> b_distance (m_buckets m ! p)"
  shows "\<exists>kv'. b_value (m_buckets m ! ((p + m_capacity m - j) mod m_capacity m)) = Some kv' \<and>
    b_distance (m_buckets m ! p) - j \<le>
      b_distance (m_buckets m ! ((p + m_capacity m - j) mod m_capacity m))"
  using j
proof (induction j)
  case 0
  with p v show ?case by simp
next
  case (Suc j)
  let ?c = "m_capacity m"
  let ?q = "(p + ?c - j) mod ?c"
  let ?r = "(p + ?c - Suc j) mod ?c"
  from p have c: "0 < ?c" by simp
  from Suc.prems have "j \<le> b_distance (m_buckets m ! p)" by simp
  from Suc.IH [OF this] obtain kv' where q: "b_value (m_buckets m ! ?q) = Some kv'"
    and dq: "b_distance (m_buckets m ! p) - j \<le> b_distance (m_buckets m ! ?q)" by blast
  from Suc.prems table_ok_dist_lt [OF ok p v] have jc: "j < ?c" by simp
  from c have rc: "?r < ?c" by simp
  have "(?r + 1) mod ?c = ?q" by (rule circ_back_succ [OF jc])
  with table_ok_rh [OF ok rc] q dq Suc.prems show ?case
    by (auto simp: rh_ok_def)
qed

subsection \<open>Lookup\<close>

lemma find_bucket_loop_correct:
  assumes ok: "table_ok m"
    and d: "distinct (map fst (entries m))"
    and h: "h = unat (m_hasher m key)"
  shows "t \<le> m_capacity m \<Longrightarrow>
     \<forall>j<t. \<forall>v. b_value (m_buckets m ! ((h + j) mod m_capacity m)) \<noteq> Some (key, v) \<Longrightarrow>
     \<exists>q < m_capacity m. find_bucket_loop m key h ((h + t) mod m_capacity m) t = Some q \<and>
       (\<forall>p < m_capacity m. \<forall>v. b_value (m_buckets m ! p) = Some (key, v) \<longrightarrow> p = q)"
proof (induction "m_capacity m - t" arbitrary: t rule: less_induct)
  case less
  let ?c = "m_capacity m"
  let ?pos = "(h + t) mod ?c"
  let ?b = "m_buckets m ! ?pos"
  from table_ok_geometry [OF ok] obtain k where g: "geometry m k" ..
  note cap = geometry_cap [OF g]
  from cap have c: "0 < ?c" by simp
  then have pos: "?pos < ?c" by simp
  have at: "bucket_at m ?pos = Some ?b" by (rule table_ok_bucket_at [OF ok pos])
  show ?case
  proof (cases "\<not> HashBucket_empty ?b \<and> t \<le> b_distance ?b")
    case True
    with table_ok_empty_iff [OF ok pos] obtain kv where kv: "b_value ?b = Some kv" by auto
    note sl = slot_okD_Some [OF table_ok_slot [OF ok pos] kv]
    from table_ok_dist_lt [OF ok pos kv] True have tc: "t < ?c" by simp
    show ?thesis
    proof (cases "b_hash ?b = h \<and> fst kv = key")
      case m: True
      have "find_bucket_loop m key h ?pos t = Some ?pos"
        using at True kv m by (subst find_bucket_loop.simps) simp
      moreover have "\<forall>p < ?c. \<forall>v. b_value (m_buckets m ! p) = Some (key, v) \<longrightarrow> p = ?pos"
      proof (intro allI impI)
        fix p v assume p: "p < ?c" "b_value (m_buckets m ! p) = Some (key, v)"
        from kv m have "b_value ?b = Some (key, snd kv)" by (cases kv) simp
        with entries_distinct_pos [OF d _ p(2) _ this] p(1) pos cap(2) show "p = ?pos" by simp
      qed
      ultimately show ?thesis using pos by blast
    next
      case False
      with sl(1) h have ne: "fst kv \<noteq> key" by auto
      from tc cap have "t < 2 ^ 63" by simp
      then have st: "size_add t 1 = t + 1" by (rule size_add_1_small)
      have nx: "next_bucket m ?pos = (h + (t + 1)) mod ?c"
        using geometry_next [OF g pos] by (simp add: mod_Suc_eq)
      have step: "find_bucket_loop m key h ?pos t =
          find_bucket_loop m key h ((h + (t + 1)) mod ?c) (t + 1)"
        using at True kv False ne st nx by (subst find_bucket_loop.simps) auto
      have "\<forall>j<t + 1. \<forall>v. b_value (m_buckets m ! ((h + j) mod ?c)) \<noteq> Some (key, v)"
      proof (intro allI impI)
        fix j v assume "j < t + 1"
        then consider "j < t" | "j = t" by linarith
        then show "b_value (m_buckets m ! ((h + j) mod ?c)) \<noteq> Some (key, v)"
        proof cases
          case 1
          with less.prems show ?thesis by simp
        next
          case 2
          with kv ne show ?thesis by auto
        qed
      qed
      with less.hyps [of "t + 1"] tc step show ?thesis by simp
    qed
  next
    case False
    have r: "find_bucket_loop m key h ?pos t = Some ?pos"
      using at False by (subst find_bucket_loop.simps) auto
    have "\<forall>p < ?c. \<forall>v. b_value (m_buckets m ! p) \<noteq> Some (key, v)"
    proof (intro allI impI notI)
      fix p v assume p: "p < ?c" "b_value (m_buckets m ! p) = Some (key, v)"
      note sp = slot_okD_Some [OF table_ok_slot [OF ok p(1)] p(2)]
      let ?i = "h mod ?c"
      let ?d = "b_distance (m_buckets m ! p)"
      from c have i: "?i < ?c" by simp
      from sp h have dd: "?d = (p + ?c - ?i) mod ?c" by simp
      from circ_dist_pos [OF p(1) i] dd have pp: "p = (h + ?d) mod ?c"
        by (simp add: mod_add_left_eq)
      from dd c have dc: "?d < ?c" by simp
      show False
      proof (cases "?d < t")
        case True
        with less.prems(2) pp p(2) show False by metis
      next
        case ge: False
        then have "t \<le> ?d" by simp
        then have "?d - t \<le> ?d" by simp
        from rh_run [OF ok p(1) p(2) this] obtain kv' where
          1: "b_value (m_buckets m ! ((p + ?c - (?d - t)) mod ?c)) = Some kv'"
          and 2: "?d - (?d - t) \<le> b_distance (m_buckets m ! ((p + ?c - (?d - t)) mod ?c))"
          by blast
        have "(p + ?c - (?d - t)) mod ?c = ?pos"
          using circ_back_to [OF \<open>t \<le> ?d\<close> dc, of h] pp by simp
        with 1 2 \<open>t \<le> ?d\<close> have "b_value ?b = Some kv'" "t \<le> b_distance ?b" by simp_all
        with table_ok_empty_iff [OF ok pos] False show False by simp
      qed
    qed
    with r pos show ?thesis by blast
  qed
qed

lemma check_table_ok:
  assumes "table_ok m" "p < m_capacity m" "m_size m \<noteq> 0" "h = unat (m_hasher m key)"
  shows "check m p key h = Some (\<exists>v. b_value (m_buckets m ! p) = Some (key, v))"
proof (cases "b_value (m_buckets m ! p)")
  case None
  with table_ok_empty_iff [OF assms(1,2)] table_ok_bucket_at [OF assms(1,2)] assms(3)
  show ?thesis by (simp add: check_def HashMap_empty_def)
next
  case (Some kv)
  note sl = slot_okD_Some [OF table_ok_slot [OF assms(1,2)] Some]
  from Some table_ok_empty_iff [OF assms(1,2)] have ne: "\<not> HashBucket_empty (m_buckets m ! p)"
    by simp
  obtain k' v' where kv: "kv = (k', v')" by (cases kv)
  from Some kv have "(\<exists>v. b_value (m_buckets m ! p) = Some (key, v)) \<longleftrightarrow> k' = key" by auto
  with sl(1) ne table_ok_bucket_at [OF assms(1,2)] assms(3,4) Some kv show ?thesis
    by (auto simp: check_def HashMap_empty_def)
qed

text \<open>Lookup in a state that satisfies the invariant: \<^verbatim>\<open>find_bucket\<close> returns a position, and
  \<^verbatim>\<open>check\<close> at that position tells whether the key is stored.\<close>

lemma find_bucket_check:
  assumes inv: "HashMap_inv m" and h: "h = unat (m_hasher m key)"
  shows "\<exists>q. find_bucket m key h = Some q \<and> check m q key h = Some (lookup m key \<noteq> None) \<and>
    (\<forall>v. lookup m key = Some v \<longrightarrow>
       q < length (m_buckets m) \<and> b_value (m_buckets m ! q) = Some (key, v))"
proof (cases "m_size m = 0")
  case True
  with inv have "entries m = []" by (simp add: HashMap_inv_def)
  then have "lookup m key = None" by (simp add: lookup_def)
  with True show ?thesis by (simp add: find_bucket_def check_def HashMap_empty_def)
next
  case False
  from inv have d: "distinct (map fst (entries m))" by (simp add: HashMap_inv_def)
  have ok: "table_ok m"
  proof (rule ccontr)
    assume "\<not> table_ok m"
    with inv have "m_buckets m = []" by (auto simp: HashMap_inv_def split: if_splits)
    then have "entries m = []" by (simp add: entries_def List.map_filter_simps)
    with inv False show False by (simp add: HashMap_inv_def)
  qed
  from table_ok_geometry [OF ok] obtain k where g: "geometry m k" ..
  note cap = geometry_cap [OF g]
  from find_bucket_loop_correct [OF ok d h, of 0]
  obtain q where q: "q < m_capacity m" "find_bucket_loop m key h (h mod m_capacity m) 0 = Some q"
    "\<forall>p < m_capacity m. \<forall>v. b_value (m_buckets m ! p) = Some (key, v) \<longrightarrow> p = q"
    by auto
  have f: "find_bucket m key h = Some q"
    using False q(2) geometry_ideal [OF g] by (simp add: find_bucket_def HashMap_empty_def)
  have l: "lookup m key \<noteq> None \<longleftrightarrow> (\<exists>v. b_value (m_buckets m ! q) = Some (key, v))"
  proof
    assume "lookup m key \<noteq> None"
    then obtain v where "lookup m key = Some v" by auto
    with lookup_iff [OF d] obtain p where "p < length (m_buckets m)"
      "b_value (m_buckets m ! p) = Some (key, v)" by blast
    with q(3) cap(2) show "\<exists>v. b_value (m_buckets m ! q) = Some (key, v)" by auto
  next
    assume "\<exists>v. b_value (m_buckets m ! q) = Some (key, v)"
    then obtain v where "b_value (m_buckets m ! q) = Some (key, v)" ..
    with q(1) cap(2) lookup_iff [OF d, of key v] show "lookup m key \<noteq> None" by auto
  qed
  have "\<forall>v. lookup m key = Some v \<longrightarrow>
       q < length (m_buckets m) \<and> b_value (m_buckets m ! q) = Some (key, v)"
  proof (intro allI impI)
    fix v assume "lookup m key = Some v"
    with lookup_iff [OF d] obtain p where "p < length (m_buckets m)"
      "b_value (m_buckets m ! p) = Some (key, v)" by blast
    with q(1,3) cap(2) show "q < length (m_buckets m) \<and> b_value (m_buckets m ! q) = Some (key, v)"
      by auto
  qed
  with f check_table_ok [OF ok q(1) False h] l show ?thesis by simp
qed

subsection \<open>Updating one bucket\<close>

lemma circ_succ_pred: "0 < c \<Longrightarrow> ((x + 1) mod c + c - 1) mod c = x mod (c::nat)"
proof -
  assume c: "0 < c"
  then have "(x + 1) mod c + c - 1 = (x + 1) mod c + (c - 1)" by simp
  then have "((x + 1) mod c + c - 1) mod c = ((x + 1) + (c - 1)) mod c"
    by (simp only: mod_add_left_eq)
  also from c have "(x + 1) + (c - 1) = x + c" by simp
  finally show ?thesis by simp
qed

lemma circ_succ_ne: "2 \<le> c \<Longrightarrow> p < c \<Longrightarrow> (p + 1) mod c \<noteq> (p::nat)"
proof
  assume c: "2 \<le> c" "p < c" and e: "(p + 1) mod c = p"
  show False
  proof (cases "p + 1 < c")
    case True
    with e show False by simp
  next
    case False
    with c have "p + 1 = c" by simp
    then have "(p + 1) mod c = 0" by simp
    with e \<open>p + 1 = c\<close> c show False by simp
  qed
qed

lemma circ_pred_ne: "2 \<le> c \<Longrightarrow> p < c \<Longrightarrow> (p + c - 1) mod c \<noteq> (p::nat)"
proof
  assume c: "2 \<le> c" "p < c" and e: "(p + c - 1) mod c = p"
  from c have "((p + c - 1) mod c + 1) mod c = p" using circ_pred_succ [of c p] by simp
  with e have "(p + 1) mod c = p" by simp
  with circ_succ_ne [OF c] show False by simp
qed

lemma circ_add_ne: "0 < j \<Longrightarrow> j < c \<Longrightarrow> p < c \<Longrightarrow> (p + j) mod c \<noteq> (p::nat)"
proof
  assume j: "0 < j" "j < c" "p < c" and e: "(p + j) mod c = p"
  show False
  proof (cases "p + j < c")
    case True
    with e j show False by simp
  next
    case False
    then have "c \<le> p + j" by simp
    then have "(p + j) mod c = (p + j - c) mod c" by (rule le_mod_geq)
    also from j have "p + j - c < c" by simp
    then have "(p + j - c) mod c = p + j - c" by simp
    finally show False using e j False by simp
  qed
qed

lemma circ_succ_eq_pred:
  assumes "p < c" "q < c" "(p + 1) mod c = (q::nat)"
  shows "p = (q + c - 1) mod c"
proof -
  from assms have "0 < c" by simp
  from circ_succ_pred [OF this, of p] assms show ?thesis by simp
qed

lemma geometry_update [simp]:
  "length bs = length (m_buckets m) \<Longrightarrow> geometry (m\<lparr>m_buckets := bs\<rparr>) k = geometry m k"
  by (simp add: geometry_def)

text \<open>Storing a pair at \<open>pos\<close> keeps the table well formed when the new bucket fits with
  the bucket before it and the bucket after it.\<close>

lemma table_ok_update:
  assumes ok: "table_ok m" and pos: "pos < m_capacity m"
    and v: "b_value b = Some v" and h: "b_hash b = unat (m_hasher m (fst v))"
    and d: "b_distance b = (pos + m_capacity m - b_hash b mod m_capacity m) mod m_capacity m"
    and before: "b_distance b = 0 \<or>
      (b_value (m_buckets m ! ((pos + m_capacity m - 1) mod m_capacity m)) \<noteq> None \<and>
       b_distance b \<le> b_distance (m_buckets m ! ((pos + m_capacity m - 1) mod m_capacity m)) + 1)"
    and after: "b_value (m_buckets m ! ((pos + 1) mod m_capacity m)) = None \<or>
       b_distance (m_buckets m ! ((pos + 1) mod m_capacity m)) = 0 \<or>
       b_distance (m_buckets m ! ((pos + 1) mod m_capacity m)) \<le> b_distance b + 1"
  shows "table_ok (m\<lparr>m_buckets := (m_buckets m)[pos := b]\<rparr>)"
proof -
  let ?c = "m_capacity m"
  let ?m' = "m\<lparr>m_buckets := (m_buckets m)[pos := b]\<rparr>"
  from table_ok_geometry [OF ok] obtain k where g: "geometry m k" ..
  note cap = geometry_cap [OF g]
  have g': "geometry ?m' k" using g by simp
  have sl: "slot_ok ?m' p" if p: "p < ?c" for p
  proof (cases "p = pos")
    case True
    with v h d pos cap show ?thesis by (simp add: slot_ok_def)
  next
    case False
    with table_ok_slot [OF ok p] show ?thesis by (simp add: slot_ok_def cong: option.case_cong)
  qed
  have rh: "rh_ok ?m' p" if p: "p < ?c" for p
  proof -
    let ?n = "(p + 1) mod ?c"
    from cap have n: "?n < ?c" by simp
    note old = table_ok_rh [OF ok p]
    show ?thesis
    proof (cases "p = pos")
      case True
      with circ_succ_ne [of ?c pos] cap pos have "?n \<noteq> pos" by simp
      with True after v pos cap show ?thesis by (auto simp: rh_ok_def)
    next
      case np: False
      show ?thesis
      proof (cases "?n = pos")
        case True
        from circ_succ_eq_pred [OF p pos True] have pp: "p = (pos + ?c - 1) mod ?c" .
        with before True np v pos p cap show ?thesis by (auto simp: rh_ok_def)
      next
        case False
        with np old show ?thesis by (simp add: rh_ok_def)
      qed
    qed
  qed
  from g' sl rh show ?thesis unfolding table_ok_def by auto
qed

subsection \<open>The probe loop of insert\<close>

lemma probe_okD:
  assumes "probe_ok m pos v h dist"
  shows "table_ok m" "pos < m_capacity m" "h = unat (m_hasher m (fst v))"
    "dist = (pos + m_capacity m - h mod m_capacity m) mod m_capacity m"
    "dist = 0 \<or>
      (b_value (m_buckets m ! ((pos + m_capacity m - 1) mod m_capacity m)) \<noteq> None \<and>
       dist \<le> b_distance (m_buckets m ! ((pos + m_capacity m - 1) mod m_capacity m)) + 1)"
  using assms unfolding probe_ok_def by blast+

lemma probe_ok_step:
  assumes pr: "probe_ok m pos v h dist"
    and occ: "b_value (m_buckets m ! pos) \<noteq> None"
    and le: "dist \<le> b_distance (m_buckets m ! pos)"
    and lt: "dist + 1 < m_capacity m"
  shows "probe_ok m ((pos + 1) mod m_capacity m) v h (dist + 1)"
proof -
  let ?c = "m_capacity m"
  note p = probe_okD [OF pr]
  from p(2) have c: "0 < ?c" by simp
  then have i: "h mod ?c < ?c" by simp
  have "((pos + 1) mod ?c + ?c - h mod ?c) mod ?c = dist + 1"
    using circ_dist_succ [OF p(2) i] lt p(4) by simp
  moreover have "((pos + 1) mod ?c + ?c - 1) mod ?c = pos"
    using circ_succ_pred [OF c, of pos] p(2) by simp
  ultimately show ?thesis using p c occ le by (simp add: probe_ok_def)
qed

lemma probe_ok_swap:
  assumes pr: "probe_ok m pos v h dist"
    and kv: "b_value (m_buckets m ! pos) = Some kv"
    and lt: "b_distance (m_buckets m ! pos) < dist"
  shows "probe_ok (m\<lparr>m_buckets := (m_buckets m)
            [pos := (m_buckets m ! pos)\<lparr>b_value := Some v, b_hash := h, b_distance := dist\<rparr>]\<rparr>)
          ((pos + 1) mod m_capacity m) kv (b_hash (m_buckets m ! pos))
          (b_distance (m_buckets m ! pos) + 1)"
proof -
  let ?c = "m_capacity m"
  let ?b = "m_buckets m ! pos"
  let ?b' = "?b\<lparr>b_value := Some v, b_hash := h, b_distance := dist\<rparr>"
  let ?m' = "m\<lparr>m_buckets := (m_buckets m)[pos := ?b']\<rparr>"
  note p = probe_okD [OF pr]
  from table_ok_geometry [OF p(1)] obtain k where g: "geometry m k" ..
  note cap = geometry_cap [OF g]
  from p(2) have c: "0 < ?c" by simp
  note sl = slot_okD_Some [OF table_ok_slot [OF p(1,2)] kv]
  have after: "b_value (m_buckets m ! ((pos + 1) mod ?c)) = None \<or>
       b_distance (m_buckets m ! ((pos + 1) mod ?c)) = 0 \<or>
       b_distance (m_buckets m ! ((pos + 1) mod ?c)) \<le> b_distance ?b' + 1"
    using table_ok_rh [OF p(1,2)] lt by (auto simp: rh_ok_def)
  have ok': "table_ok ?m'"
    by (rule table_ok_update [OF p(1,2)]) (use p after in simp_all)
  have dc: "dist < ?c" using p(4) c by simp
  with lt have lt': "b_distance ?b + 1 < ?c" by simp
  from c have i: "b_hash ?b mod ?c < ?c" by simp
  have "((pos + 1) mod ?c + ?c - b_hash ?b mod ?c) mod ?c = b_distance ?b + 1"
    using circ_dist_succ [OF p(2) i] lt' sl by simp
  moreover have "((pos + 1) mod ?c + ?c - 1) mod ?c = pos"
    using circ_succ_pred [OF c, of pos] p(2) by simp
  ultimately show ?thesis
    using ok' c sl lt p(2) cap(2) by (simp add: probe_ok_def)
qed

lemma insert_loop_correct:
  "probe_ok m pos v h dist \<Longrightarrow>
   b_value (m_buckets m ! ((pos + n) mod m_capacity m)) = None \<Longrightarrow>
   (\<forall>j<n. b_value (m_buckets m ! ((pos + j) mod m_capacity m)) \<noteq> None) \<Longrightarrow>
   dist + n < m_capacity m \<Longrightarrow>
   \<exists>bs' pos' v' h' dist' ans'.
     insert_loop m pos v h dist ans = Some (m\<lparr>m_buckets := bs'\<rparr>, pos', v', h', dist', ans') \<and>
     probe_ok (m\<lparr>m_buckets := bs'\<rparr>) pos' v' h' dist' \<and>
     b_value (bs' ! pos') = None \<and>
     mset (entries (m\<lparr>m_buckets := bs'\<rparr>)) + {#v'#} = mset (entries m) + {#v#} \<and>
     (\<forall>q. (\<forall>j\<le>n. q \<noteq> (pos + j) mod m_capacity m) \<longrightarrow> bs' ! q = m_buckets m ! q) \<and>
     (ans \<noteq> UNOCCUPIED \<longrightarrow> ans' = ans) \<and>
     (ans = UNOCCUPIED \<longrightarrow>
        (ans' = UNOCCUPIED \<and> v' = v) \<or> (ans' < m_capacity m \<and> b_value (bs' ! ans') = Some v))"
proof (induction n arbitrary: m pos v h dist ans)
  case 0
  note p = probe_okD [OF "0.prems"(1)]
  from "0.prems"(2) p(2) have e: "b_value (m_buckets m ! pos) = None" by simp
  with table_ok_empty_iff [OF p(1,2)] have "HashBucket_empty (m_buckets m ! pos)" by simp
  with table_ok_bucket_at [OF p(1,2)]
  have "insert_loop m pos v h dist ans = Some (m, pos, v, h, dist, ans)"
    by (subst insert_loop.simps) simp
  then have "insert_loop m pos v h dist ans =
      Some (m\<lparr>m_buckets := m_buckets m\<rparr>, pos, v, h, dist, ans)" by simp
  moreover have "probe_ok (m\<lparr>m_buckets := m_buckets m\<rparr>) pos v h dist"
    using "0.prems"(1) by simp
  ultimately show ?case using e by (intro exI conjI) (assumption, auto)
next
  case (Suc n)
  let ?c = "m_capacity m"
  let ?b = "m_buckets m ! pos"
  let ?nx = "(pos + 1) mod ?c"
  note p = probe_okD [OF Suc.prems(1)]
  from table_ok_geometry [OF p(1)] obtain k where g: "geometry m k" ..
  note cap = geometry_cap [OF g]
  from p(2) have c: "0 < ?c" by simp
  from Suc.prems(3) [rule_format, of 0] p(2) obtain kv where kv: "b_value ?b = Some kv" by auto
  with table_ok_empty_iff [OF p(1,2)] have ne: "\<not> HashBucket_empty ?b" by simp
  note at = table_ok_bucket_at [OF p(1,2)]
  note nb = geometry_next [OF g p(2)]
  have shift: "(?nx + j) mod ?c = (pos + Suc j) mod ?c" for j
    by (simp add: mod_add_left_eq)
  have pos_notin: "pos \<noteq> (?nx + j) mod ?c" if "j \<le> n" for j
  proof -
    from that Suc.prems(4) have "0 < Suc j" "Suc j < ?c" by simp_all
    from circ_add_ne [OF this p(2)] shift show ?thesis by simp
  qed
  show ?case
  proof (cases "b_distance ?b < dist")
    case True
    let ?b' = "?b\<lparr>b_value := Some v, b_hash := h, b_distance := dist\<rparr>"
    let ?m1 = "m\<lparr>m_buckets := (m_buckets m)[pos := ?b']\<rparr>"
    let ?ans1 = "if ans = UNOCCUPIED then pos else ans"
    have pr1: "probe_ok ?m1 ?nx kv (b_hash ?b) (b_distance ?b + 1)"
      by (rule probe_ok_swap [OF Suc.prems(1) kv True])
    from True Suc.prems(4) cap(4) have "b_distance ?b < 2 ^ 63" by simp
    then have sa: "size_add (b_distance ?b) 1 = b_distance ?b + 1" by (rule size_add_1_small)
    have step: "insert_loop m pos v h dist ans =
        insert_loop ?m1 ?nx kv (b_hash ?b) (b_distance ?b + 1) ?ans1"
      using at ne True kv nb sa by (subst insert_loop.simps) (simp add: HashBucket_swap_def)
    have e1: "b_value (m_buckets ?m1 ! ((?nx + n) mod m_capacity ?m1)) = None"
    proof -
      have "m_buckets ?m1 ! ((?nx + n) mod ?c) = m_buckets m ! ((?nx + n) mod ?c)"
        using pos_notin [of n] by simp
      moreover from Suc.prems(2) have "b_value (m_buckets m ! ((?nx + n) mod ?c)) = None"
        unfolding shift .
      ultimately show ?thesis by simp
    qed
    have o1: "\<forall>j<n. b_value (m_buckets ?m1 ! ((?nx + j) mod m_capacity ?m1)) \<noteq> None"
    proof (intro allI impI)
      fix j assume "j < n"
      then have "Suc j < Suc n" by simp
      from Suc.prems(3) [rule_format, OF this]
      have "b_value (m_buckets m ! ((pos + Suc j) mod ?c)) \<noteq> None" .
      then have "b_value (m_buckets m ! ((?nx + j) mod ?c)) \<noteq> None" unfolding shift .
      moreover from \<open>j < n\<close> pos_notin [of j] have "pos \<noteq> (?nx + j) mod ?c" by simp
      ultimately show "b_value (m_buckets ?m1 ! ((?nx + j) mod m_capacity ?m1)) \<noteq> None"
        by simp
    qed
    have d1: "b_distance ?b + 1 + n < m_capacity ?m1" using True Suc.prems(4) by simp
    from Suc.IH [OF pr1 e1 o1 d1, of ?ans1]
    obtain bs' pos' v' h' dist' ans' where
      r: "insert_loop ?m1 ?nx kv (b_hash ?b) (b_distance ?b + 1) ?ans1 =
            Some (?m1\<lparr>m_buckets := bs'\<rparr>, pos', v', h', dist', ans')"
      and pr': "probe_ok (?m1\<lparr>m_buckets := bs'\<rparr>) pos' v' h' dist'"
      and e': "b_value (bs' ! pos') = None"
      and ms: "mset (entries (?m1\<lparr>m_buckets := bs'\<rparr>)) + {#v'#} = mset (entries ?m1) + {#kv#}"
      and fr: "\<forall>q. (\<forall>j\<le>n. q \<noteq> (?nx + j) mod m_capacity ?m1) \<longrightarrow> bs' ! q = m_buckets ?m1 ! q"
      and a1: "?ans1 \<noteq> UNOCCUPIED \<longrightarrow> ans' = ?ans1"
      by blast
    have eq: "?m1\<lparr>m_buckets := bs'\<rparr> = m\<lparr>m_buckets := bs'\<rparr>" by simp
    from p(2) cap(2) have "pos < length (m_buckets m)" by simp
    from entries_update [OF this, of ?b'] kv
    have "mset (entries ?m1) + {#kv#} = mset (entries m) + {#v#}" by simp
    with ms have ms': "mset (entries (m\<lparr>m_buckets := bs'\<rparr>)) + {#v'#} = mset (entries m) + {#v#}"
      by (simp add: eq)
    from p(2) cap(5) have pu: "pos \<noteq> UNOCCUPIED" by simp
    have keep: "bs' ! pos = ?b'"
    proof -
      from pos_notin have "\<forall>j\<le>n. pos \<noteq> (?nx + j) mod m_capacity ?m1" by simp
      with fr have "bs' ! pos = m_buckets ?m1 ! pos" by blast
      with p(2) cap(2) show ?thesis by simp
    qed
    have fr': "\<forall>q. (\<forall>j\<le>Suc n. q \<noteq> (pos + j) mod ?c) \<longrightarrow> bs' ! q = m_buckets m ! q"
    proof (intro allI impI)
      fix q assume q: "\<forall>j\<le>Suc n. q \<noteq> (pos + j) mod ?c"
      have "\<forall>j\<le>n. q \<noteq> (?nx + j) mod m_capacity ?m1"
      proof (intro allI impI)
        fix j assume "j \<le> n"
        then have "Suc j \<le> Suc n" by simp
        from q [rule_format, OF this] have "q \<noteq> (pos + Suc j) mod ?c" .
        then have "q \<noteq> (?nx + j) mod ?c" unfolding shift .
        then show "q \<noteq> (?nx + j) mod m_capacity ?m1" by simp
      qed
      with fr have "bs' ! q = m_buckets ?m1 ! q" by blast
      moreover from q [rule_format, of 0] p(2) have "q \<noteq> pos" by simp
      ultimately show "bs' ! q = m_buckets m ! q" by simp
    qed
    have an: "ans \<noteq> UNOCCUPIED \<longrightarrow> ans' = ans" using a1 by simp
    have an': "ans = UNOCCUPIED \<longrightarrow>
        (ans' = UNOCCUPIED \<and> v' = v) \<or> (ans' < ?c \<and> b_value (bs' ! ans') = Some v)"
      using a1 pu keep p(2) by auto
    from step r have res: "insert_loop m pos v h dist ans =
        Some (m\<lparr>m_buckets := bs'\<rparr>, pos', v', h', dist', ans')" by simp
    from pr' have pr'': "probe_ok (m\<lparr>m_buckets := bs'\<rparr>) pos' v' h' dist'" by simp
    show ?thesis
      by (intro exI conjI) (rule res, rule pr'', rule e', rule ms', rule fr', rule an, rule an')
  next
    case False
    then have le: "dist \<le> b_distance ?b" by simp
    from Suc.prems(4) have lt: "dist + 1 < ?c" by simp
    have pr1: "probe_ok m ?nx v h (dist + 1)"
      using probe_ok_step [OF Suc.prems(1) _ le lt] kv by simp
    from lt cap(4) have "dist < 2 ^ 63" by simp
    then have sa: "size_add dist 1 = dist + 1" by (rule size_add_1_small)
    have step: "insert_loop m pos v h dist ans = insert_loop m ?nx v h (dist + 1) ans"
      using at ne False nb sa by (subst insert_loop.simps) simp
    have e1: "b_value (m_buckets m ! ((?nx + n) mod ?c)) = None"
      using Suc.prems(2) unfolding shift .
    have o1: "\<forall>j<n. b_value (m_buckets m ! ((?nx + j) mod ?c)) \<noteq> None"
    proof (intro allI impI)
      fix j assume "j < n"
      then have "Suc j < Suc n" by simp
      from Suc.prems(3) [rule_format, OF this]
      have "b_value (m_buckets m ! ((pos + Suc j) mod ?c)) \<noteq> None" .
      then show "b_value (m_buckets m ! ((?nx + j) mod ?c)) \<noteq> None" unfolding shift .
    qed
    have d1: "dist + 1 + n < ?c" using Suc.prems(4) by simp
    from Suc.IH [OF pr1 e1 o1 d1, of ans]
    obtain bs' pos' v' h' dist' ans' where
      r: "insert_loop m ?nx v h (dist + 1) ans =
            Some (m\<lparr>m_buckets := bs'\<rparr>, pos', v', h', dist', ans')"
      and pr': "probe_ok (m\<lparr>m_buckets := bs'\<rparr>) pos' v' h' dist'"
      and e': "b_value (bs' ! pos') = None"
      and ms: "mset (entries (m\<lparr>m_buckets := bs'\<rparr>)) + {#v'#} = mset (entries m) + {#v#}"
      and fr: "\<forall>q. (\<forall>j\<le>n. q \<noteq> (?nx + j) mod ?c) \<longrightarrow> bs' ! q = m_buckets m ! q"
      and a1: "ans \<noteq> UNOCCUPIED \<longrightarrow> ans' = ans"
      and a2: "ans = UNOCCUPIED \<longrightarrow>
        (ans' = UNOCCUPIED \<and> v' = v) \<or> (ans' < ?c \<and> b_value (bs' ! ans') = Some v)"
      by blast
    have fr': "\<forall>q. (\<forall>j\<le>Suc n. q \<noteq> (pos + j) mod ?c) \<longrightarrow> bs' ! q = m_buckets m ! q"
    proof (intro allI impI)
      fix q assume q: "\<forall>j\<le>Suc n. q \<noteq> (pos + j) mod ?c"
      have "\<forall>j\<le>n. q \<noteq> (?nx + j) mod ?c"
      proof (intro allI impI)
        fix j assume "j \<le> n"
        then have "Suc j \<le> Suc n" by simp
        from q [rule_format, OF this] have "q \<noteq> (pos + Suc j) mod ?c" .
        then show "q \<noteq> (?nx + j) mod ?c" unfolding shift .
      qed
      with fr show "bs' ! q = m_buckets m ! q" by blast
    qed
    from step r have res: "insert_loop m pos v h dist ans =
        Some (m\<lparr>m_buckets := bs'\<rparr>, pos', v', h', dist', ans')" by simp
    show ?thesis
      by (intro exI conjI) (rule res, rule pr', rule e', rule ms, rule fr', rule a1, rule a2)
  qed
qed

subsection \<open>Insertion without rehash\<close>

lemma map_filter_all_Some_length:
  "(\<forall>p < length bs. f (bs ! p) \<noteq> None) \<Longrightarrow> length (List.map_filter f bs) = length bs"
proof (induction bs)
  case Nil
  then show ?case by (simp add: List.map_filter_simps)
next
  case (Cons a bs)
  from Cons.prems [rule_format, of 0] have a: "f a \<noteq> None" by simp
  have "\<forall>p < length bs. f (bs ! p) \<noteq> None"
  proof (intro allI impI)
    fix p assume "p < length bs"
    then have "Suc p < length (a # bs)" by simp
    from Cons.prems [rule_format, OF this] show "f (bs ! p) \<noteq> None" by simp
  qed
  from Cons.IH [OF this] a show ?case by (auto simp: List.map_filter_simps)
qed

lemma exists_empty_slot:
  assumes "length (entries m) < length (m_buckets m)"
  shows "\<exists>p < length (m_buckets m). b_value (m_buckets m ! p) = None"
proof (rule ccontr)
  assume "\<not> ?thesis"
  then have "\<forall>p < length (m_buckets m). b_value (m_buckets m ! p) \<noteq> None" by simp
  from map_filter_all_Some_length [OF this] assms show False by (simp add: entries_def)
qed

text \<open>From any position a circular scan reaches a bucket with a property that some bucket
  has, in fewer steps than there are buckets.\<close>

lemma first_slot_from:
  assumes e: "e < c" "P (bs ! e)" and pos: "pos < (c::nat)"
  shows "\<exists>n < c. P (bs ! ((pos + n) mod c)) \<and> (\<forall>j<n. \<not> P (bs ! ((pos + j) mod c)))"
proof -
  let ?Q = "\<lambda>n. P (bs ! ((pos + n) mod c))"
  let ?n0 = "(e + c - pos) mod c"
  from circ_dist_pos [OF e(1) pos] e(2) have "?Q ?n0" by simp
  then have l: "?Q (LEAST n. ?Q n)" by (rule LeastI)
  have "(LEAST n. ?Q n) \<le> ?n0" using \<open>?Q ?n0\<close> by (rule Least_le)
  moreover from pos have "?n0 < c" by simp
  ultimately have lt: "(LEAST n. ?Q n) < c" by simp
  have "\<forall>j<(LEAST n. ?Q n). \<not> ?Q j" using not_less_Least by blast
  with l lt show ?thesis by blast
qed

lemma HashBucket_set_empty:
  "b_distance b = UNOCCUPIED \<Longrightarrow>
   HashBucket_set v h d b = Some (b\<lparr>b_value := Some v, b_hash := h, b_distance := d\<rparr>)"
  by (simp add: HashBucket_set_def HashBucket_clear_def HashBucket_empty_def)

lemma probe_ok_place:
  assumes pr: "probe_ok m pos v h dist" and e: "b_value (m_buckets m ! pos) = None"
  shows "table_ok (m\<lparr>m_buckets := (m_buckets m)
            [pos := (m_buckets m ! pos)\<lparr>b_value := Some v, b_hash := h, b_distance := dist\<rparr>]\<rparr>)"
proof -
  note p = probe_okD [OF pr]
  have "b_value (m_buckets m ! ((pos + 1) mod m_capacity m)) = None \<or>
       b_distance (m_buckets m ! ((pos + 1) mod m_capacity m)) = 0"
    using table_ok_rh [OF p(1,2)] e by (auto simp: rh_ok_def)
  then show ?thesis
    by (intro table_ok_update [OF p(1,2)]) (use p in auto)
qed

lemma table_ok_cong:
  "m_buckets m' = m_buckets m \<Longrightarrow> m_capacity m' = m_capacity m \<Longrightarrow> m_mask m' = m_mask m \<Longrightarrow>
   m_hasher m' = m_hasher m \<Longrightarrow> table_ok m' = table_ok m"
  by (simp add: table_ok_def geometry_def slot_ok_def rh_ok_def cong: option.case_cong)

lemma entries_cong: "m_buckets m' = m_buckets m \<Longrightarrow> entries m' = entries m"
  by (simp add: entries_def)

lemma HashMap_invD:
  assumes "HashMap_inv m"
  shows "m_max_size m = min (m_mask m) (ceil_max_load (m_capacity m))"
    and "m_min_size m = floor_min_load (m_capacity m)"
    and "m_size m = length (entries m)"
    and "distinct (map fst (entries m))"
    and "m_size m \<le> m_max_size m"
    and "m_capacity m = 0 \<Longrightarrow> m_mask m = 0"
    and "m_capacity m = 0 \<Longrightarrow> m_buckets m = []"
    and "m_capacity m \<noteq> 0 \<Longrightarrow> table_ok m"
  using assms unfolding HashMap_inv_def by auto

lemma HashMap_inv_table_ok: "HashMap_inv m \<Longrightarrow> m_capacity m \<noteq> 0 \<Longrightarrow> table_ok m"
  by (simp add: HashMap_inv_def)

lemma mset_entries_add_distinct:
  assumes "mset xs' = mset xs + {#v#}" "distinct (map fst xs)" "fst v \<notin> fst ` set xs"
  shows "distinct (map fst xs')"
proof -
  from assms(1) have "mset (map fst xs') = mset (map fst (v # xs))"
    by (metis add_mset_add_single mset.simps(2) mset_map)
  then have "distinct (map fst xs') \<longleftrightarrow> distinct (map fst (v # xs))"
    by (rule mset_eq_imp_distinct_iff)
  with assms(2,3) show ?thesis by simp
qed

lemma insert_hash_absent:
  assumes inv: "HashMap_inv m" and c0: "m_capacity m \<noteq> 0"
    and ab: "lookup m (fst v) = None" and h: "h = unat (m_hasher m (fst v))"
    and sz: "m_size m < m_max_size m"
  shows "\<exists>bs' pos.
    (\<forall>d. insert_hash (Suc d) m v h = Some (m\<lparr>m_buckets := bs', m_size := m_size m + 1\<rparr>, pos)) \<and>
    HashMap_inv (m\<lparr>m_buckets := bs', m_size := m_size m + 1\<rparr>) \<and>
    mset (entries (m\<lparr>m_buckets := bs'\<rparr>)) = mset (entries m) + {#v#} \<and>
    pos < length bs' \<and> b_value (bs' ! pos) = Some v"
proof -
  let ?c = "m_capacity m"
  let ?i = "h mod ?c"
  have ok: "table_ok m" by (rule HashMap_inv_table_ok [OF inv c0])
  from table_ok_geometry [OF ok] obtain k where g: "geometry m k" ..
  note cap = geometry_cap [OF g]
  from inv have sz_eq: "m_size m = length (entries m)"
    and dis: "distinct (map fst (entries m))"
    and mx: "m_max_size m \<le> m_mask m"
    by (simp_all add: HashMap_inv_def)
  from sz mx cap have szc: "m_size m + 1 < ?c" by simp
  from find_bucket_check [OF inv h] ab obtain q where
    q: "find_bucket m (fst v) h = Some q" "check m q (fst v) h = Some False" by auto
  from sz have nr: "m_size m \<noteq> m_max_size m" by simp
  from cap have i: "?i < ?c" by simp
  have pr0: "probe_ok m ?i v h 0"
    using ok i h cap by (simp add: probe_ok_def)
  from szc sz_eq cap have "length (entries m) < length (m_buckets m)" by simp
  from exists_empty_slot [OF this] cap obtain e where
    e: "e < ?c" "b_value (m_buckets m ! e) = None" by auto
  from first_slot_from [of e ?c "\<lambda>b. b_value b = None", OF e i] obtain n where n: "n < ?c"
    "b_value (m_buckets m ! ((?i + n) mod ?c)) = None"
    "\<forall>j<n. b_value (m_buckets m ! ((?i + j) mod ?c)) \<noteq> None" by blast
  from n(1) have "0 + n < ?c" by simp
  from insert_loop_correct [OF pr0 n(2,3) this, of UNOCCUPIED]
  obtain bs1 pos1 v1 h1 dist1 ans1 where
    r: "insert_loop m ?i v h 0 UNOCCUPIED = Some (m\<lparr>m_buckets := bs1\<rparr>, pos1, v1, h1, dist1, ans1)"
    and pr1: "probe_ok (m\<lparr>m_buckets := bs1\<rparr>) pos1 v1 h1 dist1"
    and e1: "b_value (bs1 ! pos1) = None"
    and ms: "mset (entries (m\<lparr>m_buckets := bs1\<rparr>)) + {#v1#} = mset (entries m) + {#v#}"
    and an: "(ans1 = UNOCCUPIED \<and> v1 = v) \<or> (ans1 < ?c \<and> b_value (bs1 ! ans1) = Some v)"
    by blast
  let ?m1 = "m\<lparr>m_buckets := bs1\<rparr>"
  let ?b = "(bs1 ! pos1)\<lparr>b_value := Some v1, b_hash := h1, b_distance := dist1\<rparr>"
  let ?bs' = "bs1[pos1 := ?b]"
  let ?pos = "if ans1 = UNOCCUPIED then pos1 else ans1"
  note p1 = probe_okD [OF pr1]
  from table_ok_geometry [OF p1(1)] obtain k1 where g1: "geometry ?m1 k1" ..
  note cap1 = geometry_cap [OF g1]
  from p1(2) cap1 have pl: "pos1 < length bs1" by simp
  have at1: "bucket_at ?m1 pos1 = Some (bs1 ! pos1)" using pl by (simp add: bucket_at_def)
  from slot_okD_None [OF table_ok_slot [OF p1(1,2)]] e1
  have "b_distance (bs1 ! pos1) = UNOCCUPIED" by simp
  then have st: "HashBucket_set v1 h1 dist1 (bs1 ! pos1) = Some ?b" by (rule HashBucket_set_empty)
  from szc cap have "m_size m < 2 ^ 63" by simp
  then have sa: "size_add (m_size m) 1 = m_size m + 1" by (rule size_add_1_small)
  have res: "\<forall>d. insert_hash (Suc d) m v h =
      Some (m\<lparr>m_buckets := ?bs', m_size := m_size m + 1\<rparr>, ?pos)"
    using q nr r at1 st sa geometry_ideal [OF g] by simp
  have ok': "table_ok (m\<lparr>m_buckets := ?bs'\<rparr>)"
    using probe_ok_place [OF pr1] e1 by simp
  have "pos1 < length (m_buckets ?m1)" using pl by simp
  from entries_update [OF this, of ?b] e1
  have "mset (entries (m\<lparr>m_buckets := ?bs'\<rparr>)) = mset (entries ?m1) + {#v1#}" by simp
  with ms have ms': "mset (entries (m\<lparr>m_buckets := ?bs'\<rparr>)) = mset (entries m) + {#v#}" by simp
  have en: "entries (m\<lparr>m_buckets := ?bs', m_size := m_size m + 1\<rparr>) = entries (m\<lparr>m_buckets := ?bs'\<rparr>)"
    by (rule entries_cong) simp
  from ms' have "size (mset (entries (m\<lparr>m_buckets := ?bs'\<rparr>))) = size (mset (entries m) + {#v#})"
    by simp
  then have len: "length (entries (m\<lparr>m_buckets := ?bs'\<rparr>)) = length (entries m) + 1" by simp
  from ab have "fst v \<notin> fst ` set (entries m)" by (simp add: lookup_def map_of_eq_None_iff)
  from mset_entries_add_distinct [OF ms' dis this]
  have dis': "distinct (map fst (entries (m\<lparr>m_buckets := ?bs'\<rparr>)))" .
  have ok'': "table_ok (m\<lparr>m_buckets := ?bs', m_size := m_size m + 1\<rparr>)"
  proof -
    have "table_ok (m\<lparr>m_buckets := ?bs', m_size := m_size m + 1\<rparr>) = table_ok (m\<lparr>m_buckets := ?bs'\<rparr>)"
      by (rule table_ok_cong) simp_all
    with ok' show ?thesis by simp
  qed
  have inv': "HashMap_inv (m\<lparr>m_buckets := ?bs', m_size := m_size m + 1\<rparr>)"
    using inv c0 sz len sz_eq dis' ok'' unfolding HashMap_inv_def en by simp
  have pv: "?pos < length ?bs' \<and> b_value (?bs' ! ?pos) = Some v"
  proof (cases "ans1 = UNOCCUPIED")
    case True
    with an cap(5) have "v1 = v" by auto
    with True pl show ?thesis by simp
  next
    case False
    with an have a: "ans1 < ?c" "b_value (bs1 ! ans1) = Some v" by auto
    with e1 have "ans1 \<noteq> pos1" by auto
    with a False cap1 show ?thesis by simp
  qed
  show ?thesis
    by (intro exI conjI) (rule res, rule inv', rule ms', rule pv [THEN conjunct1], rule pv [THEN conjunct2])
qed

lemma insert_hash_present:
  assumes inv: "HashMap_inv m" and pr: "lookup m (fst v) = Some w"
    and h: "h = unat (m_hasher m (fst v))"
  shows "\<exists>pos. insert_hash (Suc d) m v h = Some (m, pos) \<and>
    pos < length (m_buckets m) \<and> b_value (m_buckets m ! pos) = Some (fst v, w)"
  using find_bucket_check [OF inv h] pr by auto

subsection \<open>Capacities and thresholds\<close>

lemma size_shl1_pow2: "j \<le> 62 \<Longrightarrow> size_shl1 (2 ^ j) = 2 ^ Suc j"
proof -
  assume "j \<le> 62"
  then have "Suc j \<le> 63" by simp
  from pow2_lt_64 [OF this] show ?thesis by (simp add: size_shl1_def)
qed

lemma get_capacity_loop_pow2:
  assumes cnt: "cnt \<le> 2 ^ 62"
  shows "j \<le> 62 \<Longrightarrow> j = 0 \<or> 2 ^ (j - 1) < cnt \<Longrightarrow>
    \<exists>i. get_capacity_loop (2 ^ j) cnt = Some (2 ^ i) \<and> i \<le> 62 \<and> cnt \<le> 2 ^ i \<and>
      (i = 0 \<or> 2 ^ (i - 1) < cnt)"
proof (induction "62 - j" arbitrary: j)
  case 0
  then have j: "j = 62" by simp
  with cnt have "\<not> (2::nat) ^ j < cnt" by simp
  then have "get_capacity_loop (2 ^ j) cnt = Some (2 ^ j)"
    by (subst get_capacity_loop.simps) simp
  with j cnt "0.prems" show ?case by blast
next
  case (Suc n)
  show ?case
  proof (cases "(2::nat) ^ j < cnt")
    case True
    from Suc.hyps(2) have j: "j \<le> 62" "n = 62 - Suc j" "Suc j \<le> 62" by simp_all
    have "Suc j = 0 \<or> 2 ^ (Suc j - 1) < cnt" using True by simp
    from Suc.hyps(1) [OF j(2) j(3) this] obtain i where
      i: "get_capacity_loop (2 ^ Suc j) cnt = Some (2 ^ i)" "i \<le> 62" "cnt \<le> 2 ^ i"
        "i = 0 \<or> 2 ^ (i - 1) < cnt" by blast
    have "get_capacity_loop (2 ^ j) cnt = get_capacity_loop (2 ^ Suc j) cnt"
      using True size_shl1_pow2 [OF j(1)] by (subst get_capacity_loop.simps) simp
    with i show ?thesis by auto
  next
    case False
    then have "get_capacity_loop (2 ^ j) cnt = Some (2 ^ j)"
      by (subst get_capacity_loop.simps) simp
    with False Suc.prems show ?thesis by (intro exI [of _ j]) auto
  qed
qed

text \<open>For a count between 1 and \<open>2 ^ 62\<close>, \<^verbatim>\<open>get_capacity\<close> returns a power of two that is at
  least twice and less than four times the count.\<close>

lemma get_capacity_pow2:
  assumes "1 \<le> cnt" "cnt \<le> 2 ^ 62"
  shows "\<exists>k. get_capacity cnt = Some (2 ^ k) \<and> 1 \<le> k \<and> 2 * cnt \<le> 2 ^ k \<and> 2 ^ k < 4 * cnt"
proof -
  from get_capacity_loop_pow2 [OF assms(2), of 0] obtain i where
    i: "get_capacity_loop 1 cnt = Some (2 ^ i)" "i \<le> 62" "cnt \<le> 2 ^ i"
      "i = 0 \<or> 2 ^ (i - 1) < cnt" by auto
  from i(1) assms(1) size_shl1_pow2 [OF i(2)]
  have "get_capacity cnt = Some (2 ^ Suc i)" by (simp add: get_capacity_def)
  moreover from i(3) have "2 * cnt \<le> 2 ^ Suc i" by simp
  moreover have "(2::nat) ^ Suc i < 4 * cnt"
  proof (cases i)
    case 0
    with assms(1) show ?thesis by simp
  next
    case (Suc i')
    with i(4) have "2 ^ i' < cnt" by simp
    then have "4 * 2 ^ i' < 4 * cnt" by simp
    with Suc show ?thesis by simp
  qed
  ultimately show ?thesis by (intro exI [of _ "Suc i"]) simp
qed

lemma ceil_max_load_ge_half: "cap div 2 \<le> ceil_max_load cap"
proof -
  have "cap div 2 = (8388608 * cap) div 16777216" by simp
  also have "\<dots> \<le> (13421773 * cap + 16777215) div 16777216"
    by (rule div_le_mono) simp
  finally show ?thesis by (simp add: ceil_max_load_def)
qed

lemma max_size_bound:
  assumes "2 * n \<le> cap" "1 \<le> n"
  shows "n \<le> min (cap - 1) (ceil_max_load cap)"
proof -
  from assms have "n \<le> cap div 2" by simp
  with ceil_max_load_ge_half [of cap] have "n \<le> ceil_max_load cap" by simp
  moreover from assms have "n \<le> cap - 1" by simp
  ultimately show ?thesis by simp
qed

subsection \<open>Rehash\<close>

lemma map_filter_replicate_new:
  "List.map_filter b_value (replicate n (HashBucket_new :: ('k, 'v) HashBucket)) = []"
  by (induction n) (simp_all add: List.map_filter_simps HashBucket_new_def)

lemma lookup_None_mset:
  "lookup m k = None \<longleftrightarrow> k \<notin> fst ` set_mset (mset (entries m))"
  by (simp add: lookup_def map_of_eq_None_iff)

lemma rehash_loop_correct:
  "HashMap_inv m \<Longrightarrow> m_capacity m \<noteq> 0 \<Longrightarrow>
   (\<forall>b \<in> set olds. HashBucket_empty b \<longleftrightarrow> b_value b = None) \<Longrightarrow>
   distinct (map fst (List.map_filter b_value olds)) \<Longrightarrow>
   (\<forall>kv \<in> set (List.map_filter b_value olds). lookup m (fst kv) = None) \<Longrightarrow>
   m_size m + length (List.map_filter b_value olds) \<le> m_max_size m \<Longrightarrow>
   \<exists>m'. (\<forall>d. rehash_loop (Suc d) m olds = Some m') \<and>
        (\<forall>d. rehash_loop d m olds = None \<or> rehash_loop d m olds = Some m') \<and>
        HashMap_inv m' \<and>
        mset (entries m') = mset (entries m) + mset (List.map_filter b_value olds) \<and>
        m_capacity m' = m_capacity m \<and> m_hasher m' = m_hasher m \<and>
        m_size m' = m_size m + length (List.map_filter b_value olds)"
proof (induction olds arbitrary: m)
  case Nil
  then show ?case by (intro exI [of _ m]) (simp add: List.map_filter_simps)
next
  case (Cons cur rest)
  show ?case
  proof (cases "b_value cur")
    case None
    with Cons.prems(3) have e: "HashBucket_empty cur" by simp
    from None have mf: "List.map_filter b_value (cur # rest) = List.map_filter b_value rest"
      by (simp add: List.map_filter_simps)
    from Cons.prems(3) have "\<forall>b \<in> set rest. HashBucket_empty b \<longleftrightarrow> b_value b = None" by simp
    from Cons.IH [OF Cons.prems(1,2) this] Cons.prems(4,5,6) mf
    obtain m' where m': "\<forall>d. rehash_loop (Suc d) m rest = Some m'"
      "\<forall>d. rehash_loop d m rest = None \<or> rehash_loop d m rest = Some m'"
      "HashMap_inv m'"
      "mset (entries m') = mset (entries m) + mset (List.map_filter b_value rest)"
      "m_capacity m' = m_capacity m" "m_hasher m' = m_hasher m"
      "m_size m' = m_size m + length (List.map_filter b_value rest)"
      by auto
    have "rehash_loop d m (cur # rest) = rehash_loop d m rest" for d using e by simp
    with m' mf show ?thesis by (intro exI [of _ m']) simp
  next
    case (Some v)
    with Cons.prems(3) have ne: "\<not> HashBucket_empty cur" by simp
    from Some have mf: "List.map_filter b_value (cur # rest) = v # List.map_filter b_value rest"
      by (simp add: List.map_filter_simps)
    let ?h = "unat (m_hasher m (fst v))"
    from Cons.prems(5) mf have ab: "lookup m (fst v) = None" by simp
    from Cons.prems(6) mf have sz: "m_size m < m_max_size m" by simp
    from insert_hash_absent [OF Cons.prems(1,2) ab refl sz]
    obtain bs' pos where
      ins: "\<forall>d. insert_hash (Suc d) m v ?h =
          Some (m\<lparr>m_buckets := bs', m_size := m_size m + 1\<rparr>, pos)"
      and inv1: "HashMap_inv (m\<lparr>m_buckets := bs', m_size := m_size m + 1\<rparr>)"
      and ms1: "mset (entries (m\<lparr>m_buckets := bs'\<rparr>)) = mset (entries m) + {#v#}"
      by blast
    let ?m1 = "m\<lparr>m_buckets := bs', m_size := m_size m + 1\<rparr>"
    have "entries ?m1 = entries (m\<lparr>m_buckets := bs'\<rparr>)" by (rule entries_cong) simp
    with ms1 have ms1': "mset (entries ?m1) = mset (entries m) + {#v#}" by simp
    have c1: "m_capacity ?m1 \<noteq> 0" using Cons.prems(2) by simp
    from Cons.prems(3) have con: "\<forall>b \<in> set rest. HashBucket_empty b \<longleftrightarrow> b_value b = None" by simp
    from Cons.prems(4) mf have dis: "distinct (map fst (List.map_filter b_value rest))"
      and nv: "fst v \<notin> fst ` set (List.map_filter b_value rest)" by simp_all
    have ab1: "\<forall>kv \<in> set (List.map_filter b_value rest). lookup ?m1 (fst kv) = None"
    proof
      fix kv assume kv: "kv \<in> set (List.map_filter b_value rest)"
      with Cons.prems(5) mf have "lookup m (fst kv) = None" by simp
      then have "fst kv \<notin> fst ` set_mset (mset (entries m))" unfolding lookup_None_mset .
      moreover from kv have "fst kv \<in> fst ` set (List.map_filter b_value rest)" by (rule imageI)
      with nv have "fst kv \<noteq> fst v" by metis
      ultimately show "lookup ?m1 (fst kv) = None"
        unfolding lookup_None_mset ms1' by simp
    qed
    from Cons.prems(6) mf
    have sz1: "m_size ?m1 + length (List.map_filter b_value rest) \<le> m_max_size ?m1" by simp
    from Cons.IH [OF inv1 c1 con dis ab1 sz1]
    obtain m' where m': "\<forall>d. rehash_loop (Suc d) ?m1 rest = Some m'"
      "\<forall>d. rehash_loop d ?m1 rest = None \<or> rehash_loop d ?m1 rest = Some m'"
      "HashMap_inv m'"
      "mset (entries m') = mset (entries ?m1) + mset (List.map_filter b_value rest)"
      "m_capacity m' = m_capacity ?m1" "m_hasher m' = m_hasher ?m1"
      "m_size m' = m_size ?m1 + length (List.map_filter b_value rest)"
      by blast
    from ins have hi: "HashMap_insert (Suc d) m v = Some ?m1" for d
      by (simp del: insert_hash.simps)
    have r1: "\<forall>d. rehash_loop (Suc d) m (cur # rest) = Some m'"
      using ne Some hi m'(1) by (simp del: insert_hash.simps HashMap_insert.simps)
    have r2: "\<forall>d. rehash_loop d m (cur # rest) = None \<or> rehash_loop d m (cur # rest) = Some m'"
    proof
      fix d
      show "rehash_loop d m (cur # rest) = None \<or> rehash_loop d m (cur # rest) = Some m'"
      proof (cases d)
        case 0
        with ne Some show ?thesis by simp
      next
        case (Suc d')
        with r1 show ?thesis by simp
      qed
    qed
    from m'(4) ms1' mf
    have ms: "mset (entries m') = mset (entries m) + mset (List.map_filter b_value (cur # rest))"
      by simp
    from r1 r2 m'(3) ms m'(5,6,7) mf show ?thesis
      by (intro exI [of _ m']) simp
  qed
qed

lemma HashMap_inv_fresh:
  assumes k: "1 \<le> k" "2 ^ k \<le> vector_max_size"
  shows "HashMap_inv (update_sizes (m\<lparr>m_buckets := replicate (2 ^ k) HashBucket_new,
      m_capacity := 2 ^ k, m_mask := size_sub (2 ^ k) 1, m_size := 0\<rparr>))"
    (is "HashMap_inv ?m0")
proof -
  have k63: "k \<le> 63"
  proof (rule ccontr)
    assume "\<not> k \<le> 63"
    then have "(2::nat) ^ 59 \<le> 2 ^ k" by (intro power_increasing) simp_all
    with k vector_max_size_lt show False by simp
  qed
  have mask: "m_mask ?m0 = 2 ^ k - 1" using size_sub_1_pow2 [OF k63] by (simp add: update_sizes_def)
  have g: "geometry ?m0 k"
    using k mask by (simp add: geometry_def update_sizes_def)
  have en: "entries ?m0 = []"
    by (simp add: entries_def update_sizes_def map_filter_replicate_new)
  have c: "m_capacity ?m0 = 2 ^ k" by (simp add: update_sizes_def)
  have sl: "slot_ok ?m0 p" if "p < 2 ^ k" for p
    using that by (simp add: slot_ok_def update_sizes_def HashBucket_new_def)
  have rh: "rh_ok ?m0 p" if "p < 2 ^ k" for p
  proof -
    have "(p + 1) mod 2 ^ k < (2::nat) ^ k" by simp
    then show ?thesis by (simp add: rh_ok_def update_sizes_def HashBucket_new_def)
  qed
  have ok: "table_ok ?m0" unfolding table_ok_def c using g sl rh by blast
  have th: "m_max_size ?m0 = min (m_mask ?m0) (ceil_max_load (m_capacity ?m0))"
    "m_min_size ?m0 = floor_min_load (m_capacity ?m0)" "m_size ?m0 = 0"
    by (simp_all add: update_sizes_def)
  show ?thesis unfolding HashMap_inv_def en using th ok c by simp
qed

lemma rehash_correct:
  assumes con: "\<forall>b \<in> set (m_buckets m). HashBucket_empty b \<longleftrightarrow> b_value b = None"
    and dis: "distinct (map fst (entries m))"
    and k: "1 \<le> k" "2 ^ k \<le> vector_max_size"
    and n: "length (entries m) \<le> min (2 ^ k - 1) (ceil_max_load (2 ^ k))"
  shows "\<exists>m'. (\<forall>d. rehash (Suc (Suc d)) m (2 ^ k) = Some m') \<and>
     (\<forall>d. rehash d m (2 ^ k) = None \<or> rehash d m (2 ^ k) = Some m') \<and>
     HashMap_inv m' \<and> mset (entries m') = mset (entries m) \<and> m_capacity m' = 2 ^ k \<and>
     m_hasher m' = m_hasher m \<and> m_size m' = length (entries m)"
proof -
  let ?m0 = "update_sizes (m\<lparr>m_buckets := replicate (2 ^ k) HashBucket_new,
      m_capacity := 2 ^ k, m_mask := size_sub (2 ^ k) 1, m_size := 0\<rparr>)"
  have inv0: "HashMap_inv ?m0" by (rule HashMap_inv_fresh [OF k])
  have c0: "m_capacity ?m0 \<noteq> 0" by (simp add: update_sizes_def)
  have en0: "entries ?m0 = []"
    by (simp add: entries_def update_sizes_def map_filter_replicate_new)
  have dis': "distinct (map fst (List.map_filter b_value (m_buckets m)))"
    using dis by (simp add: entries_def)
  have ab: "\<forall>kv \<in> set (List.map_filter b_value (m_buckets m)). lookup ?m0 (fst kv) = None"
    unfolding lookup_def en0 by simp
  have k63: "k \<le> 63"
  proof (rule ccontr)
    assume "\<not> k \<le> 63"
    then have "(2::nat) ^ 59 \<le> 2 ^ k" by (intro power_increasing) simp_all
    with k vector_max_size_lt show False by simp
  qed
  have sz: "m_size ?m0 + length (List.map_filter b_value (m_buckets m)) \<le> m_max_size ?m0"
    using n size_sub_1_pow2 [OF k63] by (simp add: update_sizes_def entries_def)
  from rehash_loop_correct [OF inv0 c0 con dis' ab sz]
  obtain m' where m': "\<forall>d. rehash_loop (Suc d) ?m0 (m_buckets m) = Some m'"
      "\<forall>d. rehash_loop d ?m0 (m_buckets m) = None \<or> rehash_loop d ?m0 (m_buckets m) = Some m'"
      "HashMap_inv m'"
      "mset (entries m') = mset (entries ?m0) + mset (List.map_filter b_value (m_buckets m))"
      "m_capacity m' = m_capacity ?m0" "m_hasher m' = m_hasher ?m0"
      "m_size m' = m_size ?m0 + length (List.map_filter b_value (m_buckets m))"
    by blast
  have nb: "new_buckets (2 ^ k) = Some (replicate (2 ^ k) (HashBucket_new :: ('a, 'b) HashBucket))"
    using k by (simp add: new_buckets_def)
  have r1: "\<forall>d. rehash (Suc (Suc d)) m (2 ^ k) = Some m'"
    using m'(1) nb by (simp del: rehash_loop.simps)
  have r2: "\<forall>d. rehash d m (2 ^ k) = None \<or> rehash d m (2 ^ k) = Some m'"
  proof
    fix d
    show "rehash d m (2 ^ k) = None \<or> rehash d m (2 ^ k) = Some m'"
    proof (cases d)
      case 0
      then show ?thesis by simp
    next
      case (Suc d')
      with m'(2) [rule_format, of d'] nb show ?thesis by (simp del: rehash_loop.simps)
    qed
  qed
  from m'(4) en0 have ms: "mset (entries m') = mset (entries m)" by (simp add: entries_def)
  from m'(5,6,7) have "m_capacity m' = 2 ^ k" "m_hasher m' = m_hasher m"
    "m_size m' = length (entries m)"
    by (simp_all add: update_sizes_def entries_def)
  with r1 r2 m'(3) ms show ?thesis by (intro exI [of _ m']) simp
qed

subsection \<open>Insertion\<close>

lemma HashMap_inv_consistent:
  assumes "HashMap_inv m"
  shows "\<forall>b \<in> set (m_buckets m). HashBucket_empty b \<longleftrightarrow> b_value b = None"
proof (cases "m_capacity m = 0")
  case True
  with HashMap_invD(7) [OF assms] show ?thesis by simp
next
  case False
  with HashMap_invD(8) [OF assms] have ok: "table_ok m" by simp
  from table_ok_geometry [OF ok] obtain k where g: "geometry m k" ..
  note cap = geometry_cap [OF g]
  show ?thesis
  proof
    fix b assume "b \<in> set (m_buckets m)"
    then obtain p where "p < length (m_buckets m)" "b = m_buckets m ! p"
      by (auto simp: in_set_conv_nth)
    with table_ok_empty_iff [OF ok, of p] cap(2)
    show "HashBucket_empty b \<longleftrightarrow> b_value b = None" by simp
  qed
qed

lemma HashMap_inv_size_small:
  assumes "HashMap_inv m"
  shows "m_size m < 2 ^ 59" "m_size m < m_capacity m \<or> (m_size m = 0 \<and> m_capacity m = 0)"
proof -
  have *: "m_size m < 2 ^ 59 \<and> (m_size m < m_capacity m \<or> (m_size m = 0 \<and> m_capacity m = 0))"
  proof (cases "m_capacity m = 0")
    case True
    with HashMap_invD(1,5,6) [OF assms] show ?thesis by simp
  next
    case False
    with HashMap_invD(8) [OF assms] have ok: "table_ok m" by simp
    from table_ok_geometry [OF ok] obtain k where g: "geometry m k" ..
    note cap = geometry_cap [OF g]
    from g have "m_capacity m \<le> vector_max_size" by (simp add: geometry_def)
    with vector_max_size_lt have "m_capacity m < 2 ^ 59" by simp
    moreover from HashMap_invD(1,5) [OF assms] cap(3,6) have "m_size m < m_capacity m" by auto
    ultimately show ?thesis by simp
  qed
  from * show "m_size m < 2 ^ 59" ..
  from * show "m_size m < m_capacity m \<or> (m_size m = 0 \<and> m_capacity m = 0)" ..
qed

text \<open>
  Inserting a pair whose key is not stored.  The call either fails for every depth bound
  (the grown table cannot be allocated), or it returns one and the same result for every
  depth bound that suffices, three nested calls being enough.
\<close>

lemma insert_hash_new_key:
  assumes inv: "HashMap_inv m" and ab: "lookup m (fst v) = None"
    and h: "h = unat (m_hasher m (fst v))"
  shows "\<exists>m' pos.
      (\<forall>d. insert_hash d m v h = None \<or> insert_hash d m v h = Some (m', pos)) \<and>
      (4 * (m_size m + 1) \<le> vector_max_size \<longrightarrow>
         (\<forall>d. insert_hash (Suc (Suc (Suc d))) m v h = Some (m', pos))) \<and>
      ((\<exists>d. insert_hash d m v h \<noteq> None) \<longrightarrow>
         HashMap_inv m' \<and> mset (entries m') = mset (entries m) + {#v#} \<and>
         m_hasher m' = m_hasher m \<and> m_size m' = m_size m + 1 \<and>
         m_capacity m' = (if m_size m = m_max_size m then the (get_capacity (m_size m + 1))
                          else m_capacity m) \<and>
         pos < length (m_buckets m') \<and> b_value (m_buckets m' ! pos) = Some v)"
proof (cases "m_size m = m_max_size m")
  case False
  with HashMap_invD(5) [OF inv] have sz: "m_size m < m_max_size m" by simp
  have c0: "m_capacity m \<noteq> 0"
  proof
    assume "m_capacity m = 0"
    with HashMap_invD(1,6) [OF inv] sz show False by simp
  qed
  from insert_hash_absent [OF inv c0 ab h sz]
  obtain bs' pos where
    ins: "\<forall>d. insert_hash (Suc d) m v h = Some (m\<lparr>m_buckets := bs', m_size := m_size m + 1\<rparr>, pos)"
    and inv1: "HashMap_inv (m\<lparr>m_buckets := bs', m_size := m_size m + 1\<rparr>)"
    and ms1: "mset (entries (m\<lparr>m_buckets := bs'\<rparr>)) = mset (entries m) + {#v#}"
    and pv: "pos < length bs'" "b_value (bs' ! pos) = Some v"
    by blast
  let ?m1 = "m\<lparr>m_buckets := bs', m_size := m_size m + 1\<rparr>"
  have "entries ?m1 = entries (m\<lparr>m_buckets := bs'\<rparr>)" by (rule entries_cong) simp
  with ms1 have ms1': "mset (entries ?m1) = mset (entries m) + {#v#}" by simp
  have a: "\<forall>d. insert_hash d m v h = None \<or> insert_hash d m v h = Some (?m1, pos)"
  proof
    fix d show "insert_hash d m v h = None \<or> insert_hash d m v h = Some (?m1, pos)"
      using ins by (cases d) (simp_all del: insert_hash.simps(2))
  qed
  from ins have b: "\<forall>d. insert_hash (Suc (Suc (Suc d))) m v h = Some (?m1, pos)" by blast
  from a b inv1 ms1' pv False show ?thesis
    by (intro exI [of _ ?m1] exI [of _ pos]) simp
next
  case True
  from HashMap_inv_size_small [OF inv] have small: "m_size m < 2 ^ 59" by blast
  then have "m_size m < 2 ^ 63" by simp
  then have sa: "size_add (m_size m) 1 = m_size m + 1" by (rule size_add_1_small)
  from small have "m_size m + 1 \<le> 2 ^ 62" by simp
  from get_capacity_pow2 [OF _ this] obtain k where
    k: "get_capacity (m_size m + 1) = Some (2 ^ k)" "1 \<le> k" "2 * (m_size m + 1) \<le> 2 ^ k"
      "2 ^ k < 4 * (m_size m + 1)" by auto
  from find_bucket_check [OF inv h] ab obtain q where
    q: "find_bucket m (fst v) h = Some q" "check m q (fst v) h = Some False" by auto
  have unf: "insert_hash (Suc d) m v h =
      (case rehash d m (2 ^ k) of None \<Rightarrow> None | Some m1 \<Rightarrow> insert_hash (Suc 0) m1 v h)"
    if "\<And>m1. rehash d m (2 ^ k) = Some m1 \<Longrightarrow>
      m_size m1 \<noteq> m_max_size m1 \<and>
      (\<exists>q1. find_bucket m1 (fst v) h = Some q1 \<and> check m1 q1 (fst v) h = Some False)" for d
  proof (cases "rehash d m (2 ^ k)")
    case None
    with q True sa k(1) show ?thesis by simp
  next
    case (Some m1)
    from that [OF Some] obtain q1 where "m_size m1 \<noteq> m_max_size m1"
      "find_bucket m1 (fst v) h = Some q1" "check m1 q1 (fst v) h = Some False" by blast
    with Some q True sa k(1) show ?thesis by simp
  qed
  show ?thesis
  proof (cases "2 ^ k \<le> vector_max_size")
    case False
    then have "new_buckets (2 ^ k) = (None :: ('a, 'b) HashBucket list option)"
      by (simp add: new_buckets_def)
    then have "rehash d m (2 ^ k) = None" for d by (cases d) simp_all
    then have "insert_hash (Suc d) m v h = None" for d using unf [of d] by simp
    then have n: "insert_hash d m v h = None" for d by (cases d) simp_all
    from False k(4) have "\<not> 4 * (m_size m + 1) \<le> vector_max_size" by simp
    with n show ?thesis by simp
  next
    case le: True
    note dis = HashMap_invD(4) [OF inv] and sz_eq = HashMap_invD(3) [OF inv]
    from max_size_bound [OF k(3)] have mb: "m_size m + 1 \<le> min (2 ^ k - 1) (ceil_max_load (2 ^ k))"
      by simp
    then have n: "length (entries m) \<le> min (2 ^ k - 1) (ceil_max_load (2 ^ k))"
      using sz_eq by simp
    from rehash_correct [OF HashMap_inv_consistent [OF inv] dis k(2) le n]
    obtain m1 where m1: "\<forall>d. rehash (Suc (Suc d)) m (2 ^ k) = Some m1"
      "\<forall>d. rehash d m (2 ^ k) = None \<or> rehash d m (2 ^ k) = Some m1"
      "HashMap_inv m1" "mset (entries m1) = mset (entries m)" "m_capacity m1 = 2 ^ k"
      "m_hasher m1 = m_hasher m" "m_size m1 = length (entries m)"
      by blast
    have c1: "m_capacity m1 \<noteq> 0" using m1(5) by simp
    have ok1: "table_ok m1" by (rule HashMap_inv_table_ok [OF m1(3) c1])
    from table_ok_geometry [OF ok1] obtain k1 where g1: "geometry m1 k1" ..
    note cap1 = geometry_cap [OF g1]
    from HashMap_invD(1) [OF m1(3)] cap1(6) m1(5) mb m1(7) sz_eq have sz1: "m_size m1 < m_max_size m1" by simp
    have ab1: "lookup m1 (fst v) = None"
      using ab unfolding lookup_None_mset m1(4) .
    have h1: "h = unat (m_hasher m1 (fst v))" using h m1(6) by simp
    from insert_hash_absent [OF m1(3) c1 ab1 h1 sz1]
    obtain bs' pos where
      ins: "\<forall>d. insert_hash (Suc d) m1 v h =
          Some (m1\<lparr>m_buckets := bs', m_size := m_size m1 + 1\<rparr>, pos)"
      and inv2: "HashMap_inv (m1\<lparr>m_buckets := bs', m_size := m_size m1 + 1\<rparr>)"
      and ms2: "mset (entries (m1\<lparr>m_buckets := bs'\<rparr>)) = mset (entries m1) + {#v#}"
      and pv: "pos < length bs'" "b_value (bs' ! pos) = Some v"
      by blast
    let ?m2 = "m1\<lparr>m_buckets := bs', m_size := m_size m1 + 1\<rparr>"
    have "entries ?m2 = entries (m1\<lparr>m_buckets := bs'\<rparr>)" by (rule entries_cong) simp
    with ms2 m1(4) have ms2': "mset (entries ?m2) = mset (entries m) + {#v#}" by simp
    from find_bucket_check [OF m1(3) h1] ab1 obtain q1 where
      q1: "find_bucket m1 (fst v) h = Some q1" "check m1 q1 (fst v) h = Some False" by auto
    have step: "insert_hash (Suc d) m v h =
      (case rehash d m (2 ^ k) of None \<Rightarrow> None | Some m1 \<Rightarrow> insert_hash (Suc 0) m1 v h)" for d
    proof (rule unf)
      fix m1' assume "rehash d m (2 ^ k) = Some m1'"
      with m1(2) [rule_format, of d] have "m1' = m1" by simp
      with sz1 q1 show "m_size m1' \<noteq> m_max_size m1' \<and>
        (\<exists>q1. find_bucket m1' (fst v) h = Some q1 \<and> check m1' q1 (fst v) h = Some False)"
        by simp
    qed
    have a: "\<forall>d. insert_hash d m v h = None \<or> insert_hash d m v h = Some (?m2, pos)"
    proof
      fix d show "insert_hash d m v h = None \<or> insert_hash d m v h = Some (?m2, pos)"
      proof (cases d)
        case 0
        then show ?thesis by simp
      next
        case (Suc d')
        from m1(2) [rule_format, of d'] ins [rule_format, of 0] show ?thesis
          unfolding Suc step by auto
      qed
    qed
    have b: "\<forall>d. insert_hash (Suc (Suc (Suc d))) m v h = Some (?m2, pos)"
      using m1(1) ins [rule_format, of 0] unfolding step by simp
    from a b inv2 ms2' pv m1(5,6,7) sz_eq True k(1) show ?thesis
      by (intro exI [of _ ?m2] exI [of _ pos]) simp
  qed
qed

subsection \<open>The backward-shift loop of erase\<close>

lemma dist_sum_update:
  "p < length bs \<Longrightarrow>
   dist_sum (bs[p := b]) + (if b_value (bs ! p) = None then 0 else b_distance (bs ! p)) =
   dist_sum bs + (if b_value b = None then 0 else b_distance b)"
proof (induction bs arbitrary: p)
  case Nil
  then show ?case by simp
next
  case (Cons a bs)
  show ?case
  proof (cases p)
    case 0
    then show ?thesis by (simp add: dist_sum_def)
  next
    case (Suc q)
    with Cons.prems have "q < length bs" by simp
    note ih = Cons.IH [OF this]
    let ?f = "\<lambda>b :: ('a, 'b) HashBucket. if b_value b = None then 0 else b_distance b"
    have 1: "dist_sum ((a # bs)[p := b]) = ?f a + dist_sum (bs[q := b])"
      using Suc by (simp add: dist_sum_def)
    have 2: "dist_sum (a # bs) = ?f a + dist_sum bs" by (simp add: dist_sum_def)
    have 3: "(a # bs) ! p = bs ! q" using Suc by simp
    show ?thesis unfolding 1 2 3 using ih by (simp only: add.assoc)
  qed
qed

lemma gap_okD:
  assumes "gap_ok m g"
  shows "\<exists>k. geometry m k" "g < m_capacity m" "b_value (m_buckets m ! g) = None"
    "\<And>p. p < m_capacity m \<Longrightarrow> slot_ok m p"
    "\<And>p. p < m_capacity m \<Longrightarrow> p \<noteq> g \<Longrightarrow> rh_ok m p"
    "b_value (m_buckets m ! ((g + 1) mod m_capacity m)) = None \<or>
      b_distance (m_buckets m ! ((g + 1) mod m_capacity m)) \<le> 1 \<or>
      (b_value (m_buckets m ! ((g + m_capacity m - 1) mod m_capacity m)) \<noteq> None \<and>
       b_distance (m_buckets m ! ((g + 1) mod m_capacity m)) \<le>
         b_distance (m_buckets m ! ((g + m_capacity m - 1) mod m_capacity m)) + 2)"
  using assms unfolding gap_ok_def by blast+

text \<open>A gap whose successor is empty or at its ideal bucket is no gap.\<close>

lemma gap_ok_closed:
  assumes gap: "gap_ok m g"
    and st: "b_value (m_buckets m ! ((g + 1) mod m_capacity m)) = None \<or>
      b_distance (m_buckets m ! ((g + 1) mod m_capacity m)) = 0"
  shows "table_ok m"
proof -
  note G = gap_okD [OF gap]
  have "rh_ok m p" if "p < m_capacity m" for p
  proof (cases "p = g")
    case True
    with st show ?thesis by (auto simp: rh_ok_def)
  next
    case False
    with G(5) that show ?thesis by simp
  qed
  with G(1,4) show ?thesis unfolding table_ok_def by blast
qed

text \<open>Clearing an occupied bucket of a well-formed table leaves a gap.\<close>

lemma table_ok_clear:
  assumes ok: "table_ok m" and g: "g < m_capacity m"
    and v: "b_value (m_buckets m ! g) = Some kv"
  shows "gap_ok (m\<lparr>m_buckets := (m_buckets m)
            [g := (m_buckets m ! g)\<lparr>b_value := None, b_distance := UNOCCUPIED\<rparr>]\<rparr>) g"
proof -
  let ?c = "m_capacity m"
  let ?E = "(m_buckets m ! g)\<lparr>b_value := None, b_distance := UNOCCUPIED\<rparr>"
  let ?m' = "m\<lparr>m_buckets := (m_buckets m)[g := ?E]\<rparr>"
  let ?t = "(g + 1) mod ?c"
  let ?r = "(g + ?c - 1) mod ?c"
  from table_ok_geometry [OF ok] obtain k where geo: "geometry m k" ..
  note cap = geometry_cap [OF geo]
  from cap have c: "0 < ?c" by simp
  have tg: "?t \<noteq> g" by (rule circ_succ_ne [OF cap(3) g])
  have rg: "?r \<noteq> g" by (rule circ_pred_ne [OF cap(3) g])
  have t: "?t < ?c" and r: "?r < ?c" using c by simp_all
  have geo': "\<exists>k. geometry ?m' k" using geo by (intro exI [of _ k]) simp
  have sl: "slot_ok ?m' p" if "p < ?c" for p
  proof (cases "p = g")
    case True
    with g cap(2) show ?thesis by (simp add: slot_ok_def)
  next
    case False
    with table_ok_slot [OF ok that] show ?thesis
      by (simp add: slot_ok_def cong: option.case_cong)
  qed
  have rh: "rh_ok ?m' p" if p: "p < ?c" "p \<noteq> g" for p
  proof (cases "(p + 1) mod ?c = g")
    case True
    with g cap(2) show ?thesis by (simp add: rh_ok_def)
  next
    case False
    with table_ok_rh [OF ok p(1)] p(2) show ?thesis by (simp add: rh_ok_def)
  qed
  have "rh_ok m ?r" by (rule table_ok_rh [OF ok r])
  moreover have "(?r + 1) mod ?c = g" using circ_pred_succ [OF c, of g] g by simp
  ultimately have dg: "b_distance (m_buckets m ! g) = 0 \<or>
      (b_value (m_buckets m ! ?r) \<noteq> None \<and>
       b_distance (m_buckets m ! g) \<le> b_distance (m_buckets m ! ?r) + 1)"
    using v by (auto simp: rh_ok_def)
  from table_ok_rh [OF ok g] v
  have dt: "b_value (m_buckets m ! ?t) = None \<or> b_distance (m_buckets m ! ?t) = 0 \<or>
      b_distance (m_buckets m ! ?t) \<le> b_distance (m_buckets m ! g) + 1"
    by (auto simp: rh_ok_def)
  from dg dt have third: "b_value (m_buckets m ! ?t) = None \<or>
      b_distance (m_buckets m ! ?t) \<le> 1 \<or>
      (b_value (m_buckets m ! ?r) \<noteq> None \<and>
       b_distance (m_buckets m ! ?t) \<le> b_distance (m_buckets m ! ?r) + 2)"
    by auto
  have g': "g < m_capacity ?m'" using g by simp
  have e': "b_value (m_buckets ?m' ! g) = None" using g cap(2) by simp
  have sl': "\<forall>p < m_capacity ?m'. slot_ok ?m' p" using sl by simp
  have rh': "\<forall>p < m_capacity ?m'. p \<noteq> g \<longrightarrow> rh_ok ?m' p" using rh by simp
  have third': "b_value (m_buckets ?m' ! ((g + 1) mod m_capacity ?m')) = None \<or>
      b_distance (m_buckets ?m' ! ((g + 1) mod m_capacity ?m')) \<le> 1 \<or>
      (b_value (m_buckets ?m' ! ((g + m_capacity ?m' - 1) mod m_capacity ?m')) \<noteq> None \<and>
       b_distance (m_buckets ?m' ! ((g + 1) mod m_capacity ?m')) \<le>
         b_distance (m_buckets ?m' ! ((g + m_capacity ?m' - 1) mod m_capacity ?m')) + 2)"
    using third tg rg by simp
  show ?thesis
    unfolding gap_ok_def using geo' g' e' sl' rh' third' by blast
qed

text \<open>Scanning over empty buckets: the loop moves nothing and stops at the first occupied
  bucket, which is at its ideal bucket.\<close>

lemma erase_loop_scan:
  assumes ok: "table_ok m"
  shows "s < m_capacity m \<Longrightarrow>
    b_value (m_buckets m ! ((s + m_capacity m - 1) mod m_capacity m)) = None \<Longrightarrow>
    b_value (m_buckets m ! ((s + n) mod m_capacity m)) \<noteq> None \<Longrightarrow>
    (\<forall>j<n. b_value (m_buckets m ! ((s + j) mod m_capacity m)) = None) \<Longrightarrow>
    erase_loop m g s = Some m"
proof (induction n arbitrary: s)
  case 0
  let ?c = "m_capacity m"
  from "0.prems"(1,3) obtain kv where kv: "b_value (m_buckets m ! s) = Some kv" by auto
  let ?r = "(s + ?c - 1) mod ?c"
  from "0.prems"(1) have c: "0 < ?c" by simp
  then have r: "?r < ?c" by simp
  have "(?r + 1) mod ?c = s" using circ_pred_succ [OF c, of s] "0.prems"(1) by simp
  with table_ok_rh [OF ok r] kv "0.prems"(2) have "b_distance (m_buckets m ! s) = 0"
    by (auto simp: rh_ok_def)
  with table_ok_bucket_at [OF ok "0.prems"(1)] show ?case
    by (subst erase_loop.simps) simp
next
  case (Suc n)
  let ?c = "m_capacity m"
  let ?nx = "(s + 1) mod ?c"
  from table_ok_geometry [OF ok] obtain k where geo: "geometry m k" ..
  note cap = geometry_cap [OF geo]
  from Suc.prems(1) have c: "0 < ?c" by simp
  from Suc.prems(4) [rule_format, of 0] Suc.prems(1)
  have e: "b_value (m_buckets m ! s) = None" by simp
  with table_ok_empty_iff [OF ok Suc.prems(1)] have em: "HashBucket_empty (m_buckets m ! s)"
    by simp
  then have d: "b_distance (m_buckets m ! s) \<noteq> 0"
    by (simp add: HashBucket_empty_def UNOCCUPIED_def)
  have step: "erase_loop m g s = erase_loop m g ?nx"
    using table_ok_bucket_at [OF ok Suc.prems(1)] em d geometry_next [OF geo Suc.prems(1)]
    by (subst erase_loop.simps) simp
  have shift: "(?nx + j) mod ?c = (s + Suc j) mod ?c" for j
    by (simp add: mod_add_left_eq)
  have 1: "?nx < ?c" using c by simp
  have 2: "b_value (m_buckets m ! ((?nx + ?c - 1) mod ?c)) = None"
    using circ_succ_pred [OF c, of s] Suc.prems(1) e by simp
  have 3: "b_value (m_buckets m ! ((?nx + n) mod ?c)) \<noteq> None"
    using Suc.prems(3) unfolding shift .
  have 4: "\<forall>j<n. b_value (m_buckets m ! ((?nx + j) mod ?c)) = None"
  proof (intro allI impI)
    fix j assume "j < n"
    then have "Suc j < Suc n" by simp
    from Suc.prems(4) [rule_format, OF this]
    show "b_value (m_buckets m ! ((?nx + j) mod ?c)) = None" unfolding shift .
  qed
  from Suc.IH [OF 1 2 3 4] step show ?case by simp
qed

lemma gap_ok_move:
  assumes gap: "gap_ok m g"
    and kv: "b_value (m_buckets m ! ((g + 1) mod m_capacity m)) = Some kv"
    and d: "0 < b_distance (m_buckets m ! ((g + 1) mod m_capacity m))"
  defines "t \<equiv> (g + 1) mod m_capacity m"
  defines "G \<equiv> (m_buckets m ! g)\<lparr>b_value := Some kv, b_hash := b_hash (m_buckets m ! t),
      b_distance := (g + m_capacity m - b_hash (m_buckets m ! t) mod m_capacity m) mod m_capacity m\<rparr>"
  defines "E \<equiv> (m_buckets m ! t)\<lparr>b_value := None, b_distance := UNOCCUPIED\<rparr>"
  defines "m' \<equiv> m\<lparr>m_buckets := (m_buckets m)[g := G, t := E]\<rparr>"
  shows "gap_ok m' t" and "dist_sum (m_buckets m') < dist_sum (m_buckets m)"
    and "mset (entries m') = mset (entries m)"
proof -
  let ?c = "m_capacity m"
  let ?bs = "m_buckets m"
  let ?u = "(t + 1) mod ?c"
  let ?r = "(g + ?c - 1) mod ?c"
  note Gp = gap_okD [OF gap]
  from Gp(1) obtain k where geo: "geometry m k" ..
  note cap = geometry_cap [OF geo]
  from cap have c: "0 < ?c" by simp
  have g: "g < ?c" by (rule Gp(2))
  have t: "t < ?c" using c by (simp add: t_def)
  have tg: "t \<noteq> g" unfolding t_def by (rule circ_succ_ne [OF cap(3) g])
  have pt: "(t + ?c - 1) mod ?c = g" unfolding t_def using circ_succ_pred [OF c, of g] g by simp
  have kv': "b_value (?bs ! t) = Some kv" using kv by (simp add: t_def)
  have d': "0 < b_distance (?bs ! t)" using d by (simp add: t_def)
  note st = slot_okD_Some [OF Gp(4) [OF t] kv']
  let ?i = "b_hash (?bs ! t) mod ?c"
  have i: "?i < ?c" using c by simp
  have dG: "(g + ?c - ?i) mod ?c = b_distance (?bs ! t) - 1"
  proof -
    from st have "b_distance (?bs ! t) = ((g + 1) mod ?c + ?c - ?i) mod ?c" by (simp add: t_def)
    with d' have "0 < ((g + 1) mod ?c + ?c - ?i) mod ?c" by simp
    from circ_dist_pred [OF g i this] st show ?thesis by (simp add: t_def)
  qed
  have len: "length ?bs = ?c" by (rule cap(2))
  have nt: "m_buckets m' ! t = E" using t len by (simp add: m'_def)
  have ng: "m_buckets m' ! g = G" using g len tg by (simp add: m'_def)
  have no: "m_buckets m' ! p = ?bs ! p" if "p \<noteq> g" "p \<noteq> t" for p
    using that by (simp add: m'_def)
  have cm: "m_capacity m' = ?c" "m_hasher m' = m_hasher m" by (simp_all add: m'_def)
  have geo': "\<exists>k. geometry m' k" using geo by (intro exI [of _ k]) (simp add: m'_def)
  have sl: "slot_ok m' p" if p: "p < ?c" for p
  proof -
    consider "p = t" | "p = g" | "p \<noteq> t" "p \<noteq> g" by blast
    then show ?thesis
    proof cases
      case 1
      then show ?thesis unfolding slot_ok_def by (simp add: nt E_def)
    next
      case 2
      then show ?thesis unfolding slot_ok_def cm using st(1) by (simp add: ng G_def)
    next
      case 3
      with Gp(4) [OF p] show ?thesis unfolding slot_ok_def cm
        by (simp add: no cong: option.case_cong)
    qed
  qed
  have third: "b_distance (?bs ! t) \<le> 1 \<or>
      (b_value (?bs ! ?r) \<noteq> None \<and> b_distance (?bs ! t) \<le> b_distance (?bs ! ?r) + 2)"
    using Gp(6) kv' by (auto simp: t_def)
  have rh: "rh_ok m' p" if p: "p < ?c" "p \<noteq> t" for p
  proof -
    let ?n = "(p + 1) mod ?c"
    have n: "?n < ?c" using c by simp
    show ?thesis
    proof (cases "p = g")
      case True
      then have "?n = t" by (simp add: t_def)
      then show ?thesis unfolding rh_ok_def cm by (simp add: nt E_def)
    next
      case pg: False
      have nnt: "?n \<noteq> t"
      proof
        assume "?n = t"
        from circ_succ_eq_pred [OF p(1) t this] pt pg show False by simp
      qed
      show ?thesis
      proof (cases "?n = g")
        case True
        from circ_succ_eq_pred [OF p(1) g True] have pr: "p = ?r" .
        have np: "m_buckets m' ! p = ?bs ! p" by (rule no [OF pg p(2)])
        have "b_value G = None \<or> b_distance G = 0 \<or>
            (b_value (?bs ! p) \<noteq> None \<and> b_distance G \<le> b_distance (?bs ! p) + 1)"
          using third dG pr by (auto simp: G_def)
        then show ?thesis unfolding rh_ok_def cm True ng np .
      next
        case False
        with Gp(5) [OF p(1) pg] nnt show ?thesis
          unfolding rh_ok_def cm by (simp add: no pg p(2))
      qed
    qed
  qed
  have u: "?u < ?c" using c by simp
  have ut: "?u \<noteq> t" by (rule circ_succ_ne [OF cap(3) t])
  have th': "b_value (m_buckets m' ! ?u) = None \<or> b_distance (m_buckets m' ! ?u) \<le> 1 \<or>
      (b_value (m_buckets m' ! g) \<noteq> None \<and>
       b_distance (m_buckets m' ! ?u) \<le> b_distance (m_buckets m' ! g) + 2)"
  proof (cases "?u = g")
    case True
    then show ?thesis by (simp add: ng G_def)
  next
    case False
    have nu: "m_buckets m' ! ?u = ?bs ! ?u" by (rule no [OF False ut])
    from Gp(5) [OF t tg] kv'
    have "b_value (?bs ! ?u) = None \<or> b_distance (?bs ! ?u) = 0 \<or>
        b_distance (?bs ! ?u) \<le> b_distance (?bs ! t) + 1"
      unfolding rh_ok_def by auto
    with d' dG have "b_value (?bs ! ?u) = None \<or> b_distance (?bs ! ?u) \<le> 1 \<or>
        (b_value G \<noteq> None \<and> b_distance (?bs ! ?u) \<le> b_distance G + 2)"
      by (auto simp: G_def)
    then show ?thesis unfolding nu ng .
  qed
  have "t < m_capacity m'" "b_value (m_buckets m' ! t) = None"
    "\<forall>p < m_capacity m'. slot_ok m' p" "\<forall>p < m_capacity m'. p \<noteq> t \<longrightarrow> rh_ok m' p"
    using t sl rh by (simp_all add: cm nt E_def)
  moreover have "b_value (m_buckets m' ! ((t + 1) mod m_capacity m')) = None \<or>
      b_distance (m_buckets m' ! ((t + 1) mod m_capacity m')) \<le> 1 \<or>
      (b_value (m_buckets m' ! ((t + m_capacity m' - 1) mod m_capacity m')) \<noteq> None \<and>
       b_distance (m_buckets m' ! ((t + 1) mod m_capacity m')) \<le>
         b_distance (m_buckets m' ! ((t + m_capacity m' - 1) mod m_capacity m')) + 2)"
    unfolding cm pt by (rule th')
  ultimately show "gap_ok m' t" unfolding gap_ok_def using geo' by blast
  let ?m1 = "m\<lparr>m_buckets := ?bs[g := G]\<rparr>"
  have gl: "g < length ?bs" "t < length (m_buckets ?m1)" using g t len by simp_all
  have m'_eq: "m' = ?m1\<lparr>m_buckets := (m_buckets ?m1)[t := E]\<rparr>" by (simp add: m'_def)
  have b1: "m_buckets ?m1 ! t = ?bs ! t" using tg by simp
  from dist_sum_update [OF gl(1), of G] Gp(3)
  have s1: "dist_sum (?bs[g := G]) = dist_sum ?bs + (b_distance (?bs ! t) - 1)"
    by (simp add: G_def dG)
  from dist_sum_update [of t "?bs[g := G]" E] gl(2) tg kv'
  have s2: "dist_sum (?bs[g := G, t := E]) + b_distance (?bs ! t) = dist_sum (?bs[g := G])"
    by (simp add: E_def)
  from s1 s2 d' show "dist_sum (m_buckets m') < dist_sum (m_buckets m)" by (simp add: m'_def)
  from entries_update [OF gl(1), of G] Gp(3)
  have e1: "mset (entries ?m1) = mset (entries m) + {#kv#}" by (simp add: G_def)
  from entries_update [OF gl(2), of E] b1 kv'
  have e2: "mset (entries m') + {#kv#} = mset (entries ?m1)" by (simp add: m'_eq E_def)
  from e1 e2 show "mset (entries m') = mset (entries m)" by simp
qed

lemma HashBucket_clear_occupied:
  "b_value b = Some kv \<Longrightarrow> b_distance b \<noteq> UNOCCUPIED \<Longrightarrow>
   HashBucket_clear b = Some (b\<lparr>b_value := None, b_distance := UNOCCUPIED\<rparr>)"
  by (simp add: HashBucket_clear_def HashBucket_empty_def destroy_value_def)

text \<open>The backward shift closes the gap: the loop returns a well-formed table that stores
  the same pairs.\<close>

lemma erase_loop_shift:
  "gap_ok m g \<Longrightarrow> \<exists>p < m_capacity m. b_value (m_buckets m ! p) \<noteq> None \<Longrightarrow>
   \<exists>bs'. erase_loop m g ((g + 1) mod m_capacity m) = Some (m\<lparr>m_buckets := bs'\<rparr>) \<and>
     table_ok (m\<lparr>m_buckets := bs'\<rparr>) \<and>
     mset (entries (m\<lparr>m_buckets := bs'\<rparr>)) = mset (entries m)"
proof (induction "dist_sum (m_buckets m)" arbitrary: m g rule: less_induct)
  case less
  let ?c = "m_capacity m"
  let ?bs = "m_buckets m"
  let ?t = "(g + 1) mod ?c"
  let ?u = "(?t + 1) mod ?c"
  note Gp = gap_okD [OF less.prems(1)]
  from Gp(1) obtain k where geo: "geometry m k" ..
  note cap = geometry_cap [OF geo]
  from cap have c: "0 < ?c" by simp
  have g: "g < ?c" by (rule Gp(2))
  have t: "?t < ?c" using c by simp
  have tg: "?t \<noteq> g" by (rule circ_succ_ne [OF cap(3) g])
  have at_t: "bucket_at m ?t = Some (?bs ! ?t)" using t cap(2) by (simp add: bucket_at_def)
  have at_g: "bucket_at m g = Some (?bs ! g)" using g cap(2) by (simp add: bucket_at_def)
  have same: "m\<lparr>m_buckets := ?bs\<rparr> = m" by simp
  show ?case
  proof (cases "b_value (?bs ! ?t)")
    case None
    then have ok: "table_ok m" by (intro gap_ok_closed [OF less.prems(1)]) simp
    from slot_okD_None [OF Gp(4) [OF t] None]
    have du: "b_distance (?bs ! ?t) = UNOCCUPIED" .
    then have em: "HashBucket_empty (?bs ! ?t)" "b_distance (?bs ! ?t) \<noteq> 0"
      by (simp_all add: HashBucket_empty_def UNOCCUPIED_def)
    have step: "erase_loop m g ?t = erase_loop m g ?u"
      using at_t em geometry_next [OF geo t] by (subst erase_loop.simps) simp
    have u: "?u < ?c" using c by simp
    have pu: "b_value (?bs ! ((?u + ?c - 1) mod ?c)) = None"
      using circ_succ_pred [OF c, of ?t] t None by simp
    from less.prems(2) obtain e where e: "e < ?c" "b_value (?bs ! e) \<noteq> None" by blast
    from first_slot_from [of e ?c "\<lambda>b. b_value b \<noteq> None", OF e u]
    obtain n where n: "b_value (?bs ! ((?u + n) mod ?c)) \<noteq> None"
      "\<forall>j<n. \<not> b_value (?bs ! ((?u + j) mod ?c)) \<noteq> None" by blast
    from n(2) have n2: "\<forall>j<n. b_value (?bs ! ((?u + j) mod ?c)) = None" by blast
    from erase_loop_scan [OF ok u pu n(1) n2] step have "erase_loop m g ?t = Some m" by simp
    with ok show ?thesis by (intro exI [of _ ?bs]) (simp add: same)
  next
    case (Some kv)
    show ?thesis
    proof (cases "b_distance (?bs ! ?t) = 0")
      case True
      then have ok: "table_ok m" by (intro gap_ok_closed [OF less.prems(1)]) simp
      have "erase_loop m g ?t = Some m"
        using at_t True by (subst erase_loop.simps) simp
      with ok show ?thesis by (intro exI [of _ ?bs]) (simp add: same)
    next
      case False
      then have d: "0 < b_distance (?bs ! ?t)" by simp
      let ?h = "b_hash (?bs ! ?t)"
      let ?G = "(?bs ! g)\<lparr>b_value := Some kv, b_hash := ?h,
        b_distance := (g + ?c - ?h mod ?c) mod ?c\<rparr>"
      let ?E = "(?bs ! ?t)\<lparr>b_value := None, b_distance := UNOCCUPIED\<rparr>"
      let ?m' = "m\<lparr>m_buckets := ?bs[g := ?G, ?t := ?E]\<rparr>"
      note mv = gap_ok_move [OF less.prems(1) Some d]
      note st = slot_okD_Some [OF Gp(4) [OF t] Some]
      from st(2) c have "b_distance (?bs ! ?t) < ?c" by simp
      with cap(5) have ne: "b_distance (?bs ! ?t) \<noteq> UNOCCUPIED" by simp
      then have nem: "\<not> HashBucket_empty (?bs ! ?t)" by (simp add: HashBucket_empty_def)
      have cl: "HashBucket_clear (?bs ! ?t) = Some ?E"
        by (rule HashBucket_clear_occupied [OF Some ne])
      have i: "?h mod ?c < ?c" using c by simp
      have gd: "get_distance m (get_ideal m ?h) g = (g + ?c - ?h mod ?c) mod ?c"
        using geometry_distance [OF geo i g] geometry_ideal [OF geo, of ?h] by simp
      from slot_okD_None [OF Gp(4) [OF g] Gp(3)]
      have "b_distance (?bs ! g) = UNOCCUPIED" .
      then have se: "HashBucket_set kv ?h ((g + ?c - ?h mod ?c) mod ?c) (?bs ! g) = Some ?G"
        by (rule HashBucket_set_empty)
      have step: "erase_loop m g ?t = erase_loop ?m' ?t ?u"
        using at_t at_g False nem Some tg gd se cl geometry_next [OF geo g]
          geometry_next [OF geo t]
        by (subst erase_loop.simps) simp
      have occ: "\<exists>p < m_capacity ?m'. b_value (m_buckets ?m' ! p) \<noteq> None"
      proof (intro exI [of _ g] conjI)
        show "g < m_capacity ?m'" using g by simp
        show "b_value (m_buckets ?m' ! g) \<noteq> None" using g cap(2) tg by simp
      qed
      from less.hyps [OF mv(2) mv(1) occ]
      obtain bs' where r: "erase_loop ?m' ?t ((?t + 1) mod m_capacity ?m') = Some (?m'\<lparr>m_buckets := bs'\<rparr>)"
        "table_ok (?m'\<lparr>m_buckets := bs'\<rparr>)"
        "mset (entries (?m'\<lparr>m_buckets := bs'\<rparr>)) = mset (entries ?m')"
        by blast
      have eq: "?m'\<lparr>m_buckets := bs'\<rparr> = m\<lparr>m_buckets := bs'\<rparr>" by simp
      from r(1) step have 1: "erase_loop m g ?t = Some (m\<lparr>m_buckets := bs'\<rparr>)" by simp
      from r(2) have 2: "table_ok (m\<lparr>m_buckets := bs'\<rparr>)" by simp
      from r(3) mv(3) have 3: "mset (entries (m\<lparr>m_buckets := bs'\<rparr>)) = mset (entries m)"
        by simp
      from 1 2 3 show ?thesis by blast
    qed
  qed
qed

subsection \<open>Deletion\<close>

lemma floor_min_load_le_quarter: "floor_min_load cap \<le> cap div 4"
proof -
  have "(13421773 * cap) div 67108864 \<le> (16777216 * cap) div 67108864"
    by (rule div_le_mono) simp
  then show ?thesis by (simp add: floor_min_load_def)
qed

lemma gap_ok_cong:
  "m_buckets m' = m_buckets m \<Longrightarrow> m_capacity m' = m_capacity m \<Longrightarrow> m_mask m' = m_mask m \<Longrightarrow>
   m_hasher m' = m_hasher m \<Longrightarrow> gap_ok m' g = gap_ok m g"
  by (simp add: gap_ok_def geometry_def slot_ok_def rh_ok_def cong: option.case_cong)

lemma size_sub_1_pos: "1 \<le> a \<Longrightarrow> a < 2 ^ 64 \<Longrightarrow> size_sub a 1 = a - 1"
  unfolding size_sub_def by (rule wrap_sub_ge)

lemma mset_entries_remove_distinct:
  assumes "mset xs' + {#v#} = mset xs" "distinct (map fst xs)"
  shows "distinct (map fst xs')"
proof -
  from assms(1) have "mset (map fst xs) = mset (map fst (v # xs'))"
    by (metis add_mset_add_single mset.simps(2) mset_map)
  then have "distinct (map fst xs) \<longleftrightarrow> distinct (map fst (v # xs'))"
    by (rule mset_eq_imp_distinct_iff)
  with assms(2) show ?thesis by simp
qed

lemma mset_entries_eq_distinct:
  assumes "mset xs' = mset xs" "distinct (map fst xs)"
  shows "distinct (map fst xs')"
proof -
  from assms(1) have "mset (map fst xs') = mset (map fst xs)" by (metis mset_map)
  then have "distinct (map fst xs') \<longleftrightarrow> distinct (map fst xs)"
    by (rule mset_eq_imp_distinct_iff)
  with assms(2) show ?thesis by simp
qed

text \<open>Erasing a stored key: one and the same result for every depth bound that suffices,
  two nested calls being enough.\<close>

lemma erase_hash_present:
  assumes inv: "HashMap_inv m" and pr: "lookup m key = Some v"
    and h: "h = unat (m_hasher m key)"
  shows "\<exists>m'. (\<forall>d. erase_hash d m key h = None \<or> erase_hash d m key h = Some m') \<and>
      (\<forall>d. erase_hash (Suc (Suc d)) m key h = Some m') \<and>
      HashMap_inv m' \<and> mset (entries m') + {#(key, v)#} = mset (entries m) \<and>
      m_hasher m' = m_hasher m \<and> m_size m' = m_size m - 1"
proof -
  let ?c = "m_capacity m"
  let ?bs = "m_buckets m"
  from find_bucket_check [OF inv h] pr obtain q where
    q: "find_bucket m key h = Some q" "check m q key h = Some True"
      "q < length ?bs" "b_value (?bs ! q) = Some (key, v)" by auto
  have c0: "?c \<noteq> 0"
  proof
    assume "?c = 0"
    with HashMap_invD(7) [OF inv] q(3) show False by simp
  qed
  have ok: "table_ok m" by (rule HashMap_invD(8) [OF inv c0])
  from table_ok_geometry [OF ok] obtain k where geo: "geometry m k" ..
  note cap = geometry_cap [OF geo]
  from q(3) cap have qc: "q < ?c" by simp
  let ?E = "(?bs ! q)\<lparr>b_value := None, b_distance := UNOCCUPIED\<rparr>"
  let ?m0 = "m\<lparr>m_buckets := ?bs[q := ?E]\<rparr>"
  let ?m1 = "m\<lparr>m_buckets := ?bs[q := ?E], m_size := m_size m - 1\<rparr>"
  from table_ok_dist_lt [OF ok qc q(4)] cap(5) have "b_distance (?bs ! q) \<noteq> UNOCCUPIED" by simp
  from HashBucket_clear_occupied [OF q(4) this]
  have cl: "HashBucket_clear (?bs ! q) = Some ?E" .
  have at: "bucket_at m q = Some (?bs ! q)" using q(3) by (simp add: bucket_at_def)
  note sz_eq = HashMap_invD(3) [OF inv]
  note dis = HashMap_invD(4) [OF inv]
  from entries_update [OF q(3), of ?E] q(4)
  have ms0: "mset (entries ?m0) + {#(key, v)#} = mset (entries m)" by simp
  have en1: "entries ?m1 = entries ?m0" by (rule entries_cong) simp
  from ms0 have "size (mset (entries ?m0) + {#(key, v)#}) = size (mset (entries m))" by simp
  then have len: "length (entries ?m0) + 1 = length (entries m)" by simp
  with sz_eq have s1: "1 \<le> m_size m" by simp
  from HashMap_inv_size_small(1) [OF inv] have "m_size m < 2 ^ 64" by simp
  from size_sub_1_pos [OF s1 this] have ss: "size_sub (m_size m) 1 = m_size m - 1" .
  have dis1: "distinct (map fst (entries ?m0))"
    by (rule mset_entries_remove_distinct [OF ms0 dis])
  have sz1: "m_size ?m1 = length (entries ?m1)" using len sz_eq en1 by simp
  have gap0: "gap_ok ?m0 q" by (rule table_ok_clear [OF ok qc q(4)])
  have "gap_ok ?m1 q = gap_ok ?m0 q" by (rule gap_ok_cong) simp_all
  with gap0 have gap: "gap_ok ?m1 q" by simp
  have unf: "erase_hash d m key h =
     (if m_size ?m1 = 0 then Some ?m1
      else if m_size ?m1 < m_min_size ?m1 then
        (case get_capacity (m_size ?m1) of None \<Rightarrow> None | Some cap \<Rightarrow> rehash d ?m1 cap)
      else erase_loop ?m1 q (next_bucket ?m1 q))" for d
    using q(1,2) at cl ss
    by (simp add: erase_hash_def HashMap_empty_def Let_def cong: option.case_cong)
  have th: "m_max_size ?m1 = min (m_mask ?m1) (ceil_max_load (m_capacity ?m1))"
    "m_min_size ?m1 = floor_min_load (m_capacity ?m1)" "m_size ?m1 \<le> m_max_size ?m1"
    using HashMap_invD(1,2,5) [OF inv] by auto
  have "geometry ?m1 k" using geo by (simp add: geometry_def)
  have nx: "next_bucket ?m1 q = (q + 1) mod m_capacity ?m1"
    by (rule geometry_next [OF \<open>geometry ?m1 k\<close>]) (use qc in simp)
  consider (zero) "m_size ?m1 = 0" | (shrink) "m_size ?m1 \<noteq> 0" "m_size ?m1 < m_min_size ?m1"
    | (shift) "m_size ?m1 \<noteq> 0" "\<not> m_size ?m1 < m_min_size ?m1" by blast
  then show ?thesis
  proof cases
    case zero
    with sz1 have e: "entries ?m1 = []" by simp
    have none: "b_value (m_buckets ?m1 ! p) = None" if "p < length (m_buckets ?m1)" for p
    proof (rule ccontr)
      assume "b_value (m_buckets ?m1 ! p) \<noteq> None"
      then obtain kv where "b_value (m_buckets ?m1 ! p) = Some kv" by auto
      with that have "kv \<in> set (entries ?m1)" unfolding in_entries_iff by blast
      with e show False by simp
    qed
    have "(q + 1) mod m_capacity ?m1 < length (m_buckets ?m1)" using cap by simp
    from none [OF this] have "table_ok ?m1" by (intro gap_ok_closed [OF gap]) simp
    with th sz1 dis1 en1 have e3: "HashMap_inv ?m1" unfolding HashMap_inv_def by (simp add: c0)
    from unf zero have eh: "erase_hash d m key h = Some ?m1" for d by simp
    have e1: "\<forall>d. erase_hash d m key h = None \<or> erase_hash d m key h = Some ?m1"
      and e2: "\<forall>d. erase_hash (Suc (Suc d)) m key h = Some ?m1"
      unfolding eh by simp_all
    have e4: "mset (entries ?m1) + {#(key, v)#} = mset (entries m)" using ms0 en1 by simp
    have e5: "m_hasher ?m1 = m_hasher m" and e6: "m_size ?m1 = m_size m - 1" by simp_all
    from e1 e2 e3 e4 e5 e6 show ?thesis by blast
  next
    case shrink
    let ?s = "m_size ?m1"
    from shrink(1) have s1: "1 \<le> ?s" by simp
    from th(2) shrink(2) floor_min_load_le_quarter [of ?c] have s4: "4 * ?s < ?c" by simp
    from geo have cv: "?c \<le> vector_max_size" by (simp add: geometry_def)
    with vector_max_size_lt s4 have "?s \<le> 2 ^ 62" by simp
    from get_capacity_pow2 [OF s1 this] obtain k' where
      k': "get_capacity ?s = Some (2 ^ k')" "1 \<le> k'" "2 * ?s \<le> 2 ^ k'" "2 ^ k' < 4 * ?s" by blast
    from k'(4) s4 cv have le: "2 ^ k' \<le> vector_max_size" by simp
    have con: "\<forall>b \<in> set (m_buckets ?m1). HashBucket_empty b \<longleftrightarrow> b_value b = None"
    proof
      fix b assume "b \<in> set (m_buckets ?m1)"
      then have "b \<in> insert ?E (set ?bs)" using set_update_subset_insert by fastforce
      with HashMap_inv_consistent [OF inv] show "HashBucket_empty b \<longleftrightarrow> b_value b = None"
        by (auto simp: HashBucket_empty_def)
    qed
    have dis1': "distinct (map fst (entries ?m1))" using dis1 en1 by simp
    from max_size_bound [OF k'(3) s1] sz1
    have n: "length (entries ?m1) \<le> min (2 ^ k' - 1) (ceil_max_load (2 ^ k'))" by simp
    from rehash_correct [OF con dis1' k'(2) le n]
    obtain m' where m': "\<forall>d. rehash (Suc (Suc d)) ?m1 (2 ^ k') = Some m'"
      "\<forall>d. rehash d ?m1 (2 ^ k') = None \<or> rehash d ?m1 (2 ^ k') = Some m'"
      "HashMap_inv m'" "mset (entries m') = mset (entries ?m1)" "m_hasher m' = m_hasher ?m1"
      "m_size m' = length (entries ?m1)"
      by blast
    from unf shrink k'(1) have eh: "erase_hash d m key h = rehash d ?m1 (2 ^ k')" for d
      by (simp del: rehash.simps)
    have e1: "\<forall>d. erase_hash d m key h = None \<or> erase_hash d m key h = Some m'"
      unfolding eh by (rule m'(2))
    have e2: "\<forall>d. erase_hash (Suc (Suc d)) m key h = Some m'"
      unfolding eh by (rule m'(1))
    have e4: "mset (entries m') + {#(key, v)#} = mset (entries m)" using m'(4) ms0 en1 by simp
    have e5: "m_hasher m' = m_hasher m" using m'(5) by simp
    have e6: "m_size m' = m_size m - 1" using m'(6) sz1 by simp
    from e1 e2 m'(3) e4 e5 e6 show ?thesis by blast
  next
    case shift
    from shift(1) sz1 obtain kv where "kv \<in> set (entries ?m1)" by (cases "entries ?m1") auto
    then obtain p where "p < length (m_buckets ?m1)" "b_value (m_buckets ?m1 ! p) = Some kv"
      unfolding in_entries_iff by blast
    then have "\<exists>p < m_capacity ?m1. b_value (m_buckets ?m1 ! p) \<noteq> None"
      using cap(2) by auto
    from erase_loop_shift [OF gap this] obtain bs' where
      r: "erase_loop ?m1 q ((q + 1) mod m_capacity ?m1) = Some (?m1\<lparr>m_buckets := bs'\<rparr>)"
        "table_ok (?m1\<lparr>m_buckets := bs'\<rparr>)"
        "mset (entries (?m1\<lparr>m_buckets := bs'\<rparr>)) = mset (entries ?m1)"
      by blast
    let ?m' = "?m1\<lparr>m_buckets := bs'\<rparr>"
    from r(3) have "size (mset (entries ?m')) = size (mset (entries ?m1))" by simp
    then have len': "length (entries ?m') = length (entries ?m1)" by simp
    have dis': "distinct (map fst (entries ?m'))"
      using mset_entries_eq_distinct [OF r(3)] dis1 en1 by simp
    have e3: "HashMap_inv ?m'"
      unfolding HashMap_inv_def using th sz1 len' dis' r(2) c0 by simp
    from unf shift r(1) nx have eh: "erase_hash d m key h = Some ?m'" for d by simp
    have e1: "\<forall>d. erase_hash d m key h = None \<or> erase_hash d m key h = Some ?m'"
      and e2: "\<forall>d. erase_hash (Suc (Suc d)) m key h = Some ?m'"
      unfolding eh by simp_all
    have e4: "mset (entries ?m') + {#(key, v)#} = mset (entries m)" using r(3) ms0 en1 by simp
    have e5: "m_hasher ?m' = m_hasher m" and e6: "m_size ?m' = m_size m - 1" by simp_all
    from e1 e2 e3 e4 e5 e6 show ?thesis by blast
  qed
qed

subsection \<open>The mapping a table denotes\<close>

lemma lookup_mset_add:
  assumes ms: "mset (entries m') = mset (entries m) + {#(k, v)#}"
    and dis: "distinct (map fst (entries m'))"
  shows "lookup m' = (lookup m)(k \<mapsto> v)"
proof -
  from ms have "mset (entries m') = mset ((k, v) # entries m)" by simp
  then have s: "set (entries m') = set ((k, v) # entries m)" by (rule mset_eq_setD)
  from ms have "mset (map fst (entries m')) = mset (map fst ((k, v) # entries m))"
    by (metis add_mset_add_single mset.simps(2) mset_map)
  then have "distinct (map fst (entries m')) \<longleftrightarrow> distinct (map fst ((k, v) # entries m))"
    by (rule mset_eq_imp_distinct_iff)
  with dis have "distinct (map fst ((k, v) # entries m))" by simp
  from map_of_inject_set [OF dis this] s have "map_of (entries m') = map_of ((k, v) # entries m)"
    by simp
  then show ?thesis by (simp add: lookup_def)
qed

lemma lookup_mset_remove:
  assumes ms: "mset (entries m') + {#(k, v)#} = mset (entries m)"
    and dis: "distinct (map fst (entries m))"
  shows "lookup m' = (lookup m)(k := None)"
proof -
  from ms have e: "mset (entries m) = mset ((k, v) # entries m')" by simp
  then have s: "set (entries m) = set ((k, v) # entries m')" by (rule mset_eq_setD)
  from e have "mset (map fst (entries m)) = mset (map fst ((k, v) # entries m'))"
    by (metis mset_map)
  then have "distinct (map fst (entries m)) \<longleftrightarrow> distinct (map fst ((k, v) # entries m'))"
    by (rule mset_eq_imp_distinct_iff)
  with dis have d': "distinct (map fst ((k, v) # entries m'))" by simp
  from map_of_inject_set [OF dis d'] s have "map_of (entries m) = map_of ((k, v) # entries m')"
    by simp
  then have 1: "lookup m = (lookup m')(k \<mapsto> v)" by (simp add: lookup_def)
  from d' have "k \<notin> fst ` set (entries m')" by simp
  then have 2: "lookup m' k = None" by (simp add: lookup_def map_of_eq_None_iff)
  show ?thesis unfolding 1 using 2 by (auto simp: fun_eq_iff)
qed

lemma lookup_mset_eq:
  assumes ms: "mset (entries m') = mset (entries m)" and dis: "distinct (map fst (entries m))"
  shows "lookup m' = lookup m"
proof -
  from ms have s: "set (entries m') = set (entries m)" by (rule mset_eq_setD)
  from mset_entries_eq_distinct [OF ms dis] have "distinct (map fst (entries m'))" .
  from map_of_inject_set [OF this dis] s show ?thesis by (simp add: lookup_def)
qed

subsection \<open>Every operation keeps the invariant and acts on the mapping as specified\<close>

lemma insert_hash_spec:
  assumes inv: "HashMap_inv m" and h: "h = unat (m_hasher m (fst kv))"
    and r: "insert_hash d m kv h = Some (m', pos)"
  shows "HashMap_inv m'" and "m_hasher m' = m_hasher m"
    and "lookup m' = (case lookup m (fst kv) of None \<Rightarrow> (lookup m)(fst kv \<mapsto> snd kv) | Some w \<Rightarrow> lookup m)"
    and "pos < length (m_buckets m')"
    and "b_value (m_buckets m' ! pos) = Some (fst kv, the (lookup m' (fst kv)))"
    and "m_size m' = (case lookup m (fst kv) of None \<Rightarrow> m_size m + 1 | Some w \<Rightarrow> m_size m)"
    and "m_capacity m' = (case lookup m (fst kv) of
          None \<Rightarrow> (if m_size m = m_max_size m then the (get_capacity (m_size m + 1))
                    else m_capacity m)
        | Some w \<Rightarrow> m_capacity m)"
proof -
  have *: "HashMap_inv m' \<and> m_hasher m' = m_hasher m \<and>
    lookup m' = (case lookup m (fst kv) of None \<Rightarrow> (lookup m)(fst kv \<mapsto> snd kv) | Some w \<Rightarrow> lookup m) \<and>
    pos < length (m_buckets m') \<and>
    b_value (m_buckets m' ! pos) = Some (fst kv, the (lookup m' (fst kv))) \<and>
    m_size m' = (case lookup m (fst kv) of None \<Rightarrow> m_size m + 1 | Some w \<Rightarrow> m_size m) \<and>
    m_capacity m' = (case lookup m (fst kv) of
          None \<Rightarrow> (if m_size m = m_max_size m then the (get_capacity (m_size m + 1))
                    else m_capacity m)
        | Some w \<Rightarrow> m_capacity m)"
  proof (cases "lookup m (fst kv)")
    case None
    from insert_hash_new_key [OF inv None h] obtain m1 pos1 where
      a: "\<forall>d. insert_hash d m kv h = None \<or> insert_hash d m kv h = Some (m1, pos1)"
      and g: "(\<exists>d. insert_hash d m kv h \<noteq> None) \<longrightarrow>
         HashMap_inv m1 \<and> mset (entries m1) = mset (entries m) + {#kv#} \<and>
         m_hasher m1 = m_hasher m \<and> m_size m1 = m_size m + 1 \<and>
         m_capacity m1 = (if m_size m = m_max_size m then the (get_capacity (m_size m + 1))
                          else m_capacity m) \<and>
         pos1 < length (m_buckets m1) \<and> b_value (m_buckets m1 ! pos1) = Some kv"
      by blast
    from a [rule_format, of d] r have e: "m1 = m'" "pos1 = pos" by simp_all
    from r have "\<exists>d. insert_hash d m kv h \<noteq> None" by (intro exI [of _ d]) simp
    with g e have G: "HashMap_inv m'" "mset (entries m') = mset (entries m) + {#kv#}"
      "m_hasher m' = m_hasher m" "m_size m' = m_size m + 1"
      "pos < length (m_buckets m')" "b_value (m_buckets m' ! pos) = Some kv"
      "m_capacity m' = (if m_size m = m_max_size m then the (get_capacity (m_size m + 1))
                          else m_capacity m)" by simp_all
    from G(2) have "mset (entries m') = mset (entries m) + {#(fst kv, snd kv)#}" by simp
    from lookup_mset_add [OF this HashMap_invD(4) [OF G(1)]]
    have l: "lookup m' = (lookup m)(fst kv \<mapsto> snd kv)" .
    with G None show ?thesis by simp
  next
    case (Some w)
    from r obtain d' where d: "d = Suc d'" by (cases d) simp_all
    from insert_hash_present [OF inv Some h, of d'] r d
    have "m' = m" "pos < length (m_buckets m)" "b_value (m_buckets m ! pos) = Some (fst kv, w)"
      by auto
    with Some inv show ?thesis by simp
  qed
  from * show "HashMap_inv m'" and "m_hasher m' = m_hasher m"
    and "lookup m' = (case lookup m (fst kv) of None \<Rightarrow> (lookup m)(fst kv \<mapsto> snd kv) | Some w \<Rightarrow> lookup m)"
    and "pos < length (m_buckets m')"
    and "b_value (m_buckets m' ! pos) = Some (fst kv, the (lookup m' (fst kv)))"
    and "m_size m' = (case lookup m (fst kv) of None \<Rightarrow> m_size m + 1 | Some w \<Rightarrow> m_size m)"
    and "m_capacity m' = (case lookup m (fst kv) of
          None \<Rightarrow> (if m_size m = m_max_size m then the (get_capacity (m_size m + 1))
                    else m_capacity m)
        | Some w \<Rightarrow> m_capacity m)"
    by blast+
qed

lemma HashMap_insert_spec:
  assumes inv: "HashMap_inv m" and r: "HashMap_insert d m kv = Some m'"
  shows "HashMap_inv m'"
    and "lookup m' = (case lookup m (fst kv) of None \<Rightarrow> (lookup m)(fst kv \<mapsto> snd kv) | Some w \<Rightarrow> lookup m)"
proof -
  from r obtain pos where "insert_hash d m kv (unat (m_hasher m (fst kv))) = Some (m', pos)"
    by (auto split: option.splits)
  from insert_hash_spec(1,3) [OF inv refl this]
  show "HashMap_inv m'"
    and "lookup m' = (case lookup m (fst kv) of None \<Rightarrow> (lookup m)(fst kv \<mapsto> snd kv) | Some w \<Rightarrow> lookup m)"
    by blast+
qed

lemma erase_spec:
  assumes inv: "HashMap_inv m" and r: "erase d m k = Some m'"
  shows "HashMap_inv m'" and "lookup m' = (lookup m)(k := None)"
proof -
  have "HashMap_inv m' \<and> lookup m' = (lookup m)(k := None)"
  proof (cases "lookup m k")
    case None
    with find_bucket_check [OF inv refl, of k] r have "m' = m"
      by (auto simp: erase_def erase_hash_def)
    with inv None show ?thesis by (auto simp: fun_eq_iff)
  next
    case (Some v)
    from erase_hash_present [OF inv Some refl] obtain m1 where
      a: "\<forall>d. erase_hash d m k (unat (m_hasher m k)) = None \<or>
          erase_hash d m k (unat (m_hasher m k)) = Some m1"
      and g: "HashMap_inv m1" "mset (entries m1) + {#(k, v)#} = mset (entries m)"
      by blast
    from a [rule_format, of d] r have "m1 = m'" by (simp add: erase_def)
    with g lookup_mset_remove [OF g(2) HashMap_invD(4) [OF inv]] show ?thesis by simp
  qed
  then show "HashMap_inv m'" and "lookup m' = (lookup m)(k := None)" by blast+
qed

lemma ref_set_spec:
  assumes inv: "HashMap_inv m" and r: "ref_set m pos w = Some m'"
  shows "\<exists>k. pos < length (m_buckets m) \<and> (\<exists>v. b_value (m_buckets m ! pos) = Some (k, v)) \<and>
    HashMap_inv m' \<and> lookup m' = (lookup m)(k \<mapsto> w)"
proof -
  let ?bs = "m_buckets m"
  from r have pos: "pos < length ?bs" by (auto simp: ref_set_def bucket_at_def split: if_splits)
  with r obtain k v where kv: "b_value (?bs ! pos) = Some (k, v)"
    by (auto simp: ref_set_def bucket_at_def split: option.splits)
  let ?b = "(?bs ! pos)\<lparr>b_value := Some (k, w)\<rparr>"
  from r pos kv have m': "m' = m\<lparr>m_buckets := ?bs[pos := ?b]\<rparr>"
    by (simp add: ref_set_def bucket_at_def)
  have c0: "m_capacity m \<noteq> 0"
  proof
    assume "m_capacity m = 0"
    with HashMap_invD(7) [OF inv] pos show False by simp
  qed
  have ok: "table_ok m" by (rule HashMap_invD(8) [OF inv c0])
  from table_ok_geometry [OF ok] obtain j where geo: "geometry m j" ..
  note cap = geometry_cap [OF geo]
  from pos cap have pc: "pos < m_capacity m" by simp
  note sl = slot_okD_Some [OF table_ok_slot [OF ok pc] kv]
  have "table_ok (m\<lparr>m_buckets := ?bs[pos := ?b]\<rparr>)"
  proof (rule table_ok_update [OF ok pc])
    show "b_value ?b = Some (k, w)" by simp
    show "b_hash ?b = unat (m_hasher m (fst (k, w)))" using sl by simp
    show "b_distance ?b = (pos + m_capacity m - b_hash ?b mod m_capacity m) mod m_capacity m"
      using sl by simp
    let ?r = "(pos + m_capacity m - 1) mod m_capacity m"
    from cap have r: "?r < m_capacity m" by simp
    have "(?r + 1) mod m_capacity m = pos"
      using circ_pred_succ [of "m_capacity m" pos] pc by simp
    with table_ok_rh [OF ok r] kv
    show "b_distance ?b = 0 \<or> (b_value (?bs ! ?r) \<noteq> None \<and> b_distance ?b \<le> b_distance (?bs ! ?r) + 1)"
      by (auto simp: rh_ok_def)
    from table_ok_rh [OF ok pc] kv
    show "b_value (?bs ! ((pos + 1) mod m_capacity m)) = None \<or>
       b_distance (?bs ! ((pos + 1) mod m_capacity m)) = 0 \<or>
       b_distance (?bs ! ((pos + 1) mod m_capacity m)) \<le> b_distance ?b + 1"
      by (auto simp: rh_ok_def)
  qed
  then have ok': "table_ok m'" by (simp add: m')
  from entries_update [OF pos, of ?b] kv
  have ms: "mset (entries m') + {#(k, v)#} = mset (entries m) + {#(k, w)#}" by (simp add: m')
  then have "image_mset fst (mset (entries m') + {#(k, v)#}) =
      image_mset fst (mset (entries m) + {#(k, w)#})" by simp
  then have "mset (map fst (entries m')) = mset (map fst (entries m))" by simp
  then have di: "distinct (map fst (entries m')) \<longleftrightarrow> distinct (map fst (entries m))"
    by (rule mset_eq_imp_distinct_iff)
  with HashMap_invD(4) [OF inv] have dis': "distinct (map fst (entries m'))" by simp
  from ms have "size (mset (entries m') + {#(k, v)#}) = size (mset (entries m) + {#(k, w)#})"
    by simp
  then have len: "length (entries m') = length (entries m)" by simp
  have inv': "HashMap_inv m'"
    unfolding HashMap_inv_def using HashMap_invD(1,2,3,5) [OF inv] len dis' ok' c0
    by (simp add: m')
  let ?m0 = "m\<lparr>m_buckets := ?bs[pos := (?bs ! pos)\<lparr>b_value := None\<rparr>]\<rparr>"
  from entries_update [OF pos, of "(?bs ! pos)\<lparr>b_value := None\<rparr>"] kv
  have m0: "mset (entries ?m0) + {#(k, v)#} = mset (entries m)" by simp
  have "mset (entries m') + {#(k, v)#} = (mset (entries ?m0) + {#(k, w)#}) + {#(k, v)#}"
    unfolding ms m0 [symmetric] by simp
  then have m0': "mset (entries m') = mset (entries ?m0) + {#(k, w)#}" by simp
  from lookup_mset_add [OF m0' dis'] lookup_mset_remove [OF m0 HashMap_invD(4) [OF inv]]
  have "lookup m' = (lookup m)(k \<mapsto> w)" by simp
  with pos kv inv' show ?thesis by blast
qed

lemma at_ref_spec:
  assumes inv: "HashMap_inv m"
  shows "at_ref m k = (case lookup m k of None \<Rightarrow> Some (Inl out_of_range)
      | Some v \<Rightarrow> Some (Inr (the (find_bucket m k (unat (m_hasher m k))))))"
    and "at_ref m k = Some (Inr pos) \<Longrightarrow>
      pos < length (m_buckets m) \<and> b_value (m_buckets m ! pos) = Some (k, the (lookup m k))"
proof -
  from find_bucket_check [OF inv refl, of k] obtain q where
    q: "find_bucket m k (unat (m_hasher m k)) = Some q"
      "check m q k (unat (m_hasher m k)) = Some (lookup m k \<noteq> None)"
      "\<forall>v. lookup m k = Some v \<longrightarrow>
         q < length (m_buckets m) \<and> b_value (m_buckets m ! q) = Some (k, v)"
    by blast
  have ne: "m_size m \<noteq> 0" if "lookup m k = Some v" for v
    using that HashMap_invD(3) [OF inv] by (auto simp: lookup_def)
  show 1: "at_ref m k = (case lookup m k of None \<Rightarrow> Some (Inl out_of_range)
      | Some v \<Rightarrow> Some (Inr (the (find_bucket m k (unat (m_hasher m k))))))"
    using q ne by (cases "lookup m k") (simp_all add: at_ref_def HashMap_empty_def)
  assume "at_ref m k = Some (Inr pos)"
  with 1 q show "pos < length (m_buckets m) \<and>
      b_value (m_buckets m ! pos) = Some (k, the (lookup m k))"
    by (cases "lookup m k") simp_all
qed

lemma index_op_spec:
  assumes inv: "HashMap_inv m" and r: "index_op d dflt m key = Some (m', pos)"
  shows "HashMap_inv m'"
    and "lookup m' = (case lookup m key of None \<Rightarrow> (lookup m)(key \<mapsto> dflt) | Some w \<Rightarrow> lookup m)"
    and "pos < length (m_buckets m')"
    and "b_value (m_buckets m' ! pos) = Some (key, the (lookup m' key))"
proof -
  let ?h = "unat (m_hasher m key)"
  from find_bucket_check [OF inv refl, of key] obtain q where
    q: "find_bucket m key ?h = Some q" "check m q key ?h = Some (lookup m key \<noteq> None)"
      "\<forall>v. lookup m key = Some v \<longrightarrow>
         q < length (m_buckets m) \<and> b_value (m_buckets m ! q) = Some (key, v)"
    by blast
  have *: "HashMap_inv m' \<and>
    lookup m' = (case lookup m key of None \<Rightarrow> (lookup m)(key \<mapsto> dflt) | Some w \<Rightarrow> lookup m) \<and>
    pos < length (m_buckets m') \<and> b_value (m_buckets m' ! pos) = Some (key, the (lookup m' key))"
  proof (cases "lookup m key")
    case None
    with r q have "insert_hash d m (key, dflt) ?h = Some (m', pos)"
      by (auto simp: index_op_def Let_def split: option.splits simp del: insert_hash.simps)
    from insert_hash_spec(1,3,4,5) [OF inv _ this] None show ?thesis by simp
  next
    case (Some w)
    with r q have "m' = m" "pos = q"
      by (auto simp: index_op_def Let_def split: option.splits simp del: insert_hash.simps)
    with Some q(3) inv show ?thesis by simp
  qed
  then show "HashMap_inv m'"
    and "lookup m' = (case lookup m key of None \<Rightarrow> (lookup m)(key \<mapsto> dflt) | Some w \<Rightarrow> lookup m)"
    and "pos < length (m_buckets m')"
    and "b_value (m_buckets m' ! pos) = Some (key, the (lookup m' key))"
    by blast+
qed

lemma HashMap_clear_inv: "HashMap_inv (HashMap_clear m)"
  by (simp add: HashMap_inv_def HashMap_clear_def entries_def List.map_filter_simps
      ceil_max_load_def floor_min_load_def)

lemma lookup_clear: "lookup (HashMap_clear m) = Map.empty"
  by (simp add: lookup_def HashMap_clear_def entries_def List.map_filter_simps)

text \<open>Whatever \<^verbatim>\<open>get_capacity\<close> returns is 0 or a power of two from 2 to \<open>2 ^ 63\<close>.\<close>

lemma pow2_le_63_cases:
  assumes "sz = 0 \<or> (\<exists>j \<le> 63. sz = (2::nat) ^ j)"
  obtains "sz = 0" | j where "j \<le> 62" "sz = 2 ^ j" | "sz = 2 ^ 63"
proof -
  from assms consider "sz = 0" | j where "j \<le> 63" "sz = 2 ^ j" by blast
  then show ?thesis
  proof cases
    case 1
    with that(1) show ?thesis .
  next
    case 2
    show ?thesis
    proof (cases "j = 63")
      case True
      with 2 that(3) show ?thesis by simp
    next
      case False
      with 2 have "j \<le> 62" by simp
      with 2 that(2) show ?thesis by blast
    qed
  qed
qed

lemma size_shl1_pow2_or_0:
  assumes "sz = 0 \<or> (\<exists>j \<le> 63. sz = 2 ^ j)"
  shows "size_shl1 sz = 0 \<or> (\<exists>j. 1 \<le> j \<and> j \<le> 63 \<and> size_shl1 sz = 2 ^ j)"
  using assms
proof (cases rule: pow2_le_63_cases)
  case 1
  then show ?thesis by (simp add: size_shl1_def)
next
  case (2 j)
  from size_shl1_pow2 [OF 2(1)] 2 have "size_shl1 sz = 2 ^ Suc j" "Suc j \<le> 63" by simp_all
  then show ?thesis by (intro disjI2 exI [of _ "Suc j"]) simp
next
  case 3
  then show ?thesis by (simp add: size_shl1_def)
qed

lemma get_capacity_loop_result:
  assumes "get_capacity_loop sz cnt = Some y"
  shows "sz = 0 \<or> (\<exists>j \<le> 63. sz = 2 ^ j) \<longrightarrow> y = 0 \<or> (\<exists>i \<le> 63. y = 2 ^ i)"
proof (rule get_capacity_loop.raw_induct
    [where P = "\<lambda>sz cnt y. sz = 0 \<or> (\<exists>j \<le> 63. sz = 2 ^ j) \<longrightarrow> y = 0 \<or> (\<exists>i \<le> 63. y = 2 ^ i)",
     OF _ assms])
  fix f :: "nat \<Rightarrow> nat \<Rightarrow> nat option" and sz cnt y
  assume ih: "\<And>sz cnt y. f sz cnt = Some y \<Longrightarrow>
      sz = 0 \<or> (\<exists>j \<le> 63. sz = 2 ^ j) \<longrightarrow> y = 0 \<or> (\<exists>i \<le> 63. y = 2 ^ i)"
    and eq: "(if sz < cnt then f (size_shl1 sz) cnt else Some sz) = Some y"
  show "sz = 0 \<or> (\<exists>j \<le> 63. sz = 2 ^ j) \<longrightarrow> y = 0 \<or> (\<exists>i \<le> 63. y = 2 ^ i)"
  proof
    assume sz: "sz = 0 \<or> (\<exists>j \<le> 63. sz = 2 ^ j)"
    show "y = 0 \<or> (\<exists>i \<le> 63. y = 2 ^ i)"
    proof (cases "sz < cnt")
      case True
      with eq have f: "f (size_shl1 sz) cnt = Some y" by simp
      from size_shl1_pow2_or_0 [OF sz]
      have "size_shl1 sz = 0 \<or> (\<exists>j \<le> 63. size_shl1 sz = 2 ^ j)" by blast
      with ih [OF f] show ?thesis by blast
    next
      case False
      with eq sz show ?thesis by simp
    qed
  qed
qed

lemma get_capacity_result:
  assumes "get_capacity cnt = Some cap"
  shows "cap = 0 \<or> (\<exists>k. 1 \<le> k \<and> k \<le> 63 \<and> cap = 2 ^ k)"
proof (cases "cnt = 0")
  case True
  with assms show ?thesis by (simp add: get_capacity_def)
next
  case False
  with assms obtain y where y: "get_capacity_loop 1 cnt = Some y" "cap = size_shl1 y"
    by (auto simp: get_capacity_def split: option.splits)
  have "(1::nat) = 0 \<or> (\<exists>j \<le> 63. (1::nat) = 2 ^ j)" by (intro disjI2 exI [of _ 0]) simp
  with get_capacity_loop_result [OF y(1)] have "y = 0 \<or> (\<exists>i \<le> 63. y = 2 ^ i)" by blast
  from size_shl1_pow2_or_0 [OF this] y(2) show ?thesis by simp
qed

lemma HashMap_new_inv:
  assumes "HashMap_new hasher cnt = Some m"
  shows "HashMap_inv m"
proof -
  from assms obtain cap bs where c: "get_capacity cnt = Some cap" "new_buckets cap = Some bs"
    and m: "m = update_sizes \<lparr>m_hasher = hasher, m_size = 0, m_capacity = cap,
        m_mask = (if cap \<noteq> 0 then size_sub cap 1 else 0), m_buckets = bs,
        m_max_size = 0, m_min_size = 0\<rparr>"
    by (auto simp: HashMap_new_def split: option.splits)
  from c(2) have bs: "bs = replicate cap HashBucket_new" and le: "cap \<le> vector_max_size"
    by (auto simp: new_buckets_def split: if_splits)
  from get_capacity_result [OF c(1)] show ?thesis
  proof
    assume "cap = 0"
    with m bs show ?thesis
      by (simp add: HashMap_inv_def update_sizes_def entries_def List.map_filter_simps
          ceil_max_load_def floor_min_load_def)
  next
    assume "\<exists>k. 1 \<le> k \<and> k \<le> 63 \<and> cap = 2 ^ k"
    then obtain k where k: "1 \<le> k" "cap = 2 ^ k" by blast
    let ?m = "\<lparr>m_hasher = hasher, m_size = 0, m_capacity = 0, m_mask = 0,
        m_buckets = [], m_max_size = 0, m_min_size = 0\<rparr> :: ('a, 'b) HashMap"
    from k le have le': "2 ^ k \<le> vector_max_size" by simp
    have "m = update_sizes (?m\<lparr>m_buckets := replicate (2 ^ k) HashBucket_new,
      m_capacity := 2 ^ k, m_mask := size_sub (2 ^ k) 1, m_size := 0\<rparr>)"
      using m bs k by simp
    with HashMap_inv_fresh [OF k(1) le', of ?m] show ?thesis by simp
  qed
qed

lemma apply_op_spec:
  assumes inv: "HashMap_inv m" and r: "apply_op d dflt m x = Some m'"
  shows "HashMap_inv m'"
    and "\<not> touches k x \<Longrightarrow> lookup m k = Some v \<Longrightarrow> lookup m' k = Some v"
proof -
  have "HashMap_inv m' \<and> (\<not> touches k x \<longrightarrow> lookup m k = Some v \<longrightarrow> lookup m' k = Some v)"
  proof (cases x)
    case (Insert kv)
    with r have "HashMap_insert d m kv = Some m'" by (simp del: HashMap_insert.simps)
    from HashMap_insert_spec [OF inv this] show ?thesis
      by (cases "lookup m (fst kv)") auto
  next
    case (Erase k')
    with r have "erase d m k' = Some m'" by simp
    from erase_spec [OF inv this] Erase show ?thesis by auto
  next
    case (Index k')
    with r obtain pos where "index_op d dflt m k' = Some (m', pos)"
      by (auto split: option.splits)
    from index_op_spec(1,2) [OF inv this] show ?thesis
      by (cases "lookup m k'") auto
  next
    case (Assign k' w)
    with r obtain m1 pos where i: "index_op d dflt m k' = Some (m1, pos)"
      and s: "ref_set m1 pos w = Some m'"
      by (auto split: option.splits)
    note I = index_op_spec [OF inv i]
    from ref_set_spec [OF I(1) s] I(4) have "HashMap_inv m'" "lookup m' = (lookup m1)(k' \<mapsto> w)"
      by auto
    with I(2) Assign show ?thesis by (cases "lookup m k'") auto
  next
    case (Assign_at k' w)
    show ?thesis
    proof (cases "lookup m k'")
      case None
      with r Assign_at at_ref_spec(1) [OF inv, of k'] have "m' = m" by simp
      with inv show ?thesis by simp
    next
      case (Some u)
      with r Assign_at at_ref_spec(1) [OF inv, of k'] obtain pos where
        a: "at_ref m k' = Some (Inr pos)" and s: "ref_set m pos w = Some m'" by simp
      from ref_set_spec [OF inv s] at_ref_spec(2) [OF inv a]
      have "HashMap_inv m'" "lookup m' = (lookup m)(k' \<mapsto> w)" by auto
      with Assign_at show ?thesis by auto
    qed
  next
    case Clear
    with r have "m' = HashMap_clear m" by simp
    with Clear HashMap_clear_inv show ?thesis by simp
  qed
  then show "HashMap_inv m'"
    and "\<not> touches k x \<Longrightarrow> lookup m k = Some v \<Longrightarrow> lookup m' k = Some v" by blast+
qed

lemma apply_ops_spec:
  "HashMap_inv m \<Longrightarrow> apply_ops d dflt m xs = Some m' \<Longrightarrow>
   HashMap_inv m' \<and> ((\<forall>x \<in> set xs. \<not> touches k x) \<longrightarrow> lookup m k = Some v \<longrightarrow> lookup m' k = Some v)"
proof (induction xs arbitrary: m)
  case Nil
  then show ?case by simp
next
  case (Cons x xs)
  from Cons.prems(2) obtain m1 where 1: "apply_op d dflt m x = Some m1"
    and 2: "apply_ops d dflt m1 xs = Some m'" by (auto split: option.splits)
  note A = apply_op_spec [OF Cons.prems(1) 1]
  from Cons.IH [OF A(1) 2] A(2) [of k v] show ?case by auto
qed

text \<open>Every reachable state satisfies the invariant.\<close>

lemma reachable_inv: "reachable m \<Longrightarrow> HashMap_inv m"
proof (induction rule: reachable.induct)
  case (reachable_new hasher cnt m)
  then show ?case by (rule HashMap_new_inv)
next
  case (reachable_op m d dflt x m')
  from apply_op_spec(1) [OF reachable_op.IH reachable_op.hyps(2)] show ?case .
qed

subsection \<open>Evaluation of the examples\<close>

lemma insert_hash_numeral_Suc:
  "insert_hash (numeral n) m v h = insert_hash (Suc (pred_numeral n)) m v h"
  by (simp only: numeral_eq_Suc)

lemma rehash_numeral_Suc: "rehash (numeral n) m sz = rehash (Suc (pred_numeral n)) m sz"
  by (simp only: numeral_eq_Suc)

lemmas insert_hash_numeral = insert_hash_numeral_Suc [THEN trans, OF insert_hash.simps(2)]

lemmas rehash_numeral = rehash_numeral_Suc [THEN trans, OF rehash.simps(2)]

lemma list_update_Cons_numeral: "(x # xs)[numeral n := y] = x # xs[pred_numeral n := y]"
  by (simp add: numeral_eq_Suc)

lemma replicate_numeral: "replicate (numeral n) x = x # replicate (pred_numeral n) x"
  by (simp add: numeral_eq_Suc)

lemmas eval_defs =
  HashMap_default_def update_sizes_def ceil_max_load_def floor_min_load_def find_bucket_def
  HashMap_empty_def check_def get_ideal_def get_capacity_def get_capacity_loop.simps
  size_add_def size_shl1_def size_sub_def insert_loop.simps bucket_at_def HashBucket_new_def
  HashBucket_empty_def UNOCCUPIED_def HashBucket_set_def HashBucket_clear_def
  find_bucket_loop.simps next_bucket_def HashBucket_swap_def destroy_value_def get_distance_def
  erase_loop.simps erase_hash_def erase_def new_buckets_def vector_max_size_def
  example_hasher_def occupied_bucket_def empty_bucket_def Let_def
  insert_hash_numeral rehash_numeral list_update_Cons_numeral replicate_numeral
  numeral_2_eq_2 [symmetric] numeral_3_eq_3 [symmetric]

lemma insert_default_1:
  "HashMap_insert 3 (HashMap_default example_hasher) (1, 10) = Some example_one"
  by (simp add: eval_defs example_one_def)

lemma insert_one_5:
  "HashMap_insert 3 example_one (5, 50) = Some example_1_5"
  by (simp add: eval_defs example_one_def example_1_5_def)

lemma insert_default_5:
  "HashMap_insert 3 (HashMap_default example_hasher) (5, 50 :: nat) =
     Some \<lparr>m_hasher = example_hasher, m_size = 1, m_capacity = 2, m_mask = 1,
       m_buckets = [empty_bucket 0, occupied_bucket 5 50 5 0], m_max_size = 1, m_min_size = 0\<rparr>"
  by (simp add: eval_defs)

lemma insert_5_1:
  "HashMap_insert 3 \<lparr>m_hasher = example_hasher, m_size = 1, m_capacity = 2, m_mask = 1,
       m_buckets = [empty_bucket 0, occupied_bucket 5 50 5 0], m_max_size = 1, m_min_size = 0\<rparr>
     (1, 10) = Some example_5_1"
  by (simp add: eval_defs example_5_1_def)

lemma erase_1_5: "erase 2 example_1_5 1 = Some example_5"
  by (simp add: eval_defs example_1_5_def example_5_def)

lemma erase_one: "erase 2 example_one 1 = Some example_erased"
  by (simp add: eval_defs example_one_def example_erased_def)

lemma insert_one_again: "HashMap_insert 3 example_one (1, 20) = Some example_one"
  by (simp add: eval_defs example_one_def)

lemma HashMap_new_0: "HashMap_new hasher 0 = Some (HashMap_default hasher)"
  by (simp add: HashMap_new_def HashMap_default_def get_capacity_def new_buckets_def)

lemma reachable_default: "reachable (HashMap_default hasher)"
  by (rule reachable_new [OF HashMap_new_0])

lemma reachable_apply_ops:
  "reachable m \<Longrightarrow> apply_ops d dflt m xs = Some m' \<Longrightarrow> reachable m'"
proof (induction xs arbitrary: m)
  case Nil
  then show ?case by simp
next
  case (Cons x xs)
  from Cons.prems(2) obtain m1 where 1: "apply_op d dflt m x = Some m1"
    and 2: "apply_ops d dflt m1 xs = Some m'" by (auto split: option.splits)
  from Cons.IH [OF reachable_op [OF Cons.prems(1) 1] 2] show ?case .
qed

lemma run_example_one:
  "apply_ops 3 0 (HashMap_default example_hasher) [Insert (1, 10)] = Some example_one"
  using insert_default_1 by (simp del: HashMap_insert.simps)

lemma run_example_1_5:
  "apply_ops 3 0 (HashMap_default example_hasher) [Insert (1, 10), Insert (5, 50)] =
     Some example_1_5"
  using insert_default_1 insert_one_5 by (simp del: HashMap_insert.simps)

lemma run_example_5_1:
  "apply_ops 3 0 (HashMap_default example_hasher) [Insert (5, 50), Insert (1, 10)] =
     Some example_5_1"
  using insert_default_5 insert_5_1 by (simp del: HashMap_insert.simps)

lemma run_example_erased:
  "apply_ops 3 0 (HashMap_default example_hasher) [Insert (1, 10), Erase 1] = Some example_erased"
proof -
  have "erase 3 example_one 1 = Some example_erased"
    by (simp add: eval_defs example_one_def example_erased_def)
  with insert_default_1 show ?thesis by (simp del: HashMap_insert.simps)
qed

lemma reachable_example_one: "reachable example_one"
  by (rule reachable_apply_ops [OF reachable_default run_example_one])

lemma reachable_example_1_5: "reachable example_1_5"
  by (rule reachable_apply_ops [OF reachable_default run_example_1_5])

lemma reachable_example_5_1: "reachable example_5_1"
  by (rule reachable_apply_ops [OF reachable_default run_example_5_1])

lemma entries_example_one: "entries example_one = [(1, 10)]"
  by (simp add: entries_def example_one_def List.map_filter_simps occupied_bucket_def
      empty_bucket_def)

lemma entries_example_1_5: "entries example_1_5 = [(1, 10), (5, 50)]"
  by (simp add: entries_def example_1_5_def List.map_filter_simps occupied_bucket_def
      empty_bucket_def)

subsection \<open>Lookup through an iterator\<close>

lemma find_spec:
  assumes inv: "HashMap_inv m"
  shows "lookup m k = None \<Longrightarrow> find m k = Some (end_iterator m)"
    and "lookup m k = Some v \<Longrightarrow>
      \<exists>it. find m k = Some it \<and> current it < end_it it \<and> deref m it = Some (k, v)"
proof -
  from find_bucket_check [OF inv refl, of k] obtain q where
    q: "find_bucket m k (unat (m_hasher m k)) = Some q"
      "check m q k (unat (m_hasher m k)) = Some (lookup m k \<noteq> None)"
      "\<forall>v. lookup m k = Some v \<longrightarrow>
         q < length (m_buckets m) \<and> b_value (m_buckets m ! q) = Some (k, v)"
    by blast
  show "find m k = Some (end_iterator m)" if "lookup m k = None"
    using that q by (simp add: find_def Let_def)
  show "\<exists>it. find m k = Some it \<and> current it < end_it it \<and> deref m it = Some (k, v)"
    if l: "lookup m k = Some v"
  proof -
    from l HashMap_invD(3) [OF inv] have "m_size m \<noteq> 0" by (auto simp: lookup_def)
    with q l have "find m k = Some (position_iterator m q)"
      by (simp add: find_def Let_def HashMap_empty_def)
    moreover from q(3) l have "current (position_iterator m q) < end_it (position_iterator m q)"
      "deref m (position_iterator m q) = Some (k, v)"
      by (simp_all add: position_iterator_def deref_def bucket_at_def)
    ultimately show ?thesis by blast
  qed
qed

subsection \<open>The steps of erase\<close>

text \<open>Erasing a stored key: the slot resolved, and what \<^verbatim>\<open>erase\<close> does after clearing it.\<close>

lemma erase_hash_unfold:
  assumes inv: "HashMap_inv m" and pr: "lookup m key = Some v"
    and h: "h = unat (m_hasher m key)"
  shows "\<exists>q. find_bucket m key h = Some q \<and> q < m_capacity m \<and>
      b_value (m_buckets m ! q) = Some (key, v) \<and>
      gap_ok (m\<lparr>m_buckets := (m_buckets m)
                 [q := (m_buckets m ! q)\<lparr>b_value := None, b_distance := UNOCCUPIED\<rparr>],
               m_size := m_size m - 1\<rparr>) q \<and>
      length (entries (m\<lparr>m_buckets := (m_buckets m)
                 [q := (m_buckets m ! q)\<lparr>b_value := None, b_distance := UNOCCUPIED\<rparr>],
               m_size := m_size m - 1\<rparr>)) = m_size m - 1 \<and>
      (\<forall>d. erase_hash d m key h =
        (if m_size m - 1 = 0 then
           Some (m\<lparr>m_buckets := (m_buckets m)
                 [q := (m_buckets m ! q)\<lparr>b_value := None, b_distance := UNOCCUPIED\<rparr>],
               m_size := m_size m - 1\<rparr>)
         else if m_size m - 1 < m_min_size m then
           (case get_capacity (m_size m - 1) of
              None \<Rightarrow> None
            | Some cap \<Rightarrow>
                rehash d (m\<lparr>m_buckets := (m_buckets m)
                 [q := (m_buckets m ! q)\<lparr>b_value := None, b_distance := UNOCCUPIED\<rparr>],
               m_size := m_size m - 1\<rparr>) cap)
         else erase_loop (m\<lparr>m_buckets := (m_buckets m)
                 [q := (m_buckets m ! q)\<lparr>b_value := None, b_distance := UNOCCUPIED\<rparr>],
               m_size := m_size m - 1\<rparr>) q
              (next_bucket (m\<lparr>m_buckets := (m_buckets m)
                 [q := (m_buckets m ! q)\<lparr>b_value := None, b_distance := UNOCCUPIED\<rparr>],
               m_size := m_size m - 1\<rparr>) q)))"
proof -
  let ?c = "m_capacity m"
  let ?bs = "m_buckets m"
  from find_bucket_check [OF inv h] pr obtain q where
    q: "find_bucket m key h = Some q" "check m q key h = Some True"
      "q < length ?bs" "b_value (?bs ! q) = Some (key, v)" by auto
  have c0: "?c \<noteq> 0"
  proof
    assume "?c = 0"
    with HashMap_invD(7) [OF inv] q(3) show False by simp
  qed
  have ok: "table_ok m" by (rule HashMap_invD(8) [OF inv c0])
  from table_ok_geometry [OF ok] obtain k where geo: "geometry m k" ..
  note cap = geometry_cap [OF geo]
  from q(3) cap have qc: "q < ?c" by simp
  let ?E = "(?bs ! q)\<lparr>b_value := None, b_distance := UNOCCUPIED\<rparr>"
  let ?m0 = "m\<lparr>m_buckets := ?bs[q := ?E]\<rparr>"
  let ?m1 = "m\<lparr>m_buckets := ?bs[q := ?E], m_size := m_size m - 1\<rparr>"
  from table_ok_dist_lt [OF ok qc q(4)] cap(5) have "b_distance (?bs ! q) \<noteq> UNOCCUPIED" by simp
  from HashBucket_clear_occupied [OF q(4) this]
  have cl: "HashBucket_clear (?bs ! q) = Some ?E" .
  have at: "bucket_at m q = Some (?bs ! q)" using q(3) by (simp add: bucket_at_def)
  from q(3,4) have "(key, v) \<in> set (entries m)" unfolding in_entries_iff by blast
  with HashMap_invD(3) [OF inv] have s1: "1 \<le> m_size m" by (cases "entries m") auto
  from HashMap_inv_size_small(1) [OF inv] have "m_size m < 2 ^ 64" by simp
  from size_sub_1_pos [OF s1 this] have ss: "size_sub (m_size m) 1 = m_size m - 1" .
  have gap0: "gap_ok ?m0 q" by (rule table_ok_clear [OF ok qc q(4)])
  have "gap_ok ?m1 q = gap_ok ?m0 q" by (rule gap_ok_cong) simp_all
  with gap0 have gap: "gap_ok ?m1 q" by simp
  from entries_update [OF q(3), of ?E] q(4)
  have ms0: "mset (entries ?m0) + {#(key, v)#} = mset (entries m)" by simp
  have en1: "entries ?m1 = entries ?m0" by (rule entries_cong) simp
  from ms0 have "size (mset (entries ?m0) + {#(key, v)#}) = size (mset (entries m))" by simp
  then have "length (entries ?m0) + 1 = length (entries m)" by simp
  with HashMap_invD(3) [OF inv] en1 have len: "length (entries ?m1) = m_size m - 1" by simp
  have unf: "\<forall>d. erase_hash d m key h =
     (if m_size m - 1 = 0 then Some ?m1
      else if m_size m - 1 < m_min_size m then
        (case get_capacity (m_size m - 1) of None \<Rightarrow> None | Some cap \<Rightarrow> rehash d ?m1 cap)
      else erase_loop ?m1 q (next_bucket ?m1 q))"
    using q(1,2) at cl ss
    by (simp add: erase_hash_def HashMap_empty_def Let_def cong: option.case_cong)
  from q(1) qc q(4) gap len unf show ?thesis by blast
qed

subsection \<open>The loop of the source and the pass of the specification\<close>

lemma geometry_spec_next:
  "geometry m k \<Longrightarrow> p < m_capacity m \<Longrightarrow> spec_next m p = (p + 1) mod m_capacity m"
proof -
  assume g: "geometry m k" and p: "p < m_capacity m"
  note cap = geometry_cap [OF g]
  from p cap(4) have "p < 2 ^ 63" by simp
  then have "size_add p 1 = p + 1" by (rule size_add_1_small)
  moreover from g have "m_mask m = 2 ^ k - 1" by (simp add: geometry_def)
  ultimately show ?thesis
    unfolding spec_next_def using cap(1) by (simp only: and_pow2_minus_1)
qed

lemma erase_loop_refines_spec:
  "gap_ok m g \<Longrightarrow> \<exists>p < m_capacity m. b_value (m_buckets m ! p) \<noteq> None \<Longrightarrow>
   erase_loop m g ((g + 1) mod m_capacity m) =
     backward_shift_spec m g ((g + 1) mod m_capacity m)"
proof (induction "dist_sum (m_buckets m)" arbitrary: m g rule: less_induct)
  case less
  let ?c = "m_capacity m"
  let ?bs = "m_buckets m"
  let ?t = "(g + 1) mod ?c"
  let ?u = "(?t + 1) mod ?c"
  note Gp = gap_okD [OF less.prems(1)]
  from Gp(1) obtain k where geo: "geometry m k" ..
  note cap = geometry_cap [OF geo]
  from cap have c: "0 < ?c" by simp
  have g: "g < ?c" by (rule Gp(2))
  have t: "?t < ?c" using c by simp
  have tg: "?t \<noteq> g" by (rule circ_succ_ne [OF cap(3) g])
  have at_t: "bucket_at m ?t = Some (?bs ! ?t)" using t cap(2) by (simp add: bucket_at_def)
  have at_g: "bucket_at m g = Some (?bs ! g)" using g cap(2) by (simp add: bucket_at_def)
  show ?case
  proof (cases "b_value (?bs ! ?t)")
    case None
    then have ok: "table_ok m" by (intro gap_ok_closed [OF less.prems(1)]) simp
    from slot_okD_None [OF Gp(4) [OF t] None]
    have du: "b_distance (?bs ! ?t) = UNOCCUPIED" .
    then have em: "HashBucket_empty (?bs ! ?t)" "b_distance (?bs ! ?t) \<noteq> 0"
      by (simp_all add: HashBucket_empty_def UNOCCUPIED_def)
    have step: "erase_loop m g ?t = erase_loop m g ?u"
      using at_t em geometry_next [OF geo t] by (subst erase_loop.simps) simp
    have u: "?u < ?c" using c by simp
    have pu: "b_value (?bs ! ((?u + ?c - 1) mod ?c)) = None"
      using circ_succ_pred [OF c, of ?t] t None by simp
    from less.prems(2) obtain e where e: "e < ?c" "b_value (?bs ! e) \<noteq> None" by blast
    from first_slot_from [of e ?c "\<lambda>b. b_value b \<noteq> None", OF e u]
    obtain n where n: "b_value (?bs ! ((?u + n) mod ?c)) \<noteq> None"
      "\<forall>j<n. \<not> b_value (?bs ! ((?u + j) mod ?c)) \<noteq> None" by blast
    from n(2) have n2: "\<forall>j<n. b_value (?bs ! ((?u + j) mod ?c)) = None" by blast
    from erase_loop_scan [OF ok u pu n(1) n2] step have "erase_loop m g ?t = Some m" by simp
    moreover have "backward_shift_spec m g ?t = Some m"
      using at_t em by (subst backward_shift_spec.simps) simp
    ultimately show ?thesis by simp
  next
    case (Some kv)
    show ?thesis
    proof (cases "b_distance (?bs ! ?t) = 0")
      case True
      have "erase_loop m g ?t = Some m"
        using at_t True by (subst erase_loop.simps) simp
      moreover have "backward_shift_spec m g ?t = Some m"
        using at_t True by (subst backward_shift_spec.simps) simp
      ultimately show ?thesis by simp
    next
      case False
      then have d: "0 < b_distance (?bs ! ?t)" by simp
      let ?h = "b_hash (?bs ! ?t)"
      let ?G = "(?bs ! g)\<lparr>b_value := Some kv, b_hash := ?h,
        b_distance := (g + ?c - ?h mod ?c) mod ?c\<rparr>"
      let ?E = "(?bs ! ?t)\<lparr>b_value := None, b_distance := UNOCCUPIED\<rparr>"
      let ?m' = "m\<lparr>m_buckets := ?bs[g := ?G, ?t := ?E]\<rparr>"
      note mv = gap_ok_move [OF less.prems(1) Some d]
      note st = slot_okD_Some [OF Gp(4) [OF t] Some]
      from st(2) c have "b_distance (?bs ! ?t) < ?c" by simp
      with cap(5) have ne: "b_distance (?bs ! ?t) \<noteq> UNOCCUPIED" by simp
      then have nem: "\<not> HashBucket_empty (?bs ! ?t)" by (simp add: HashBucket_empty_def)
      have cl: "HashBucket_clear (?bs ! ?t) = Some ?E"
        by (rule HashBucket_clear_occupied [OF Some ne])
      have i: "?h mod ?c < ?c" using c by simp
      have gd: "get_distance m (get_ideal m ?h) g = (g + ?c - ?h mod ?c) mod ?c"
        using geometry_distance [OF geo i g] geometry_ideal [OF geo, of ?h] by simp
      from slot_okD_None [OF Gp(4) [OF g] Gp(3)]
      have "b_distance (?bs ! g) = UNOCCUPIED" .
      then have se: "HashBucket_set kv ?h ((g + ?c - ?h mod ?c) mod ?c) (?bs ! g) = Some ?G"
        by (rule HashBucket_set_empty)
      have step: "erase_loop m g ?t = erase_loop ?m' ?t ?u"
        using at_t at_g False nem Some tg gd se cl geometry_next [OF geo g]
          geometry_next [OF geo t]
        by (subst erase_loop.simps) simp
      have step': "backward_shift_spec m g ?t = backward_shift_spec ?m' ?t ?u"
        using at_t at_g False nem Some gd geometry_spec_next [OF geo g]
          geometry_spec_next [OF geo t]
        by (subst backward_shift_spec.simps) simp
      have occ: "\<exists>p < m_capacity ?m'. b_value (m_buckets ?m' ! p) \<noteq> None"
      proof (intro exI [of _ g] conjI)
        show "g < m_capacity ?m'" using g by simp
        show "b_value (m_buckets ?m' ! g) \<noteq> None" using g cap(2) tg by simp
      qed
      from less.hyps [OF mv(2) mv(1) occ]
      have "erase_loop ?m' ?t ((?t + 1) mod m_capacity ?m') =
        backward_shift_spec ?m' ?t ((?t + 1) mod m_capacity ?m')" .
      with step step' show ?thesis by simp
    qed
  qed
qed

subsection \<open>Checked access and erasing an absent key\<close>

lemma at_spec:
  assumes inv: "HashMap_inv m"
  shows "at m k = (case lookup m k of None \<Rightarrow> Some (Inl out_of_range) | Some v \<Rightarrow> Some (Inr v))"
proof -
  from find_bucket_check [OF inv refl, of k] obtain q where
    q: "find_bucket m k (unat (m_hasher m k)) = Some q"
      "check m q k (unat (m_hasher m k)) = Some (lookup m k \<noteq> None)"
      "\<forall>v. lookup m k = Some v \<longrightarrow>
         q < length (m_buckets m) \<and> b_value (m_buckets m ! q) = Some (k, v)"
    by blast
  show ?thesis
  proof (cases "lookup m k")
    case None
    with q show ?thesis by (simp add: at_def at_ref_def)
  next
    case (Some v)
    with q(3) have s: "q < length (m_buckets m)" "b_value (m_buckets m ! q) = Some (k, v)"
      by simp_all
    from Some HashMap_invD(3) [OF inv] have "m_size m \<noteq> 0" by (auto simp: lookup_def)
    with q(1,2) s Some show ?thesis
      by (simp add: at_def at_ref_def HashMap_empty_def ref_get_def bucket_at_def)
  qed
qed

lemma erase_absent:
  assumes inv: "HashMap_inv m" and ab: "lookup m k = None"
  shows "erase d m k = Some m"
  using find_bucket_check [OF inv refl, of k] ab by (auto simp: erase_def erase_hash_def)

lemma map_filter_Nil_iff: "List.map_filter f xs = [] \<longleftrightarrow> (\<forall>x \<in> set xs. f x = None)"
  by (induction xs) (auto simp: List.map_filter_simps split: option.splits)

subsection \<open>Erasing the last key\<close>

lemma erase_last:
  assumes inv: "HashMap_inv m" and s: "m_size m = 1" and l: "lookup m k = Some v"
  shows "\<exists>bs'. erase d m k = Some (m\<lparr>m_buckets := bs', m_size := 0\<rparr>) \<and>
    length bs' = m_capacity m \<and> m_capacity m \<noteq> 0 \<and> (\<forall>b \<in> set bs'. HashBucket_empty b)"
proof -
  from erase_hash_unfold [OF inv l refl] obtain q where
    q: "q < m_capacity m"
    and unf: "\<forall>d. erase_hash d m k (unat (m_hasher m k)) =
        (if m_size m - 1 = 0 then
           Some (m\<lparr>m_buckets := (m_buckets m)
                 [q := (m_buckets m ! q)\<lparr>b_value := None, b_distance := UNOCCUPIED\<rparr>],
               m_size := m_size m - 1\<rparr>)
         else if m_size m - 1 < m_min_size m then
           (case get_capacity (m_size m - 1) of
              None \<Rightarrow> None
            | Some cap \<Rightarrow>
                rehash d (m\<lparr>m_buckets := (m_buckets m)
                 [q := (m_buckets m ! q)\<lparr>b_value := None, b_distance := UNOCCUPIED\<rparr>],
               m_size := m_size m - 1\<rparr>) cap)
         else erase_loop (m\<lparr>m_buckets := (m_buckets m)
                 [q := (m_buckets m ! q)\<lparr>b_value := None, b_distance := UNOCCUPIED\<rparr>],
               m_size := m_size m - 1\<rparr>) q
              (next_bucket (m\<lparr>m_buckets := (m_buckets m)
                 [q := (m_buckets m ! q)\<lparr>b_value := None, b_distance := UNOCCUPIED\<rparr>],
               m_size := m_size m - 1\<rparr>) q))"
    by blast
  let ?bs' = "(m_buckets m)[q := (m_buckets m ! q)\<lparr>b_value := None, b_distance := UNOCCUPIED\<rparr>]"
  let ?m' = "m\<lparr>m_buckets := ?bs', m_size := 0\<rparr>"
  from unf s have e: "erase d m k = Some ?m'" by (simp add: erase_def)
  from q have c0: "m_capacity m \<noteq> 0" by simp
  from table_ok_geometry [OF HashMap_invD(8) [OF inv c0]] obtain j where "geometry m j" ..
  from geometry_cap(2) [OF this] have len: "length ?bs' = m_capacity m" by simp
  note inv' = erase_spec(1) [OF inv e]
  from HashMap_invD(3) [OF inv'] have "entries ?m' = []" by simp
  then have "\<forall>b \<in> set ?bs'. b_value b = None" by (simp add: entries_def map_filter_Nil_iff)
  with HashMap_inv_consistent [OF inv'] have "\<forall>b \<in> set ?bs'. HashBucket_empty b" by simp
  with e len c0 show ?thesis by blast
qed

subsection \<open>The first two insertions into a default-constructed map\<close>

lemma HashMap_inv_default: "HashMap_inv (HashMap_default hasher)"
  by (rule reachable_inv [OF reachable_default])

lemma lookup_default: "lookup (HashMap_default hasher) k = None"
  by (simp add: lookup_def entries_def HashMap_default_def update_sizes_def List.map_filter_simps)

lemma get_capacity_1: "get_capacity 1 = Some 2" "get_capacity (Suc 0) = Some 2"
  by (simp_all add: get_capacity_def get_capacity_loop.simps size_shl1_def)

lemma get_capacity_2: "get_capacity 2 = Some 4" "get_capacity (Suc (Suc 0)) = Some 4"
  by (simp_all add: get_capacity_def get_capacity_loop.simps size_shl1_def)

lemma HashMap_insert_new_key:
  assumes inv: "HashMap_inv m" and ab: "lookup m (fst kv) = None"
    and sz: "4 * (m_size m + 1) \<le> vector_max_size"
  shows "\<exists>m'. (\<forall>d. HashMap_insert (Suc (Suc (Suc d))) m kv = Some m') \<and> HashMap_inv m' \<and>
    lookup m' = (lookup m)(fst kv \<mapsto> snd kv) \<and> m_hasher m' = m_hasher m \<and>
    m_size m' = m_size m + 1 \<and>
    m_capacity m' = (if m_size m = m_max_size m then the (get_capacity (m_size m + 1))
                     else m_capacity m)"
proof -
  from insert_hash_new_key [OF inv ab refl] sz obtain m' pos where
    r: "\<forall>d. insert_hash (Suc (Suc (Suc d))) m kv (unat (m_hasher m (fst kv))) = Some (m', pos)"
    by blast
  then have r0: "insert_hash (Suc (Suc (Suc 0))) m kv (unat (m_hasher m (fst kv))) = Some (m', pos)"
    by blast
  note S = insert_hash_spec [OF inv refl r0]
  from r have "\<forall>d. HashMap_insert (Suc (Suc (Suc d))) m kv = Some m'"
    by (simp del: insert_hash.simps)
  with S(1,2) S(3,6,7) [unfolded ab] show ?thesis by (intro exI [of _ m']) simp
qed

subsection \<open>A table read from an empty bucket onwards\<close>

text \<open>Positions are counted from a bucket \<open>e\<close>: step \<open>t\<close> is bucket \<open>(e + t) mod c\<close>.\<close>

lemma mod_twice: "a < 2 * c \<Longrightarrow> a mod c = (if a < c then a else a - (c::nat))"
  by (simp add: le_mod_geq)

lemma circ_pos_inj:
  assumes "(e + x) mod c = (e + y) mod c" "x < c" "y < (c::nat)"
  shows "x = y"
proof -
  from assms(2) have c: "0 < c" by simp
  have "(e mod c + x) mod c = (e mod c + y) mod c"
    using assms(1) by (simp only: mod_add_left_eq)
  moreover have "e mod c + x < 2 * c" "e mod c + y < 2 * c"
    using assms(2,3) mod_less_divisor [OF c, of e] by linarith+
  ultimately show ?thesis
    using assms(2,3) mod_less_divisor [OF c, of e]
    by (simp only: mod_twice split: if_splits)
qed

lemma circ_pos_dist:
  assumes "e < c" "t < (c::nat)"
  shows "((e + t) mod c + c - e) mod c = t"
proof -
  have "((e + t) mod c + c - e) mod c = ((e + t) mod c + (c - e)) mod c" using assms by simp
  also have "\<dots> = ((e + t) + (c - e)) mod c" by (rule mod_add_left_eq)
  also from assms have "(e + t) + (c - e) = t + c" by simp
  finally show ?thesis using assms by simp
qed

lemma circ_pos_Suc: "(e + Suc t) mod c = ((e + t) mod c + 1) mod (c::nat)"
  by (simp add: mod_Suc_eq)

text \<open>Counted from an empty bucket, no pair is displaced as far as its step.\<close>

lemma linear_dist_lt:
  assumes ok: "table_ok m" and e: "e < m_capacity m" "b_value (m_buckets m ! e) = None"
  shows "t < m_capacity m \<Longrightarrow>
    b_value (m_buckets m ! ((e + t) mod m_capacity m)) \<noteq> None \<Longrightarrow>
    b_distance (m_buckets m ! ((e + t) mod m_capacity m)) < t"
proof (induction t)
  case 0
  with e show ?case by simp
next
  case (Suc t)
  let ?c = "m_capacity m"
  let ?p = "(e + t) mod ?c"
  let ?q = "(e + Suc t) mod ?c"
  have q: "?q = (?p + 1) mod ?c" by (rule circ_pos_Suc)
  from Suc.prems have p: "?p < ?c" by simp
  have "b_value (m_buckets m ! ?q) = None \<or> b_distance (m_buckets m ! ?q) = 0 \<or>
      (b_value (m_buckets m ! ?p) \<noteq> None \<and>
       b_distance (m_buckets m ! ?q) \<le> b_distance (m_buckets m ! ?p) + 1)"
    using table_ok_rh [OF ok p] unfolding rh_ok_def q .
  with Suc.prems(2)
  consider "b_distance (m_buckets m ! ?q) = 0"
    | "b_value (m_buckets m ! ?p) \<noteq> None"
      "b_distance (m_buckets m ! ?q) \<le> b_distance (m_buckets m ! ?p) + 1"
    by fastforce
  then show ?case
  proof cases
    case 1
    then show ?thesis by simp
  next
    case 2
    from Suc.IH [OF _ 2(1)] Suc.prems(1) have "b_distance (m_buckets m ! ?p) < t" by simp
    with 2(2) show ?thesis by simp
  qed
qed

text \<open>The ideal buckets of the stored pairs, counted from an empty bucket, rise with the step.\<close>

lemma linear_ideal_mono:
  assumes ok: "table_ok m" and e: "e < m_capacity m" "b_value (m_buckets m ! e) = None"
  shows "t2 < m_capacity m \<Longrightarrow> t1 \<le> t2 \<Longrightarrow>
    b_value (m_buckets m ! ((e + t1) mod m_capacity m)) \<noteq> None \<Longrightarrow>
    b_value (m_buckets m ! ((e + t2) mod m_capacity m)) \<noteq> None \<Longrightarrow>
    t1 - b_distance (m_buckets m ! ((e + t1) mod m_capacity m)) \<le>
    t2 - b_distance (m_buckets m ! ((e + t2) mod m_capacity m))"
proof (induction t2)
  case 0
  then show ?case by simp
next
  case (Suc t)
  let ?c = "m_capacity m"
  let ?d = "\<lambda>t. b_distance (m_buckets m ! ((e + t) mod ?c))"
  let ?p = "(e + t) mod ?c"
  let ?q = "(e + Suc t) mod ?c"
  show ?case
  proof (cases "t1 = Suc t")
    case True
    then show ?thesis by simp
  next
    case False
    with Suc.prems(2) have t1: "t1 \<le> t" by simp
    have q: "?q = (?p + 1) mod ?c" by (rule circ_pos_Suc)
    from Suc.prems have p: "?p < ?c" by simp
    have "b_value (m_buckets m ! ?q) = None \<or> b_distance (m_buckets m ! ?q) = 0 \<or>
        (b_value (m_buckets m ! ?p) \<noteq> None \<and>
         b_distance (m_buckets m ! ?q) \<le> b_distance (m_buckets m ! ?p) + 1)"
      using table_ok_rh [OF ok p] unfolding rh_ok_def q .
    with Suc.prems(4)
    consider "?d (Suc t) = 0"
      | "b_value (m_buckets m ! ?p) \<noteq> None" "?d (Suc t) \<le> ?d t + 1"
      by fastforce
    then show ?thesis
    proof cases
      case 1
      with t1 show ?thesis by simp
    next
      case 2
      from Suc.prems(1) have tc: "t < ?c" by simp
      from Suc.IH [OF tc t1 Suc.prems(3) 2(1)] have "t1 - ?d t1 \<le> t - ?d t" .
      moreover from linear_dist_lt [OF ok e tc 2(1)] have "?d t < t" .
      ultimately show ?thesis using 2(2) by simp
    qed
  qed
qed

text \<open>Where the ideal bucket of a stored pair lies, counted from an empty bucket.\<close>

lemma linear_ideal:
  assumes ok: "table_ok m" and e: "e < m_capacity m" "b_value (m_buckets m ! e) = None"
    and t: "t < m_capacity m"
    and v: "b_value (m_buckets m ! ((e + t) mod m_capacity m)) = Some kv"
  shows "unat (m_hasher m (fst kv)) mod m_capacity m =
    (e + (t - b_distance (m_buckets m ! ((e + t) mod m_capacity m)))) mod m_capacity m"
    and "b_hash (m_buckets m ! ((e + t) mod m_capacity m)) mod m_capacity m =
    (e + (t - b_distance (m_buckets m ! ((e + t) mod m_capacity m)))) mod m_capacity m"
proof -
  let ?c = "m_capacity m"
  let ?p = "(e + t) mod ?c"
  let ?d = "b_distance (m_buckets m ! ?p)"
  let ?i = "unat (m_hasher m (fst kv)) mod ?c"
  from t have p: "?p < ?c" by simp
  from t have i: "?i < ?c" by simp
  note s = slot_okD_Some [OF table_ok_slot [OF ok p] v]
  from linear_dist_lt [OF ok e t] v have d: "?d < t" by simp
  from s(2) have "(?i + ?d) mod ?c = (?i + (?p + ?c - ?i) mod ?c) mod ?c" by simp
  also have "\<dots> = ?p" by (rule circ_dist_pos [OF p i])
  finally have 1: "(?i + ?d) mod ?c = ?p" .
  have "((e + (t - ?d)) mod ?c + ?d) mod ?c = ((e + (t - ?d)) + ?d) mod ?c"
    by (rule mod_add_left_eq)
  also from d have "(e + (t - ?d)) + ?d = e + t" by simp
  finally have 2: "((e + (t - ?d)) mod ?c + ?d) mod ?c = ?p" .
  have "(?d + ?i) mod ?c = (?d + (e + (t - ?d)) mod ?c) mod ?c"
    using 1 2 by (simp add: add.commute)
  from circ_pos_inj [OF this i] t show "?i = (e + (t - ?d)) mod ?c" by simp
  with s(1) show "b_hash (m_buckets m ! ?p) mod ?c = (e + (t - ?d)) mod ?c" by simp
qed

subsection \<open>The stored pairs, read from a bucket onwards\<close>

lemma map_nth_rotate:
  assumes "e < length bs"
  shows "map (\<lambda>t. bs ! ((e + t) mod length bs)) [0..<length bs] = rotate e bs"
  by (rule nth_equalityI) (simp_all add: nth_rotate)

lemma mset_map_filter_append:
  "mset (List.map_filter f (xs @ ys)) = mset (List.map_filter f xs) + mset (List.map_filter f ys)"
  by (simp add: List.map_filter_def)

lemma mset_map_filter_rotate: "mset (List.map_filter f (rotate e bs)) = mset (List.map_filter f bs)"
proof -
  let ?k = "e mod length bs"
  have "mset (List.map_filter f (rotate e bs)) =
      mset (List.map_filter f (drop ?k bs)) + mset (List.map_filter f (take ?k bs))"
    unfolding rotate_drop_take by (rule mset_map_filter_append)
  also have "\<dots> = mset (List.map_filter f (take ?k bs)) + mset (List.map_filter f (drop ?k bs))"
    by (rule add.commute)
  also have "\<dots> = mset (List.map_filter f (take ?k bs @ drop ?k bs))"
    by (rule mset_map_filter_append [symmetric])
  finally show ?thesis by (simp only: append_take_drop_id)
qed

lemma entries_from:
  assumes "length (m_buckets m) = c" "e < c"
  shows "mset (entries m) =
    mset (map (\<lambda>t. the (b_value (m_buckets m ! ((e + t) mod c))))
      (filter (\<lambda>t. b_value (m_buckets m ! ((e + t) mod c)) \<noteq> None) [0..<c]))"
proof -
  let ?bs = "m_buckets m"
  have "mset (entries m) = mset (List.map_filter b_value (rotate e ?bs))"
    by (simp add: entries_def mset_map_filter_rotate)
  also have "rotate e ?bs = map (\<lambda>t. ?bs ! ((e + t) mod c)) [0..<c]"
    using map_nth_rotate [of e ?bs] assms by simp
  finally show ?thesis by (simp add: List.map_filter_def comp_def filter_map)
qed

text \<open>Counting the stored pairs by their ideal buckets, from an empty bucket.\<close>

lemma ideals_from:
  assumes ok: "table_ok m" and e: "e < m_capacity m" "b_value (m_buckets m ! e) = None"
  shows "image_mset (\<lambda>kv. G (unat (m_hasher m (fst kv)) mod m_capacity m)) (mset (entries m)) =
    mset (map (\<lambda>t. G ((e + (t - b_distance (m_buckets m ! ((e + t) mod m_capacity m))))
                     mod m_capacity m))
      (filter (\<lambda>t. b_value (m_buckets m ! ((e + t) mod m_capacity m)) \<noteq> None)
         [0..<m_capacity m]))"
proof -
  let ?c = "m_capacity m"
  let ?bs = "m_buckets m"
  let ?ts = "filter (\<lambda>t. b_value (?bs ! ((e + t) mod ?c)) \<noteq> None) [0..<?c]"
  from table_ok_geometry [OF ok] obtain k where "geometry m k" ..
  from geometry_cap(2) [OF this] have len: "length ?bs = ?c" .
  have "image_mset (\<lambda>kv. G (unat (m_hasher m (fst kv)) mod ?c)) (mset (entries m)) =
      mset (map (\<lambda>t. G (unat (m_hasher m (fst (the (b_value (?bs ! ((e + t) mod ?c)))))) mod ?c))
        ?ts)"
    unfolding entries_from [OF len e(1)] by (simp only: mset_map [symmetric] map_map comp_def)
  also have "map (\<lambda>t. G (unat (m_hasher m (fst (the (b_value (?bs ! ((e + t) mod ?c)))))) mod ?c))
        ?ts =
      map (\<lambda>t. G ((e + (t - b_distance (?bs ! ((e + t) mod ?c)))) mod ?c)) ?ts"
  proof (rule map_cong [OF refl])
    fix t assume "t \<in> set ?ts"
    then have t: "t < ?c" and "b_value (?bs ! ((e + t) mod ?c)) \<noteq> None" by simp_all
    then obtain kv where kv: "b_value (?bs ! ((e + t) mod ?c)) = Some kv" by auto
    from linear_ideal(1) [OF ok e t kv] kv
    show "G (unat (m_hasher m (fst (the (b_value (?bs ! ((e + t) mod ?c)))))) mod ?c) =
      G ((e + (t - b_distance (?bs ! ((e + t) mod ?c)))) mod ?c)" by simp
  qed
  finally show ?thesis .
qed

lemma size_filter_mset_map:
  "size (filter_mset P (mset (map f xs))) = length (filter (\<lambda>x. P (f x)) xs)"
  by (induction xs) simp_all

lemma count_ideals_from:
  assumes ok: "table_ok m" and e: "e < m_capacity m" "b_value (m_buckets m ! e) = None"
  shows "size (filter_mset P
      (image_mset (\<lambda>kv. unat (m_hasher m (fst kv)) mod m_capacity m) (mset (entries m)))) =
    card {t. t < m_capacity m \<and> b_value (m_buckets m ! ((e + t) mod m_capacity m)) \<noteq> None \<and>
      P ((e + (t - b_distance (m_buckets m ! ((e + t) mod m_capacity m)))) mod m_capacity m)}"
proof -
  let ?c = "m_capacity m"
  let ?occ = "\<lambda>t. b_value (m_buckets m ! ((e + t) mod ?c)) \<noteq> None"
  let ?phi = "\<lambda>t. (e + (t - b_distance (m_buckets m ! ((e + t) mod ?c)))) mod ?c"
  have "size (filter_mset P
      (image_mset (\<lambda>kv. unat (m_hasher m (fst kv)) mod ?c) (mset (entries m)))) =
    length (filter (\<lambda>t. ?occ t \<and> P (?phi t)) [0..<?c])"
    unfolding ideals_from [OF ok e, of "\<lambda>x. x"]
    by (simp only: size_filter_mset_map filter_filter)
  also have "\<dots> = card {t. t < ?c \<and> ?occ t \<and> P (?phi t)}"
    unfolding length_filter_conv_card by (rule arg_cong [of _ _ card]) auto
  finally show ?thesis .
qed

subsection \<open>The empty buckets are determined by the ideal buckets of the stored pairs\<close>

text \<open>Of the pairs whose ideal bucket is among the \<open>j\<close> buckets that end at an empty
  bucket \<open>e\<close>, each is stored in one of the \<open>j - 1\<close> buckets before \<open>e\<close>.\<close>

lemma window_before_empty:
  assumes ok: "table_ok m" and e: "e < m_capacity m" "b_value (m_buckets m ! e) = None"
    and j: "1 \<le> j" "j \<le> m_capacity m"
  shows "size (filter_mset (\<lambda>x. x \<in> (\<lambda>i. (e + m_capacity m - i) mod m_capacity m) ` {..<j})
      (image_mset (\<lambda>kv. unat (m_hasher m (fst kv)) mod m_capacity m) (mset (entries m)))) < j"
proof -
  let ?c = "m_capacity m"
  let ?W = "(\<lambda>i. (e + ?c - i) mod ?c) ` {..<j}"
  let ?d = "\<lambda>t. b_distance (m_buckets m ! ((e + t) mod ?c))"
  let ?S = "{t. t < ?c \<and> b_value (m_buckets m ! ((e + t) mod ?c)) \<noteq> None \<and>
    (e + (t - ?d t)) mod ?c \<in> ?W}"
  have "?S \<subseteq> {?c - j<..<?c}"
  proof
    fix t assume "t \<in> ?S"
    then have t: "t < ?c" and occ: "b_value (m_buckets m ! ((e + t) mod ?c)) \<noteq> None"
      and "(e + (t - ?d t)) mod ?c \<in> ?W" by simp_all
    then obtain i where i: "i < j" "(e + (t - ?d t)) mod ?c = (e + ?c - i) mod ?c" by auto
    from linear_dist_lt [OF ok e t occ] have d: "?d t < t" .
    with t have g: "t - ?d t < ?c" "0 < t - ?d t" by simp_all
    have "?c - j < t - ?d t"
    proof (cases "i = 0")
      case True
      with i(2) have "(e + (t - ?d t)) mod ?c = (e + 0) mod ?c" by simp
      from circ_pos_inj [OF this g(1)] e(1) g(2) show ?thesis by simp
    next
      case False
      with i(1) j(2) e(1) have "e + ?c - i = e + (?c - i)" "?c - i < ?c" by simp_all
      with i(2) have "(e + (t - ?d t)) mod ?c = (e + (?c - i)) mod ?c" by simp
      from circ_pos_inj [OF this g(1) \<open>?c - i < ?c\<close>] i(1) j(2) show ?thesis by simp
    qed
    with t show "t \<in> {?c - j<..<?c}" by simp
  qed
  then have "card ?S \<le> card {?c - j<..<?c}" by (intro card_mono) simp_all
  also have "\<dots> < j" using j by simp
  finally show ?thesis unfolding count_ideals_from [OF ok e] .
qed

text \<open>When the \<open>j\<close> buckets after an empty bucket \<open>f\<close> are occupied, the pairs stored in them
  have their ideal buckets among them.\<close>

lemma window_after_empty:
  assumes ok: "table_ok m" and f: "f < m_capacity m" "b_value (m_buckets m ! f) = None"
    and j: "j < m_capacity m"
    and occ: "\<forall>s. 1 \<le> s \<and> s \<le> j \<longrightarrow> b_value (m_buckets m ! ((f + s) mod m_capacity m)) \<noteq> None"
    and P: "\<forall>g. 1 \<le> g \<and> g \<le> j \<longrightarrow> P ((f + g) mod m_capacity m)"
  shows "j \<le> size (filter_mset P
      (image_mset (\<lambda>kv. unat (m_hasher m (fst kv)) mod m_capacity m) (mset (entries m))))"
proof -
  let ?c = "m_capacity m"
  let ?d = "\<lambda>t. b_distance (m_buckets m ! ((f + t) mod ?c))"
  let ?S = "{t. t < ?c \<and> b_value (m_buckets m ! ((f + t) mod ?c)) \<noteq> None \<and>
    P ((f + (t - ?d t)) mod ?c)}"
  have "{1..j} \<subseteq> ?S"
  proof
    fix t assume "t \<in> {1..j}"
    then have t: "1 \<le> t" "t \<le> j" by simp_all
    with j have tc: "t < ?c" by simp
    from occ t have o: "b_value (m_buckets m ! ((f + t) mod ?c)) \<noteq> None" by simp
    from linear_dist_lt [OF ok f tc o] have "?d t < t" .
    with t have "1 \<le> t - ?d t \<and> t - ?d t \<le> j" by linarith
    from P [rule_format, OF this] have "P ((f + (t - ?d t)) mod ?c)" .
    with tc o show "t \<in> ?S" by blast
  qed
  then have "card {1..j} \<le> card ?S" by (intro card_mono) simp_all
  then show ?thesis unfolding count_ideals_from [OF ok f] by simp
qed

lemma circ_back_fwd:
  assumes "s \<le> j" "j \<le> (c::nat)"
  shows "((e + c - j) mod c + s) mod c = (e + c - (j - s)) mod c"
proof -
  have "((e + c - j) mod c + s) mod c = ((e + c - j) + s) mod c" by (rule mod_add_left_eq)
  also from assms have "(e + c - j) + s = e + c - (j - s)" by simp
  finally show ?thesis .
qed

lemma circ_back_dist:
  assumes "e < c" "f < (c::nat)"
  shows "(e + c - (e + c - f) mod c) mod c = f"
proof -
  let ?i = "(e + c - f) mod c"
  from assms have i: "?i < c" by simp
  have "(f + ?i) mod c = e" by (rule circ_dist_pos [OF assms])
  moreover have "((e + c - ?i) mod c + ?i) mod c = ((e + c - ?i) + ?i) mod c"
    by (rule mod_add_left_eq)
  moreover from i have "(e + c - ?i) + ?i = e + c" by simp
  ultimately have "(?i + f) mod c = (?i + (e + c - ?i) mod c) mod c"
    using assms by (simp add: add.commute)
  from circ_pos_inj [OF this assms(2)] assms show ?thesis by simp
qed

text \<open>Two tables of the same capacity that store the same pairs under the same hash
  function have the same empty buckets.\<close>

lemma empty_in_both:
  assumes oka: "table_ok a" and okb: "table_ok b"
    and cap: "m_capacity b = m_capacity a" and hs: "m_hasher b = m_hasher a"
    and ms: "mset (entries b) = mset (entries a)"
    and f0: "f0 < m_capacity a" "b_value (m_buckets b ! f0) = None"
    and e: "e < m_capacity a" "b_value (m_buckets a ! e) = None"
  shows "b_value (m_buckets b ! e) = None"
proof (rule ccontr)
  assume occ_e: "b_value (m_buckets b ! e) \<noteq> None"
  let ?c = "m_capacity a"
  let ?Q = "\<lambda>i. b_value (m_buckets b ! ((e + ?c - i) mod ?c)) = None"
  let ?i0 = "(e + ?c - f0) mod ?c"
  define j where "j = (LEAST i. ?Q i)"
  from circ_back_dist [OF e(1) f0(1)] f0(2) have "?Q ?i0" by simp
  then have Qj: "?Q j" and "j \<le> ?i0" unfolding j_def by (rule LeastI, rule Least_le)
  with e(1) have jc: "j < ?c" by (simp add: order.strict_trans1)
  have least: "\<not> ?Q i" if "i < j" for i using that not_less_Least unfolding j_def by blast
  from occ_e e(1) have "\<not> ?Q 0" by simp
  with Qj have j0: "1 \<le> j" by (cases j) auto
  let ?f = "(e + ?c - j) mod ?c"
  let ?W = "(\<lambda>i. (e + ?c - i) mod ?c) ` {..<j}"
  let ?I = "image_mset (\<lambda>kv. unat (m_hasher a (fst kv)) mod ?c) (mset (entries a))"
  from e(1) have f: "?f < m_capacity b" unfolding cap by simp
  have step: "(?f + s) mod ?c = (e + ?c - (j - s)) mod ?c" if "s \<le> j" for s
    using circ_back_fwd [OF that, of ?c e] jc by simp
  have occ: "\<forall>s. 1 \<le> s \<and> s \<le> j \<longrightarrow> b_value (m_buckets b ! ((?f + s) mod m_capacity b)) \<noteq> None"
  proof (intro allI impI)
    fix s assume s: "1 \<le> s \<and> s \<le> j"
    then have "j - s < j" by simp
    from least [OF this] step [of s] s
    show "b_value (m_buckets b ! ((?f + s) mod m_capacity b)) \<noteq> None" unfolding cap by simp
  qed
  have P: "\<forall>g. 1 \<le> g \<and> g \<le> j \<longrightarrow> (?f + g) mod m_capacity b \<in> ?W"
  proof (intro allI impI)
    fix g assume g: "1 \<le> g \<and> g \<le> j"
    then have lt: "j - g \<in> {..<j}" and le: "g \<le> j" by simp_all
    show "(?f + g) mod m_capacity b \<in> ?W"
      unfolding cap
      by (rule image_eqI [where f = "\<lambda>i. (e + ?c - i) mod ?c" and x = "j - g"])
        (rule step [OF le], rule lt)
  qed
  from jc have jb: "j < m_capacity b" unfolding cap .
  from Qj have fe: "b_value (m_buckets b ! ?f) = None" .
  from window_after_empty [OF okb f fe jb occ P]
  have "j \<le> size (filter_mset (\<lambda>x. x \<in> ?W) ?I)" unfolding cap hs ms .
  moreover from window_before_empty [OF oka e j0] jc
  have "size (filter_mset (\<lambda>x. x \<in> ?W) ?I) < j" by simp
  ultimately show False by simp
qed

subsection \<open>The distances are determined by the ideal buckets of the stored pairs\<close>

lemma linear_ideals_sorted:
  assumes ok: "table_ok m" and e: "e < m_capacity m" "b_value (m_buckets m ! e) = None"
  shows "sorted (map (\<lambda>t. t - b_distance (m_buckets m ! ((e + t) mod m_capacity m)))
    (filter (\<lambda>t. b_value (m_buckets m ! ((e + t) mod m_capacity m)) \<noteq> None)
       [0..<m_capacity m]))"
proof -
  let ?c = "m_capacity m"
  let ?g = "\<lambda>t. t - b_distance (m_buckets m ! ((e + t) mod ?c))"
  let ?ts = "filter (\<lambda>t. b_value (m_buckets m ! ((e + t) mod ?c)) \<noteq> None) [0..<?c]"
  have "sorted_wrt (<) ?ts" by (intro sorted_wrt_filter) simp
  then have "sorted_wrt (\<lambda>s t. ?g s \<le> ?g t) ?ts"
  proof (rule sorted_wrt_mono_rel [rotated])
    fix s t assume "s \<in> set ?ts" "t \<in> set ?ts" "s < t"
    then show "?g s \<le> ?g t" using linear_ideal_mono [OF ok e, of t s] by simp
  qed
  then show ?thesis by (simp only: sorted_map)
qed

lemma linear_ideals_mset:
  assumes ok: "table_ok m" and e: "e < m_capacity m" "b_value (m_buckets m ! e) = None"
  shows "image_mset (\<lambda>kv. (unat (m_hasher m (fst kv)) mod m_capacity m + m_capacity m - e)
                             mod m_capacity m) (mset (entries m)) =
    mset (map (\<lambda>t. t - b_distance (m_buckets m ! ((e + t) mod m_capacity m)))
      (filter (\<lambda>t. b_value (m_buckets m ! ((e + t) mod m_capacity m)) \<noteq> None)
         [0..<m_capacity m]))"
proof -
  let ?c = "m_capacity m"
  let ?d = "\<lambda>t. b_distance (m_buckets m ! ((e + t) mod ?c))"
  let ?ts = "filter (\<lambda>t. b_value (m_buckets m ! ((e + t) mod ?c)) \<noteq> None) [0..<?c]"
  have "map (\<lambda>t. ((e + (t - ?d t)) mod ?c + ?c - e) mod ?c) ?ts = map (\<lambda>t. t - ?d t) ?ts"
  proof (rule map_cong [OF refl])
    fix t assume "t \<in> set ?ts"
    then have "t < ?c" by simp
    then have "t - ?d t < ?c" by (rule less_imp_diff_less)
    from circ_pos_dist [OF e(1) this]
    show "((e + (t - ?d t)) mod ?c + ?c - e) mod ?c = t - ?d t" .
  qed
  then show ?thesis unfolding ideals_from [OF ok e, of "\<lambda>x. (x + ?c - e) mod ?c"]
    by (rule arg_cong)
qed

text \<open>Two tables of the same capacity that store the same pairs under the same hash
  function have the same distance in every bucket.\<close>

lemma same_distances:
  assumes oka: "table_ok a" and okb: "table_ok b"
    and cap: "m_capacity b = m_capacity a" and hs: "m_hasher b = m_hasher a"
    and ms: "mset (entries b) = mset (entries a)"
    and e: "e < m_capacity a" "b_value (m_buckets a ! e) = None"
    and f: "f < m_capacity a" "b_value (m_buckets b ! f) = None"
    and p: "p < m_capacity a"
  shows "(b_value (m_buckets b ! p) = None \<longleftrightarrow> b_value (m_buckets a ! p) = None) \<and>
    b_distance (m_buckets b ! p) = b_distance (m_buckets a ! p)"
proof -
  let ?c = "m_capacity a"
  let ?A = "m_buckets a"
  let ?B = "m_buckets b"
  have occ: "b_value (?B ! q) = None \<longleftrightarrow> b_value (?A ! q) = None" if "q < ?c" for q
  proof
    assume "b_value (?B ! q) = None"
    from empty_in_both [OF okb oka cap [symmetric] hs [symmetric] ms [symmetric]
        e [folded cap] that [folded cap] this]
    show "b_value (?A ! q) = None" .
  next
    assume "b_value (?A ! q) = None"
    from empty_in_both [OF oka okb cap hs ms f that this]
    show "b_value (?B ! q) = None" .
  qed
  from occ [OF e(1)] e(2) have eb: "b_value (?B ! e) = None" by simp
  let ?dA = "\<lambda>t. b_distance (?A ! ((e + t) mod ?c))"
  let ?dB = "\<lambda>t. b_distance (?B ! ((e + t) mod ?c))"
  let ?ts = "filter (\<lambda>t. b_value (?A ! ((e + t) mod ?c)) \<noteq> None) [0..<?c]"
  have ts: "filter (\<lambda>t. b_value (?B ! ((e + t) mod ?c)) \<noteq> None) [0..<?c] = ?ts"
    by (rule filter_cong [OF refl]) (simp add: occ)
  note eb' = e(1) [folded cap] eb
  have sa: "sorted (map (\<lambda>t. t - ?dA t) ?ts)" by (rule linear_ideals_sorted [OF oka e])
  have sb: "sorted (map (\<lambda>t. t - ?dB t) ?ts)"
    using linear_ideals_sorted [OF okb eb'] unfolding cap ts .
  have "mset (map (\<lambda>t. t - ?dB t) ?ts) = mset (map (\<lambda>t. t - ?dA t) ?ts)"
    using linear_ideals_mset [OF okb eb'] linear_ideals_mset [OF oka e]
    unfolding cap ts hs ms by simp
  from properties_for_sort [OF this sb] sa have "map (\<lambda>t. t - ?dA t) ?ts = map (\<lambda>t. t - ?dB t) ?ts"
    by (simp add: sorted_sort_id)
  then have g: "\<forall>t \<in> set ?ts. t - ?dA t = t - ?dB t" by (simp only: map_eq_conv)
  let ?t = "(p + ?c - e) mod ?c"
  have pt: "(e + ?t) mod ?c = p" by (rule circ_dist_pos [OF p e(1)])
  from p have t: "?t < ?c" by simp
  have "b_distance (?B ! p) = b_distance (?A ! p)"
  proof (cases "b_value (?A ! p)")
    case None
    with occ [OF p] have "b_value (?B ! p) = None" by simp
    from slot_okD_None [OF table_ok_slot [OF okb p [folded cap]] this]
      slot_okD_None [OF table_ok_slot [OF oka p] None]
    show ?thesis by simp
  next
    case (Some kv)
    with occ [OF p] have ob: "b_value (?B ! p) \<noteq> None" by simp
    from Some pt t have "?t \<in> set ?ts" by simp
    with g have "?t - ?dA ?t = ?t - ?dB ?t" by blast
    moreover from linear_dist_lt [OF oka e t] Some pt have "?dA ?t < ?t" by simp
    moreover from linear_dist_lt [OF okb eb' t [folded cap]] ob pt have "?dB ?t < ?t"
      unfolding cap by simp
    ultimately have "?dA ?t = ?dB ?t" by linarith
    with pt show ?thesis by simp
  qed
  with occ [OF p] show ?thesis by simp
qed

subsection \<open>Sequences of insertions\<close>

lemma HashMap_insert_new_step:
  assumes inv: "HashMap_inv m" and ab: "lookup m (fst kv) = None"
    and r: "HashMap_insert d m kv = Some m'"
  shows "HashMap_inv m'" and "m_hasher m' = m_hasher m"
    and "mset (entries m') = mset (entries m) + {#kv#}"
    and "m_size m' = m_size m + 1"
    and "m_capacity m' =
      (if m_size m = min (m_capacity m - 1) (ceil_max_load (m_capacity m))
       then the (get_capacity (m_size m + 1)) else m_capacity m)"
    and "lookup m' = (lookup m)(fst kv \<mapsto> snd kv)"
proof -
  from r obtain pos where r': "insert_hash d m kv (unat (m_hasher m (fst kv))) = Some (m', pos)"
    by (auto split: option.splits)
  from insert_hash_new_key [OF inv ab refl] obtain m1 pos1 where
    u: "\<forall>d. insert_hash d m kv (unat (m_hasher m (fst kv))) = None \<or>
          insert_hash d m kv (unat (m_hasher m (fst kv))) = Some (m1, pos1)"
    and p: "(\<exists>d. insert_hash d m kv (unat (m_hasher m (fst kv))) \<noteq> None) \<longrightarrow>
         HashMap_inv m1 \<and> mset (entries m1) = mset (entries m) + {#kv#} \<and>
         m_hasher m1 = m_hasher m \<and> m_size m1 = m_size m + 1 \<and>
         m_capacity m1 = (if m_size m = m_max_size m then the (get_capacity (m_size m + 1))
                          else m_capacity m) \<and>
         pos1 < length (m_buckets m1) \<and> b_value (m_buckets m1 ! pos1) = Some kv"
    by blast
  from u [rule_format, of d] r' have m1: "m1 = m'" by simp
  from r' have "\<exists>d. insert_hash d m kv (unat (m_hasher m (fst kv))) \<noteq> None" by auto
  with p m1 have q: "HashMap_inv m'" "mset (entries m') = mset (entries m) + {#kv#}"
    "m_hasher m' = m_hasher m" "m_size m' = m_size m + 1"
    "m_capacity m' = (if m_size m = m_max_size m then the (get_capacity (m_size m + 1))
                          else m_capacity m)" by blast+
  have mask: "m_mask m = m_capacity m - 1"
  proof (cases "m_capacity m = 0")
    case True
    with HashMap_invD(6) [OF inv] show ?thesis by simp
  next
    case False
    from table_ok_geometry [OF HashMap_invD(8) [OF inv False]] obtain k where "geometry m k" ..
    from geometry_cap(6) [OF this] show ?thesis .
  qed
  from q show "HashMap_inv m'" "m_hasher m' = m_hasher m"
    "mset (entries m') = mset (entries m) + {#kv#}" "m_size m' = m_size m + 1" by blast+
  from q(5) HashMap_invD(1) [OF inv] mask
  show "m_capacity m' =
      (if m_size m = min (m_capacity m - 1) (ceil_max_load (m_capacity m))
       then the (get_capacity (m_size m + 1)) else m_capacity m)" by simp
  from HashMap_insert_spec(2) [OF inv r] ab
  show "lookup m' = (lookup m)(fst kv \<mapsto> snd kv)" by simp
qed

text \<open>Inserting pairs with new, distinct keys stores exactly these pairs, and the capacity
  afterwards depends only on the count and capacity before and on the number of pairs.\<close>

lemma insert_sequences:
  assumes "length xs = length ys"
  shows "HashMap_inv a \<Longrightarrow> HashMap_inv b \<Longrightarrow>
    m_size b = m_size a \<Longrightarrow> m_capacity b = m_capacity a \<Longrightarrow>
    distinct (map fst xs) \<Longrightarrow> distinct (map fst ys) \<Longrightarrow>
    \<forall>kv \<in> set xs. lookup a (fst kv) = None \<Longrightarrow> \<forall>kv \<in> set ys. lookup b (fst kv) = None \<Longrightarrow>
    apply_ops d dflt a (map Insert xs) = Some a' \<Longrightarrow>
    apply_ops d' dflt' b (map Insert ys) = Some b' \<Longrightarrow>
    HashMap_inv a' \<and> HashMap_inv b' \<and> m_hasher a' = m_hasher a \<and> m_hasher b' = m_hasher b \<and>
    mset (entries a') = mset (entries a) + mset xs \<and>
    mset (entries b') = mset (entries b) + mset ys \<and>
    m_size b' = m_size a' \<and> m_capacity b' = m_capacity a'"
  using assms
proof (induction xs ys arbitrary: a b rule: list_induct2)
  case Nil
  then show ?case by simp
next
  case (Cons x xs y ys)
  from Cons.prems(9) obtain a1 where a1: "HashMap_insert d a x = Some a1"
    and ra: "apply_ops d dflt a1 (map Insert xs) = Some a'"
    by (auto split: option.splits simp del: HashMap_insert.simps)
  from Cons.prems(10) obtain b1 where b1: "HashMap_insert d' b y = Some b1"
    and rb: "apply_ops d' dflt' b1 (map Insert ys) = Some b'"
    by (auto split: option.splits simp del: HashMap_insert.simps)
  from Cons.prems(7) have xa: "lookup a (fst x) = None" by simp
  from Cons.prems(8) have yb: "lookup b (fst y) = None" by simp
  note A = HashMap_insert_new_step [OF Cons.prems(1) xa a1]
  note B = HashMap_insert_new_step [OF Cons.prems(2) yb b1]
  from A(4) B(4) Cons.prems(3) have sz: "m_size b1 = m_size a1" by simp
  from A(5) B(5) Cons.prems(3,4) have cp: "m_capacity b1 = m_capacity a1" by simp
  from Cons.prems(5) have dx: "distinct (map fst xs)" by simp
  from Cons.prems(6) have dy: "distinct (map fst ys)" by simp
  have nx: "\<forall>kv \<in> set xs. lookup a1 (fst kv) = None"
  proof
    fix kv assume "kv \<in> set xs"
    with Cons.prems(5) have "fst kv \<noteq> fst x"
      by (metis distinct.simps(2) imageI list.simps(9) set_map)
    moreover from Cons.prems(7) \<open>kv \<in> set xs\<close> have "lookup a (fst kv) = None" by simp
    ultimately have "fst kv \<noteq> fst x \<and> lookup a (fst kv) = None" by simp
    with A(6) show "lookup a1 (fst kv) = None" by simp
  qed
  have ny: "\<forall>kv \<in> set ys. lookup b1 (fst kv) = None"
  proof
    fix kv assume "kv \<in> set ys"
    with Cons.prems(6) have "fst kv \<noteq> fst y"
      by (metis distinct.simps(2) imageI list.simps(9) set_map)
    moreover from Cons.prems(8) \<open>kv \<in> set ys\<close> have "lookup b (fst kv) = None" by simp
    ultimately have "fst kv \<noteq> fst y \<and> lookup b (fst kv) = None" by simp
    with B(6) show "lookup b1 (fst kv) = None" by simp
  qed
  from Cons.IH [OF A(1) B(1) sz cp dx dy nx ny ra rb] A(2,3) B(2,3) show ?case by simp
qed

subsection \<open>The layout is determined by the stored pairs\<close>

lemma inv_empty_slot:
  assumes inv: "HashMap_inv m" and c0: "m_capacity m \<noteq> 0"
  shows "\<exists>p < m_capacity m. b_value (m_buckets m ! p) = None"
proof -
  from table_ok_geometry [OF HashMap_invD(8) [OF inv c0]] obtain k where g: "geometry m k" ..
  note cap = geometry_cap [OF g]
  from HashMap_invD(1,3,5) [OF inv] cap(2,3,6)
  have "length (entries m) < length (m_buckets m)" by auto
  from exists_empty_slot [OF this] cap(2) show ?thesis by simp
qed

lemma same_layout:
  assumes inva: "HashMap_inv a" and invb: "HashMap_inv b"
    and cap: "m_capacity b = m_capacity a" and hs: "m_hasher b = m_hasher a"
    and ms: "mset (entries b) = mset (entries a)"
  shows "layout b = layout a"
proof (cases "m_capacity a = 0")
  case True
  with HashMap_invD(7) [OF inva] HashMap_invD(7) [OF invb] cap show ?thesis
    by (simp add: layout_def)
next
  case False
  let ?c = "m_capacity a"
  from False cap have cb: "m_capacity b \<noteq> 0" by simp
  note oka = HashMap_invD(8) [OF inva False]
  note okb = HashMap_invD(8) [OF invb cb]
  from table_ok_geometry [OF oka] obtain k where ga: "geometry a k" ..
  from table_ok_geometry [OF okb] obtain k' where gb: "geometry b k'" ..
  note la = geometry_cap(2) [OF ga]
  note lb = geometry_cap(2) [OF gb]
  from inv_empty_slot [OF inva False] obtain e where
    e: "e < ?c" "b_value (m_buckets a ! e) = None" by blast
  from inv_empty_slot [OF invb cb] cap obtain f where
    f: "f < ?c" "b_value (m_buckets b ! f) = None" by auto
  show ?thesis
  proof (rule nth_equalityI)
    show "length (layout b) = length (layout a)" using la lb cap by (simp add: layout_def)
  next
    fix p assume "p < length (layout b)"
    with lb cap have p: "p < ?c" by (simp add: layout_def)
    let ?A = "m_buckets a ! p"
    let ?B = "m_buckets b ! p"
    from same_distances [OF oka okb cap hs ms e f p]
    have v: "b_value ?B = None \<longleftrightarrow> b_value ?A = None"
      and d: "b_distance ?B = b_distance ?A" by simp_all
    have i: "b_hash ?B mod ?c = b_hash ?A mod ?c" if "b_value ?A \<noteq> None"
    proof -
      from that v obtain kva kvb where kv: "b_value ?A = Some kva" "b_value ?B = Some kvb"
        by auto
      let ?ia = "b_hash ?A mod ?c"
      let ?ib = "b_hash ?B mod ?c"
      from p have ia: "?ia < ?c" and ib: "?ib < ?c" by simp_all
      from table_ok_slot [OF oka p] kv(1)
      have "b_distance ?A = (p + ?c - ?ia) mod ?c" by (simp add: slot_ok_def)
      then have "(?ia + b_distance ?A) mod ?c = (?ia + (p + ?c - ?ia) mod ?c) mod ?c" by simp
      also have "\<dots> = p" by (rule circ_dist_pos [OF p ia])
      finally have 1: "(?ia + b_distance ?A) mod ?c = p" .
      from table_ok_slot [OF okb p [folded cap]] kv(2)
      have "b_distance ?B = (p + ?c - ?ib) mod ?c" by (simp add: slot_ok_def cap)
      then have "(?ib + b_distance ?B) mod ?c = (?ib + (p + ?c - ?ib) mod ?c) mod ?c" by simp
      also have "\<dots> = p" by (rule circ_dist_pos [OF p ib])
      finally have 2: "(?ib + b_distance ?B) mod ?c = p" .
      from 1 2 d have "(b_distance ?A + ?ib) mod ?c = (b_distance ?A + ?ia) mod ?c"
        by (simp add: add.commute)
      from circ_pos_inj [OF this ib ia] show ?thesis .
    qed
    from table_ok_empty_iff [OF oka p] have ea: "HashBucket_empty ?A \<longleftrightarrow> b_value ?A = None" .
    from table_ok_empty_iff [OF okb p [folded cap]]
    have eb: "HashBucket_empty ?B \<longleftrightarrow> b_value ?B = None" .
    from p la lb cap have "layout b ! p =
        (if HashBucket_empty ?B then None else Some (get_ideal b (b_hash ?B), b_distance ?B))"
      and "layout a ! p =
        (if HashBucket_empty ?A then None else Some (get_ideal a (b_hash ?A), b_distance ?A))"
      by (simp_all add: layout_def)
    with ea eb v d i geometry_ideal [OF ga] geometry_ideal [OF gb] cap
    show "layout b ! p = layout a ! p" by simp
  qed
qed

lemma empty_map_lookup:
  assumes "HashMap_inv m" "m_size m = 0"
  shows "entries m = []" "lookup m k = None"
proof -
  from HashMap_invD(3) [OF assms(1)] assms(2) show "entries m = []" by simp
  then show "lookup m k = None" by (simp add: lookup_def)
qed

subsection \<open>What the pass of the specification moves\<close>

lemma circ_pos_ne:
  assumes "x \<noteq> y" "x < c" "y < (c::nat)"
  shows "(e + x) mod c \<noteq> (e + y) mod c"
  using circ_pos_inj [of e x c y] assms by blast

lemma circ_succ_add: "((g + 1) mod c + x) mod c = (g + Suc x) mod (c::nat)"
proof -
  have "((g + 1) mod c + x) mod c = ((g + 1) + x) mod c" by (rule mod_add_left_eq)
  then show ?thesis by simp
qed

text \<open>
  From a gap \<open>g\<close>, let the bucket \<open>n\<close> steps after the successor of \<open>g\<close> be the first that
  is empty or at distance 0.  Then the pass returns; it has moved the \<open>n\<close> buckets before
  that one back by one position, lowering their distances by one, has left the last of
  their positions empty, and has changed no other bucket.
\<close>

lemma backward_shift_spec_steps:
  "gap_ok m g \<Longrightarrow> n + 2 \<le> m_capacity m \<Longrightarrow>
   b_value (m_buckets m ! ((g + Suc n) mod m_capacity m)) = None \<or>
     b_distance (m_buckets m ! ((g + Suc n) mod m_capacity m)) = 0 \<Longrightarrow>
   \<forall>i<n. b_value (m_buckets m ! ((g + Suc i) mod m_capacity m)) \<noteq> None \<and>
     b_distance (m_buckets m ! ((g + Suc i) mod m_capacity m)) \<noteq> 0 \<Longrightarrow>
   \<exists>bs'. backward_shift_spec m g ((g + 1) mod m_capacity m) = Some (m\<lparr>m_buckets := bs'\<rparr>) \<and>
     length bs' = m_capacity m \<and>
     (\<forall>i<n. bs' ! ((g + i) mod m_capacity m) =
        (m_buckets m ! ((g + Suc i) mod m_capacity m))
          \<lparr>b_distance := b_distance (m_buckets m ! ((g + Suc i) mod m_capacity m)) - 1\<rparr>) \<and>
     b_value (bs' ! ((g + n) mod m_capacity m)) = None \<and>
     b_distance (bs' ! ((g + n) mod m_capacity m)) = UNOCCUPIED \<and>
     (\<forall>p < m_capacity m. (\<forall>i\<le>n. p \<noteq> (g + i) mod m_capacity m) \<longrightarrow>
        bs' ! p = m_buckets m ! p)"
proof (induction n arbitrary: m g)
  case 0
  let ?c = "m_capacity m"
  let ?bs = "m_buckets m"
  let ?t = "(g + 1) mod ?c"
  note Gp = gap_okD [OF "0.prems"(1)]
  from Gp(1) obtain k where geo: "geometry m k" ..
  note cap = geometry_cap [OF geo]
  from cap have c: "0 < ?c" by simp
  have g: "g < ?c" by (rule Gp(2))
  have t: "?t < ?c" using c by simp
  have at_t: "bucket_at m ?t = Some (?bs ! ?t)" using t cap(2) by (simp add: bucket_at_def)
  from "0.prems"(3) have "HashBucket_empty (?bs ! ?t) \<or> b_distance (?bs ! ?t) = 0"
    using slot_okD_None [OF Gp(4) [OF t]] by (auto simp: HashBucket_empty_def)
  then have "backward_shift_spec m g ?t = Some m"
    using at_t by (subst backward_shift_spec.simps) auto
  then have r: "backward_shift_spec m g ?t = Some (m\<lparr>m_buckets := ?bs\<rparr>)" by simp
  from slot_okD_None [OF Gp(4) [OF g] Gp(3)] have "b_distance (?bs ! g) = UNOCCUPIED" .
  with r cap(2) Gp(3) g show ?case by (intro exI [of _ ?bs]) simp
next
  case (Suc n)
  let ?c = "m_capacity m"
  let ?bs = "m_buckets m"
  let ?t = "(g + 1) mod ?c"
  note Gp = gap_okD [OF Suc.prems(1)]
  from Gp(1) obtain k where geo: "geometry m k" ..
  note cap = geometry_cap [OF geo]
  from cap have c: "0 < ?c" by simp
  have g: "g < ?c" by (rule Gp(2))
  have t: "?t < ?c" using c by simp
  have tg: "?t \<noteq> g" by (rule circ_succ_ne [OF cap(3) g])
  have at_t: "bucket_at m ?t = Some (?bs ! ?t)" using t cap(2) by (simp add: bucket_at_def)
  have at_g: "bucket_at m g = Some (?bs ! g)" using g cap(2) by (simp add: bucket_at_def)
  from Suc.prems(4) [rule_format, of 0]
  obtain kv where kv: "b_value (?bs ! ?t) = Some kv" and d0: "b_distance (?bs ! ?t) \<noteq> 0"
    by auto
  then have d: "0 < b_distance (?bs ! ?t)" by simp
  let ?h = "b_hash (?bs ! ?t)"
  let ?G = "(?bs ! g)\<lparr>b_value := Some kv, b_hash := ?h,
    b_distance := (g + ?c - ?h mod ?c) mod ?c\<rparr>"
  let ?E = "(?bs ! ?t)\<lparr>b_value := None, b_distance := UNOCCUPIED\<rparr>"
  let ?m' = "m\<lparr>m_buckets := ?bs[g := ?G, ?t := ?E]\<rparr>"
  note mv = gap_ok_move [OF Suc.prems(1) kv d]
  note st = slot_okD_Some [OF Gp(4) [OF t] kv]
  from st(2) c have dl: "b_distance (?bs ! ?t) < ?c" by simp
  with cap(5) have nem: "\<not> HashBucket_empty (?bs ! ?t)" by (simp add: HashBucket_empty_def)
  have i: "?h mod ?c < ?c" using c by simp
  have gd: "get_distance m (get_ideal m ?h) g = (g + ?c - ?h mod ?c) mod ?c"
    using geometry_distance [OF geo i g] geometry_ideal [OF geo, of ?h] by simp
  have step: "backward_shift_spec m g ?t = backward_shift_spec ?m' ?t ((?t + 1) mod ?c)"
    using at_t at_g d0 nem kv gd geometry_spec_next [OF geo g] geometry_spec_next [OF geo t]
    by (subst backward_shift_spec.simps) simp
  have far: "(g + Suc (Suc j)) mod ?c \<noteq> g \<and> (g + Suc (Suc j)) mod ?c \<noteq> ?t" if "j \<le> n" for j
  proof -
    from that Suc.prems(2) have lt: "Suc (Suc j) < ?c" by simp
    from circ_pos_ne [of "Suc (Suc j)" 0 ?c g] lt c g
    have "(g + Suc (Suc j)) mod ?c \<noteq> g" by simp
    moreover from circ_pos_ne [of "Suc (Suc j)" 1 ?c g] lt
    have "(g + Suc (Suc j)) mod ?c \<noteq> ?t" by simp
    ultimately show ?thesis ..
  qed
  have same: "m_buckets ?m' ! ((g + Suc (Suc j)) mod ?c) = ?bs ! ((g + Suc (Suc j)) mod ?c)"
    if "j \<le> n" for j
    using far [OF that] by simp
  have idx: "(?t + Suc j) mod ?c = (g + Suc (Suc j)) mod ?c" for j
    by (rule circ_succ_add)
  have 1: "n + 2 \<le> m_capacity ?m'" using Suc.prems(2) by simp
  have 2: "b_value (m_buckets ?m' ! ((?t + Suc n) mod m_capacity ?m')) = None \<or>
     b_distance (m_buckets ?m' ! ((?t + Suc n) mod m_capacity ?m')) = 0"
    using Suc.prems(3) same [of n] idx [of n] by simp
  have 3: "\<forall>i<n. b_value (m_buckets ?m' ! ((?t + Suc i) mod m_capacity ?m')) \<noteq> None \<and>
     b_distance (m_buckets ?m' ! ((?t + Suc i) mod m_capacity ?m')) \<noteq> 0"
  proof (intro allI impI)
    fix i assume "i < n"
    with Suc.prems(4) [rule_format, of "Suc i"] same [of i] idx [of i]
    show "b_value (m_buckets ?m' ! ((?t + Suc i) mod m_capacity ?m')) \<noteq> None \<and>
      b_distance (m_buckets ?m' ! ((?t + Suc i) mod m_capacity ?m')) \<noteq> 0" by simp
  qed
  from Suc.IH [OF mv(1) 1 2 3] obtain bs' where
    r: "backward_shift_spec ?m' ?t ((?t + 1) mod m_capacity ?m') =
          Some (?m'\<lparr>m_buckets := bs'\<rparr>)"
    and len: "length bs' = m_capacity ?m'"
    and sh: "\<forall>i<n. bs' ! ((?t + i) mod m_capacity ?m') =
        (m_buckets ?m' ! ((?t + Suc i) mod m_capacity ?m'))
          \<lparr>b_distance := b_distance (m_buckets ?m' ! ((?t + Suc i) mod m_capacity ?m')) - 1\<rparr>"
    and em: "b_value (bs' ! ((?t + n) mod m_capacity ?m')) = None"
      "b_distance (bs' ! ((?t + n) mod m_capacity ?m')) = UNOCCUPIED"
    and fr: "\<forall>p < m_capacity ?m'. (\<forall>i\<le>n. p \<noteq> (?t + i) mod m_capacity ?m') \<longrightarrow>
        bs' ! p = m_buckets ?m' ! p"
    by blast
  have idx0: "(?t + j) mod ?c = (g + Suc j) mod ?c" for j by (rule circ_succ_add)
  have res: "backward_shift_spec m g ?t = Some (m\<lparr>m_buckets := bs'\<rparr>)"
    using step r by simp
  have g_far: "g \<noteq> (?t + j) mod ?c" if "j \<le> n" for j
  proof -
    from that Suc.prems(2) have "Suc j < ?c" by simp
    from circ_pos_ne [of 0 "Suc j" ?c g, OF _ c this] g show ?thesis
      unfolding idx0 by simp
  qed
  have at_gap: "bs' ! g = ?G"
  proof -
    from fr [rule_format, of g] g g_far have "bs' ! g = m_buckets ?m' ! g" by simp
    with tg g cap(2) show ?thesis by simp
  qed
  have dist: "(g + ?c - ?h mod ?c) mod ?c = b_distance (?bs ! ?t) - 1"
    using circ_dist_pred [OF g i] st(1,2) d by simp
  have G: "?G = (?bs ! ?t)\<lparr>b_distance := b_distance (?bs ! ?t) - 1\<rparr>"
    using kv dist by simp
  have shift: "\<forall>i<Suc n. bs' ! ((g + i) mod ?c) =
      (?bs ! ((g + Suc i) mod ?c))\<lparr>b_distance := b_distance (?bs ! ((g + Suc i) mod ?c)) - 1\<rparr>"
  proof (intro allI impI)
    fix i assume i: "i < Suc n"
    show "bs' ! ((g + i) mod ?c) =
      (?bs ! ((g + Suc i) mod ?c))\<lparr>b_distance := b_distance (?bs ! ((g + Suc i) mod ?c)) - 1\<rparr>"
    proof (cases i)
      case 0
      with at_gap G g show ?thesis by simp
    next
      case (Suc j)
      with i have j: "j < n" by simp
      from sh [rule_format, OF j] same [of j] idx [of j] idx0 [of j] j Suc
      show ?thesis by simp
    qed
  qed
  have last: "b_value (bs' ! ((g + Suc n) mod ?c)) = None"
    "b_distance (bs' ! ((g + Suc n) mod ?c)) = UNOCCUPIED"
    using em idx0 [of n] by simp_all
  have frame: "\<forall>p < ?c. (\<forall>i\<le>Suc n. p \<noteq> (g + i) mod ?c) \<longrightarrow> bs' ! p = ?bs ! p"
  proof (intro allI impI)
    fix p assume p: "p < ?c" and ne: "\<forall>i\<le>Suc n. p \<noteq> (g + i) mod ?c"
    from ne [rule_format, of 0] g have pg: "p \<noteq> g" by simp
    from ne [rule_format, of 1] have pt: "p \<noteq> ?t" by simp
    have "\<forall>i\<le>n. p \<noteq> (?t + i) mod m_capacity ?m'"
    proof (intro allI impI)
      fix i assume "i \<le> n"
      with ne [rule_format, of "Suc i"] idx0 [of i]
      show "p \<noteq> (?t + i) mod m_capacity ?m'" by simp
    qed
    with fr [rule_format, of p] p have "bs' ! p = m_buckets ?m' ! p" by simp
    with pg pt show "bs' ! p = ?bs ! p" by simp
  qed
  from res len shift last frame show ?case by (intro exI [of _ bs']) simp
qed

section \<open>The claims of the specification\<close>

lemma lookup_example_one: "lookup example_one 1 = Some 10" "lookup example_one 7 = None"
  by (simp_all add: lookup_def entries_example_one)

lemma lookup_example_1_5: "lookup example_1_5 1 = Some 10"
  by (simp add: lookup_def entries_example_1_5)

text \<open>
  Claim C1, as the specification words it, fails: \<^verbatim>\<open>insert\<close> returns at once when the key
  is already stored and leaves the stored value as it is.  Inserting \<open>(1, 10)\<close> and then
  \<open>(1, 20)\<close> into a default-constructed map gives the state \<open>example_one\<close>, in which
  \<^verbatim>\<open>at(1)\<close> returns 10, not 20.
\<close>

theorem insert_present_key_keeps_value:
  "apply_ops 3 0 (HashMap_default example_hasher) [Insert (1, 10), Insert (1, 20)] =
     Some example_one \<and>
   at example_one 1 = Some (Inr 10) \<and> at example_one 1 \<noteq> Some (Inr 20)"
proof -
  have "apply_ops 3 0 (HashMap_default example_hasher) [Insert (1, 10), Insert (1, 20)] =
     Some example_one"
    using insert_default_1 insert_one_again by (simp del: HashMap_insert.simps)
  moreover have "at example_one 1 = Some (Inr 10)"
    using at_spec [OF reachable_inv [OF reachable_example_one], of 1]
    by (simp only: lookup_example_one option.case)
  ultimately show ?thesis by simp
qed

text \<open>
  Claim C1, amended.  Let \<open>m\<close> be a reachable state, let \<^verbatim>\<open>insert\<close> of the pair \<open>(k, v)\<close>
  return the state \<open>m1\<close>, and let any further operations, none of which erases \<open>k\<close>,
  assigns to the value of \<open>k\<close> or clears the map, lead from \<open>m1\<close> to \<open>m2\<close>.  Then in \<open>m2\<close>
  \<^verbatim>\<open>at(k)\<close> returns, and \<^verbatim>\<open>find(k)\<close> returns an iterator (not the end iterator) to a stored
  pair with key \<open>k\<close> and, the value \<open>v\<close> when \<open>m\<close> did not hold \<open>k\<close>, and otherwise the
  value that \<open>m\<close> held for \<open>k\<close>.
\<close>

theorem insert_find_at_round_trip:
  assumes "reachable m"
    and "HashMap_insert d m (k, v) = Some m1"
    and "apply_ops d' dflt m1 xs = Some m2"
    and "\<forall>x \<in> set xs. \<not> touches k x"
  shows "at m2 k = Some (Inr (case lookup m k of None \<Rightarrow> v | Some w \<Rightarrow> w)) \<and>
    (\<exists>it. find m2 k = Some it \<and> current it < end_it it \<and>
       deref m2 it = Some (k, case lookup m k of None \<Rightarrow> v | Some w \<Rightarrow> w))"
proof -
  let ?w = "case lookup m k of None \<Rightarrow> v | Some w \<Rightarrow> w"
  note inv = reachable_inv [OF assms(1)]
  note I = HashMap_insert_spec [OF inv assms(2)]
  from I(2) have l1: "lookup m1 k = Some ?w" by (cases "lookup m k") simp_all
  from apply_ops_spec [OF I(1) assms(3), of k ?w] assms(4) l1
  have inv2: "HashMap_inv m2" and l2: "lookup m2 k = Some ?w" by blast+
  from at_spec [OF inv2, of k] l2 have "at m2 k = Some (Inr ?w)" by simp
  with find_spec(2) [OF inv2 l2] show ?thesis by simp
qed

theorem insert_find_at_round_trip_witness:
  "reachable (HashMap_default example_hasher :: (nat, nat) HashMap) \<and>
   HashMap_insert 3 (HashMap_default example_hasher) (1, 10) = Some example_one \<and>
   apply_ops 3 0 example_one [Insert (5, 50)] = Some example_1_5 \<and>
   \<not> touches (1 :: nat) (Insert (5, 50 :: nat)) \<and>
   at example_1_5 1 = Some (Inr 10) \<and>
   (\<exists>it. find example_1_5 1 = Some it \<and> current it < end_it it \<and>
      deref example_1_5 it = Some (1, 10))"
proof -
  have ops: "apply_ops 3 0 example_one [Insert (5, 50)] = Some example_1_5"
    using insert_one_5 by (simp del: HashMap_insert.simps)
  have t: "\<forall>x \<in> set [Insert (5, 50 :: nat)]. \<not> touches (1 :: nat) x" by simp
  have rd: "reachable (HashMap_default example_hasher :: (nat, nat) HashMap)"
    by (rule reachable_default)
  have t': "\<not> touches (1 :: nat) (Insert (5, 50 :: nat))" by simp
  from insert_find_at_round_trip [OF rd insert_default_1 ops t] rd insert_default_1 ops t'
  show ?thesis by (simp only: lookup_default option.case simp_thms)
qed

text \<open>
  Claim C2.  Take a reachable state that stores the key \<open>k\<close>, and let \<^verbatim>\<open>erase(k)\<close> reach
  its backward-shift pass: after the slot \<open>q\<close> that \<^verbatim>\<open>find_bucket\<close> resolves is cleared and
  the count decremented, the count is neither 0 nor below \<^verbatim>\<open>min_size_\<close>.  Then \<^verbatim>\<open>erase\<close>
  returns, and its result is the result of the pass that the specification describes
  (\<open>backward_shift_spec\<close>), run from the successor of \<open>q\<close> on the state with slot \<open>q\<close>
  cleared.  (The loop of the source does not leave at an empty slot but scans on, moving
  nothing, to the next slot at distance 0; the results agree.)  Explicitly: let the slot
  \<open>n\<close> steps after the successor of \<open>q\<close> be the first one that is empty or has distance 0.
  Then the \<open>n\<close> slots before it have each been moved one position back, with their
  distance lowered by one, the last position they left is empty, and every other slot,
  so the first empty-or-distance-0 slot and all slots beyond it, is as it was.
\<close>

theorem erase_backward_shift_stops_as_specified:
  assumes "reachable m" and "lookup m k = Some v"
    and "m_size m - 1 \<noteq> 0" and "\<not> m_size m - 1 < m_min_size m"
  shows "\<exists>q n m'. find_bucket m k (unat (m_hasher m k)) = Some q \<and>
    b_value (m_buckets m ! q) = Some (k, v) \<and>
    erase d m k = Some m' \<and>
    backward_shift_spec
      (m\<lparr>m_buckets := (m_buckets m)
           [q := (m_buckets m ! q)\<lparr>b_value := None, b_distance := UNOCCUPIED\<rparr>],
         m_size := m_size m - 1\<rparr>)
      q
      (spec_next (m\<lparr>m_buckets := (m_buckets m)
           [q := (m_buckets m ! q)\<lparr>b_value := None, b_distance := UNOCCUPIED\<rparr>],
         m_size := m_size m - 1\<rparr>) q) = Some m' \<and>
    n + 2 \<le> m_capacity m \<and>
    (HashBucket_empty (m_buckets m ! ((q + Suc n) mod m_capacity m)) \<or>
     b_distance (m_buckets m ! ((q + Suc n) mod m_capacity m)) = 0) \<and>
    (\<forall>i<n. \<not> HashBucket_empty (m_buckets m ! ((q + Suc i) mod m_capacity m)) \<and>
       b_distance (m_buckets m ! ((q + Suc i) mod m_capacity m)) \<noteq> 0) \<and>
    (\<forall>i<n. m_buckets m' ! ((q + i) mod m_capacity m) =
       (m_buckets m ! ((q + Suc i) mod m_capacity m))
         \<lparr>b_distance := b_distance (m_buckets m ! ((q + Suc i) mod m_capacity m)) - 1\<rparr>) \<and>
    HashBucket_empty (m_buckets m' ! ((q + n) mod m_capacity m)) \<and>
    (\<forall>p < m_capacity m. (\<forall>i\<le>n. p \<noteq> (q + i) mod m_capacity m) \<longrightarrow>
       m_buckets m' ! p = m_buckets m ! p)"
proof -
  let ?c = "m_capacity m"
  let ?bs = "m_buckets m"
  note inv = reachable_inv [OF assms(1)]
  from erase_hash_unfold [OF inv assms(2) refl] obtain q where
    q: "find_bucket m k (unat (m_hasher m k)) = Some q" "q < ?c"
      "b_value (?bs ! q) = Some (k, v)"
    and gap: "gap_ok (m\<lparr>m_buckets := ?bs
                 [q := (?bs ! q)\<lparr>b_value := None, b_distance := UNOCCUPIED\<rparr>],
               m_size := m_size m - 1\<rparr>) q"
    and len: "length (entries (m\<lparr>m_buckets := ?bs
                 [q := (?bs ! q)\<lparr>b_value := None, b_distance := UNOCCUPIED\<rparr>],
               m_size := m_size m - 1\<rparr>)) = m_size m - 1"
    and unf: "\<forall>d. erase_hash d m k (unat (m_hasher m k)) =
        (if m_size m - 1 = 0 then
           Some (m\<lparr>m_buckets := ?bs
                 [q := (?bs ! q)\<lparr>b_value := None, b_distance := UNOCCUPIED\<rparr>],
               m_size := m_size m - 1\<rparr>)
         else if m_size m - 1 < m_min_size m then
           (case get_capacity (m_size m - 1) of
              None \<Rightarrow> None
            | Some cap \<Rightarrow>
                rehash d (m\<lparr>m_buckets := ?bs
                 [q := (?bs ! q)\<lparr>b_value := None, b_distance := UNOCCUPIED\<rparr>],
               m_size := m_size m - 1\<rparr>) cap)
         else erase_loop (m\<lparr>m_buckets := ?bs
                 [q := (?bs ! q)\<lparr>b_value := None, b_distance := UNOCCUPIED\<rparr>],
               m_size := m_size m - 1\<rparr>) q
              (next_bucket (m\<lparr>m_buckets := ?bs
                 [q := (?bs ! q)\<lparr>b_value := None, b_distance := UNOCCUPIED\<rparr>],
               m_size := m_size m - 1\<rparr>) q))"
    by blast
  let ?m1 = "m\<lparr>m_buckets := ?bs
                 [q := (?bs ! q)\<lparr>b_value := None, b_distance := UNOCCUPIED\<rparr>],
               m_size := m_size m - 1\<rparr>"
  from gap_okD(1) [OF gap] obtain j where geo: "geometry ?m1 j" ..
  from q(2) have q1: "q < m_capacity ?m1" by simp
  from q(2) have c0: "?c \<noteq> 0" by simp
  note ok = HashMap_invD(8) [OF inv c0]
  from geometry_cap(2) [OF geo] have lbs: "length ?bs = ?c" by simp
  have nx: "next_bucket ?m1 q = (q + 1) mod ?c"
    using geometry_next [OF geo q1] by simp
  have sx: "spec_next ?m1 q = (q + 1) mod ?c"
    using geometry_spec_next [OF geo q1] by simp
  from unf assms(3,4) have "erase d m k = erase_loop ?m1 q (next_bucket ?m1 q)"
    by (simp add: erase_def)
  then have e: "erase d m k = erase_loop ?m1 q ((q + 1) mod ?c)" unfolding nx .
  have occ: "\<exists>p < m_capacity ?m1. b_value (m_buckets ?m1 ! p) \<noteq> None"
  proof -
    from len assms(3) obtain kv where "kv \<in> set (entries ?m1)" by (cases "entries ?m1") auto
    then obtain p where "p < length (m_buckets ?m1)" "b_value (m_buckets ?m1 ! p) = Some kv"
      unfolding in_entries_iff by blast
    then show ?thesis using geometry_cap(2) [OF geo] by auto
  qed
  from erase_loop_refines_spec [OF gap occ]
  have eq: "erase_loop ?m1 q ((q + 1) mod ?c) = backward_shift_spec ?m1 q ((q + 1) mod ?c)"
    by simp
  let ?stop = "\<lambda>b. b_value b = None \<or> b_distance b = 0"
  from inv_empty_slot [OF inv c0] obtain f where
    f: "f < ?c" "b_value (?bs ! f) = None" by blast
  with q(3) have fq: "f \<noteq> q" by auto
  from q(2) have t: "(q + 1) mod ?c < ?c" by simp
  from f have "?stop (?bs ! f)" by simp
  from first_slot_from [of f ?c ?stop ?bs, OF f(1) this t] obtain n where
    n: "n < ?c" "?stop (?bs ! (((q + 1) mod ?c + n) mod ?c))"
      "\<forall>i<n. \<not> ?stop (?bs ! (((q + 1) mod ?c + i) mod ?c))" by blast
  have ix: "((q + 1) mod ?c + i) mod ?c = (q + Suc i) mod ?c" for i by (rule circ_succ_add)
  have n2: "n + 2 \<le> ?c"
  proof (rule ccontr)
    assume "\<not> n + 2 \<le> ?c"
    with n(1) have nc: "n = ?c - 1" by simp
    let ?i = "(f + ?c - (q + 1) mod ?c) mod ?c"
    from circ_dist_pos [OF f(1) t] have fi: "((q + 1) mod ?c + ?i) mod ?c = f" .
    from f(1) have "?i < ?c" by simp
    moreover have "?i \<noteq> ?c - 1"
    proof
      assume "?i = ?c - 1"
      with fi have "(q + Suc (?c - 1)) mod ?c = f" unfolding ix by simp
      with c0 q(2) fq show False by simp
    qed
    ultimately have "?i < n" using nc by simp
    with n(3) fi f(2) show False by auto
  qed
  have ne: "(q + Suc i) mod ?c \<noteq> q" if "i \<le> n" for i
  proof -
    from that n2 have "Suc i < ?c" by simp
    from circ_pos_ne [of "Suc i" 0 ?c q, OF _ this] c0 q(2) show ?thesis by simp
  qed
  have s1: "b_value (m_buckets ?m1 ! ((q + Suc n) mod m_capacity ?m1)) = None \<or>
     b_distance (m_buckets ?m1 ! ((q + Suc n) mod m_capacity ?m1)) = 0"
    using n(2) ne [of n] unfolding ix by simp
  have s2: "\<forall>i<n. b_value (m_buckets ?m1 ! ((q + Suc i) mod m_capacity ?m1)) \<noteq> None \<and>
     b_distance (m_buckets ?m1 ! ((q + Suc i) mod m_capacity ?m1)) \<noteq> 0"
  proof (intro allI impI)
    fix i assume "i < n"
    with n(3) [rule_format, of i] ne [of i]
    show "b_value (m_buckets ?m1 ! ((q + Suc i) mod m_capacity ?m1)) \<noteq> None \<and>
      b_distance (m_buckets ?m1 ! ((q + Suc i) mod m_capacity ?m1)) \<noteq> 0"
      unfolding ix by simp
  qed
  from n2 have n2': "n + 2 \<le> m_capacity ?m1" by simp
  from backward_shift_spec_steps [OF gap n2' s1 s2] obtain bs' where
    r: "backward_shift_spec ?m1 q ((q + 1) mod ?c) = Some (?m1\<lparr>m_buckets := bs'\<rparr>)"
    and sh: "\<forall>i<n. bs' ! ((q + i) mod ?c) =
        (m_buckets ?m1 ! ((q + Suc i) mod ?c))
          \<lparr>b_distance := b_distance (m_buckets ?m1 ! ((q + Suc i) mod ?c)) - 1\<rparr>"
    and em: "b_distance (bs' ! ((q + n) mod ?c)) = UNOCCUPIED"
    and fr: "\<forall>p < ?c. (\<forall>i\<le>n. p \<noteq> (q + i) mod ?c) \<longrightarrow> bs' ! p = m_buckets ?m1 ! p"
    by auto
  let ?m' = "?m1\<lparr>m_buckets := bs'\<rparr>"
  have 1: "erase d m k = Some ?m'" using e eq r by simp
  have 2: "backward_shift_spec ?m1 q (spec_next ?m1 q) = Some ?m'" using r sx by simp
  have p: "(q + Suc i) mod ?c < ?c" for i using c0 by simp
  have 3: "HashBucket_empty (?bs ! ((q + Suc n) mod ?c)) \<or>
     b_distance (?bs ! ((q + Suc n) mod ?c)) = 0"
    using n(2) table_ok_empty_iff [OF ok p [of n]] unfolding ix by simp
  have 4: "\<forall>i<n. \<not> HashBucket_empty (?bs ! ((q + Suc i) mod ?c)) \<and>
       b_distance (?bs ! ((q + Suc i) mod ?c)) \<noteq> 0"
  proof (intro allI impI)
    fix i assume "i < n"
    with n(3) [rule_format, of i] table_ok_empty_iff [OF ok p [of i]]
    show "\<not> HashBucket_empty (?bs ! ((q + Suc i) mod ?c)) \<and>
       b_distance (?bs ! ((q + Suc i) mod ?c)) \<noteq> 0"
      unfolding ix by simp
  qed
  have 5: "\<forall>i<n. m_buckets ?m' ! ((q + i) mod ?c) =
       (?bs ! ((q + Suc i) mod ?c))
         \<lparr>b_distance := b_distance (?bs ! ((q + Suc i) mod ?c)) - 1\<rparr>"
  proof (intro allI impI)
    fix i assume "i < n"
    with sh [rule_format, of i] ne [of i]
    show "m_buckets ?m' ! ((q + i) mod ?c) =
       (?bs ! ((q + Suc i) mod ?c))
         \<lparr>b_distance := b_distance (?bs ! ((q + Suc i) mod ?c)) - 1\<rparr>" by simp
  qed
  have 6: "HashBucket_empty (m_buckets ?m' ! ((q + n) mod ?c))"
    using em by (simp add: HashBucket_empty_def)
  have 7: "\<forall>p < ?c. (\<forall>i\<le>n. p \<noteq> (q + i) mod ?c) \<longrightarrow> m_buckets ?m' ! p = ?bs ! p"
  proof (intro allI impI)
    fix p assume p: "p < ?c" and d: "\<forall>i\<le>n. p \<noteq> (q + i) mod ?c"
    from d [rule_format, of 0] q(2) have "p \<noteq> q" by simp
    with fr [rule_format, of p] p d show "m_buckets ?m' ! p = ?bs ! p" by simp
  qed
  from q(1,3) 1 2 n2 3 4 5 6 7 show ?thesis
    by (intro exI [of _ q] exI [of _ n] exI [of _ ?m'] conjI)
qed

theorem erase_backward_shift_stops_as_specified_witness:
  "reachable example_1_5 \<and> lookup example_1_5 1 = Some 10 \<and>
   m_size example_1_5 - 1 \<noteq> 0 \<and> \<not> m_size example_1_5 - 1 < m_min_size example_1_5 \<and>
   erase 2 example_1_5 1 = Some example_5 \<and>
   (\<exists>q. find_bucket example_1_5 1 (unat (m_hasher example_1_5 1)) = Some q \<and>
      backward_shift_spec
        (example_1_5\<lparr>m_buckets := (m_buckets example_1_5)
             [q := (m_buckets example_1_5 ! q)\<lparr>b_value := None, b_distance := UNOCCUPIED\<rparr>],
           m_size := m_size example_1_5 - 1\<rparr>)
        q
        (spec_next (example_1_5\<lparr>m_buckets := (m_buckets example_1_5)
             [q := (m_buckets example_1_5 ! q)\<lparr>b_value := None, b_distance := UNOCCUPIED\<rparr>],
           m_size := m_size example_1_5 - 1\<rparr>) q) = Some example_5)"
proof -
  have s: "m_size example_1_5 - 1 \<noteq> 0" "\<not> m_size example_1_5 - 1 < m_min_size example_1_5"
    by (simp_all add: example_1_5_def)
  from erase_backward_shift_stops_as_specified
    [OF reachable_example_1_5 lookup_example_1_5 s, of 2]
  have "\<exists>q. find_bucket example_1_5 1 (unat (m_hasher example_1_5 1)) = Some q \<and>
      backward_shift_spec
        (example_1_5\<lparr>m_buckets := (m_buckets example_1_5)
             [q := (m_buckets example_1_5 ! q)\<lparr>b_value := None, b_distance := UNOCCUPIED\<rparr>],
           m_size := m_size example_1_5 - 1\<rparr>)
        q
        (spec_next (example_1_5\<lparr>m_buckets := (m_buckets example_1_5)
             [q := (m_buckets example_1_5 ! q)\<lparr>b_value := None, b_distance := UNOCCUPIED\<rparr>],
           m_size := m_size example_1_5 - 1\<rparr>) q) = Some example_5"
    unfolding erase_1_5 by auto
  with reachable_example_1_5 lookup_example_1_5 s erase_1_5 show ?thesis by blast
qed

text \<open>
  Claim C3, as the specification words it, fails: when the count reaches 0, \<^verbatim>\<open>erase\<close>
  returns at once and leaves the table allocated.  The state \<open>example_one\<close> holds the one
  key 1 in a table of capacity 2; erasing it gives \<open>example_erased\<close>, whose capacity is
  still 2, which is not the default-constructed state.
\<close>

theorem erase_last_key_not_reset:
  "reachable example_one \<and> m_size example_one = 1 \<and> lookup example_one 1 = Some 10 \<and>
   erase 2 example_one 1 = Some example_erased \<and>
   m_size example_erased = 0 \<and> m_capacity example_erased = 2 \<and>
   m_capacity (HashMap_default example_hasher :: (nat, nat) HashMap) = 0"
  using reachable_example_one lookup_example_one(1) erase_one
  by (simp add: example_one_def example_erased_def HashMap_default_def update_sizes_def)

text \<open>
  Claim C3, amended.  For every reachable map that holds exactly one key, erasing that
  key returns with the count 0 and every slot empty, and leaves the table as it was
  allocated: the capacity, which is not 0, the mask and the thresholds are unchanged.
\<close>

theorem erase_last_key_keeps_capacity:
  assumes "reachable m" and "m_size m = 1" and "lookup m k = Some v"
  shows "\<exists>m'. erase d m k = Some m' \<and> m_size m' = 0 \<and>
    m_capacity m' = m_capacity m \<and> m_capacity m' \<noteq> 0 \<and> m_mask m' = m_mask m \<and>
    m_max_size m' = m_max_size m \<and> m_min_size m' = m_min_size m \<and>
    length (m_buckets m') = m_capacity m \<and>
    (\<forall>b \<in> set (m_buckets m'). HashBucket_empty b)"
proof -
  from erase_last [OF reachable_inv [OF assms(1)] assms(2,3), of d] obtain bs' where
    "erase d m k = Some (m\<lparr>m_buckets := bs', m_size := 0\<rparr>)"
    "length bs' = m_capacity m" "m_capacity m \<noteq> 0" "\<forall>b \<in> set bs'. HashBucket_empty b"
    by blast
  then show ?thesis by (intro exI [of _ "m\<lparr>m_buckets := bs', m_size := 0\<rparr>"]) simp
qed

theorem erase_last_key_keeps_capacity_witness:
  "reachable example_one \<and> m_size example_one = 1 \<and> lookup example_one 1 = Some 10 \<and>
   (\<exists>m'. erase 2 example_one 1 = Some m' \<and> m_size m' = 0 \<and> m_capacity m' = 2 \<and>
      (\<forall>b \<in> set (m_buckets m'). HashBucket_empty b))"
proof -
  have s: "m_size example_one = 1" and c: "m_capacity example_one = 2"
    by (simp_all add: example_one_def)
  from erase_last_key_keeps_capacity [OF reachable_example_one s lookup_example_one(1), of 2]
  have "\<exists>m'. erase 2 example_one 1 = Some m' \<and> m_size m' = 0 \<and> m_capacity m' = 2 \<and>
      (\<forall>b \<in> set (m_buckets m'). HashBucket_empty b)"
    unfolding c by blast
  with reachable_example_one s lookup_example_one(1) show ?thesis by blast
qed

text \<open>
  Claim C4, as the specification words it, fails in its last part.  With capacity 2 the
  grow threshold \<^verbatim>\<open>max_size_\<close> is \<open>min 1 (ceil 1.6) = 1\<close>, so the second insertion finds
  the count at the threshold and rehashes to \<^verbatim>\<open>get_capacity(2) = 4\<close>: after inserting the
  keys 1 and 5 into a default-constructed map the capacity is 4.
\<close>

theorem second_insert_grows:
  "m_capacity (HashMap_default example_hasher :: (nat, nat) HashMap) = 0 \<and>
   HashMap_insert 3 (HashMap_default example_hasher) (1, 10) = Some example_one \<and>
   m_capacity example_one = 2 \<and>
   HashMap_insert 3 example_one (5, 50) = Some example_1_5 \<and>
   m_capacity example_1_5 = 4"
  using insert_default_1 insert_one_5
  by (simp add: example_one_def example_1_5_def HashMap_default_def update_sizes_def
      del: HashMap_insert.simps)

text \<open>
  Claim C4, amended.  A default-constructed map has capacity 0; inserting one key into it
  returns with capacity 2 and grow threshold 1; inserting a second, distinct key then
  returns with both keys stored, after growing the table to capacity 4.
\<close>

theorem first_two_inserts_capacity:
  assumes "k1 \<noteq> k2"
  shows "m_capacity (HashMap_default hasher :: ('k, 'v) HashMap) = 0 \<and>
    (\<exists>m1 m2. HashMap_insert (Suc (Suc (Suc d))) (HashMap_default hasher) (k1, v1 :: 'v) = Some m1 \<and>
       m_capacity m1 = 2 \<and> m_size m1 = 1 \<and> m_max_size m1 = 1 \<and>
       HashMap_insert (Suc (Suc (Suc d))) m1 (k2, v2) = Some m2 \<and>
       m_capacity m2 = 4 \<and> m_size m2 = 2 \<and>
       lookup m2 k1 = Some v1 \<and> lookup m2 k2 = Some v2)"
proof -
  let ?m0 = "HashMap_default hasher :: ('k, 'v) HashMap"
  have z: "m_capacity ?m0 = 0" "m_size ?m0 = 0" "m_max_size ?m0 = 0"
    by (simp_all add: HashMap_default_def update_sizes_def ceil_max_load_def)
  have v: "(4::nat) \<le> vector_max_size" "(8::nat) \<le> vector_max_size"
    by (simp_all add: vector_max_size_def)
  from HashMap_insert_new_key [OF HashMap_inv_default, of hasher "(k1, v1)"] z v
  obtain m1 where m1: "\<forall>d. HashMap_insert (Suc (Suc (Suc d))) ?m0 (k1, v1) = Some m1"
    "HashMap_inv m1" "lookup m1 = (lookup ?m0)(k1 \<mapsto> v1)" "m_size m1 = 1" "m_capacity m1 = 2"
    by (auto simp: lookup_default get_capacity_1 simp del: HashMap_insert.simps)
  from table_ok_geometry [OF HashMap_invD(8) [OF m1(2)]] m1(5) obtain j where
    "geometry m1 j" by auto
  with m1(5) have "m_mask m1 = 1" by (simp add: geometry_def)
  with HashMap_invD(1) [OF m1(2)] m1(5) have mx: "m_max_size m1 = 1"
    by (simp add: ceil_max_load_def)
  from m1(3) assms have ab: "lookup m1 (fst (k2, v2)) = None" by (simp add: lookup_default)
  from HashMap_insert_new_key [OF m1(2) ab] m1(4,5) mx v
  obtain m2 where m2: "\<forall>d. HashMap_insert (Suc (Suc (Suc d))) m1 (k2, v2) = Some m2"
    "lookup m2 = (lookup m1)(k2 \<mapsto> v2)" "m_size m2 = 2" "m_capacity m2 = 4"
    by (auto simp: get_capacity_2 simp del: HashMap_insert.simps)
  from m2(2) m1(3) assms have l: "lookup m2 k1 = Some v1" "lookup m2 k2 = Some v2" by simp_all
  from m1(1) have i1: "HashMap_insert (Suc (Suc (Suc d))) ?m0 (k1, v1) = Some m1" by blast
  from m2(1) have i2: "HashMap_insert (Suc (Suc (Suc d))) m1 (k2, v2) = Some m2" by blast
  from z(1) i1 m1(4,5) mx i2 m2(3,4) l show ?thesis by blast
qed

theorem first_two_inserts_capacity_witness:
  "(1 :: nat) \<noteq> 5 \<and>
   HashMap_insert 3 (HashMap_default example_hasher) (1, 10) = Some example_one \<and>
   (\<exists>m2. HashMap_insert 3 example_one (5, 50 :: nat) = Some m2 \<and> m_capacity m2 = 4 \<and>
      m_size m2 = 2 \<and> lookup m2 1 = Some 10 \<and> lookup m2 5 = Some 50)"
proof -
  have ne: "(1 :: nat) \<noteq> 5" by simp
  have three: "Suc (Suc (Suc 0)) = 3" by simp
  from first_two_inserts_capacity [OF ne, of example_hasher 0 "10 :: nat" 50]
  have "\<exists>m2. HashMap_insert 3 example_one (5, 50 :: nat) = Some m2 \<and> m_capacity m2 = 4 \<and>
      m_size m2 = 2 \<and> lookup m2 1 = Some 10 \<and> lookup m2 5 = Some 50"
    unfolding three insert_default_1 by auto
  with ne insert_default_1 show ?thesis by blast
qed

text \<open>
  Claim C5, as the specification words it, fails: which of two keys with the same ideal
  bucket occupies which slot can depend on the order of the insertions.  With the hash of
  a key being the key itself, the keys 1 and 5 both have ideal bucket 1 at capacity 4;
  inserted into a default-constructed map as 1, 5 they leave key 1 (hash 1) in slot 1 and
  key 5 in slot 2, inserted as 5, 1 they leave key 5 (hash 5) in slot 1 and key 1 in
  slot 2.
\<close>

theorem insertion_order_changes_slots:
  "apply_ops 3 0 (HashMap_default example_hasher) (map Insert [(1, 10), (5, 50)]) =
     Some example_1_5 \<and>
   apply_ops 3 0 (HashMap_default example_hasher) (map Insert [(5, 50), (1, 10)]) =
     Some example_5_1 \<and>
   b_value (m_buckets example_1_5 ! 1) = Some (1, 10) \<and> b_hash (m_buckets example_1_5 ! 1) = 1 \<and>
   b_value (m_buckets example_5_1 ! 1) = Some (5, 50) \<and> b_hash (m_buckets example_5_1 ! 1) = 5 \<and>
   m_buckets example_1_5 \<noteq> m_buckets example_5_1"
proof -
  have "m_buckets example_1_5 ! 1 \<noteq> m_buckets example_5_1 ! 1"
    by (simp add: example_1_5_def example_5_1_def occupied_bucket_def)
  then have "m_buckets example_1_5 \<noteq> m_buckets example_5_1" by auto
  with run_example_1_5 run_example_5_1 show ?thesis
    by (simp add: example_1_5_def example_5_1_def occupied_bucket_def
        del: apply_ops.simps)
qed

text \<open>
  Claim C5, amended.  Take two reachable maps without pairs, of equal capacity and with
  the same hash function, and insert the same pairs, with pairwise distinct keys, into
  each, in any two orders.  When both sequences of insertions return, the two maps have
  the same capacity, the same count, the same stored pairs, and the same layout: every
  physical slot is empty in both or occupied in both, and when occupied holds the same
  distance and a hash with the same ideal bucket.  Which key, and so which hash, a slot
  holds is not part of the statement.
\<close>

theorem insertion_order_independent_layout:
  assumes "reachable a0" and "reachable b0"
    and "m_size a0 = 0" and "m_size b0 = 0"
    and "m_capacity b0 = m_capacity a0" and "m_hasher b0 = m_hasher a0"
    and "distinct (map fst xs)" and "mset ys = mset xs"
    and "apply_ops d dflt a0 (map Insert xs) = Some a"
    and "apply_ops d' dflt' b0 (map Insert ys) = Some b"
  shows "m_capacity b = m_capacity a \<and> m_size b = m_size a \<and>
    mset (entries b) = mset (entries a) \<and> layout b = layout a"
proof -
  note inva = reachable_inv [OF assms(1)]
  note invb = reachable_inv [OF assms(2)]
  from assms(8) have len: "length xs = length ys" by (metis size_mset)
  from assms(8) have "mset (map fst ys) = mset (map fst xs)" by (metis mset_map)
  from mset_eq_imp_distinct_iff [OF this] assms(7) have dy: "distinct (map fst ys)" by simp
  have na: "\<forall>kv \<in> set xs. lookup a0 (fst kv) = None"
    using empty_map_lookup(2) [OF inva assms(3)] by simp
  have nb: "\<forall>kv \<in> set ys. lookup b0 (fst kv) = None"
    using empty_map_lookup(2) [OF invb assms(4)] by simp
  from assms(3,4) have sz: "m_size b0 = m_size a0" by simp
  from insert_sequences [OF len inva invb sz assms(5,7) dy na nb assms(9,10)]
  have r: "HashMap_inv a" "HashMap_inv b" "m_hasher a = m_hasher a0" "m_hasher b = m_hasher b0"
    "mset (entries a) = mset (entries a0) + mset xs"
    "mset (entries b) = mset (entries b0) + mset ys"
    "m_size b = m_size a" "m_capacity b = m_capacity a" by simp_all
  from r(3,4) assms(6) have hs: "m_hasher b = m_hasher a" by simp
  from r(5,6) assms(8) empty_map_lookup(1) [OF inva assms(3)]
    empty_map_lookup(1) [OF invb assms(4)]
  have ms: "mset (entries b) = mset (entries a)" by simp
  from same_layout [OF r(1,2,8) hs ms] r(7,8) ms show ?thesis by simp
qed

theorem insertion_order_independent_layout_witness:
  "reachable (HashMap_default example_hasher :: (nat, nat) HashMap) \<and>
   m_size (HashMap_default example_hasher :: (nat, nat) HashMap) = 0 \<and>
   distinct (map fst [(1 :: nat, 10 :: nat), (5, 50)]) \<and>
   mset [(5 :: nat, 50 :: nat), (1, 10)] = mset [(1, 10), (5, 50)] \<and>
   apply_ops 3 0 (HashMap_default example_hasher) (map Insert [(1, 10), (5, 50)]) =
     Some example_1_5 \<and>
   apply_ops 3 0 (HashMap_default example_hasher) (map Insert [(5, 50), (1, 10)]) =
     Some example_5_1 \<and>
   layout example_5_1 = layout example_1_5 \<and>
   layout example_1_5 = [None, Some (1, 0), Some (1, 1), None]"
proof -
  let ?m0 = "HashMap_default example_hasher :: (nat, nat) HashMap"
  have rd: "reachable ?m0" by (rule reachable_default)
  have s: "m_size ?m0 = 0" by (simp add: HashMap_default_def update_sizes_def)
  have d: "distinct (map fst [(1 :: nat, 10 :: nat), (5, 50)])" by simp
  have m: "mset [(5 :: nat, 50 :: nat), (1, 10)] = mset [(1, 10), (5, 50)]" by simp
  have ra: "apply_ops 3 0 ?m0 (map Insert [(1, 10), (5, 50)]) = Some example_1_5"
    using run_example_1_5 by (simp del: apply_ops.simps)
  have rb: "apply_ops 3 0 ?m0 (map Insert [(5, 50), (1, 10)]) = Some example_5_1"
    using run_example_5_1 by (simp del: apply_ops.simps)
  have l: "layout example_1_5 = [None, Some (1, 0), Some (1, 1), None]"
    by (simp add: layout_def example_1_5_def occupied_bucket_def empty_bucket_def
        HashBucket_empty_def UNOCCUPIED_def get_ideal_def)
  from insertion_order_independent_layout [OF rd rd s s refl refl d m ra rb]
  have "layout example_5_1 = layout example_1_5" by simp
  with rd s d m ra rb l show ?thesis by blast
qed

text \<open>
  Claim C6.  In every reachable state and for every key \<open>k\<close>, \<^verbatim>\<open>at(k)\<close> either returns a
  value or throws \<^verbatim>\<open>std::out_of_range\<close>, and nothing else happens: it throws exactly when
  no slot stores a pair with key \<open>k\<close> (so always in a table without pairs), and it
  returns the stored value when one does.
\<close>

theorem at_out_of_range_iff_absent:
  assumes "reachable m"
  shows "at m k = (case lookup m k of None \<Rightarrow> Some (Inl out_of_range) | Some v \<Rightarrow> Some (Inr v)) \<and>
    (at m k = Some (Inl out_of_range) \<longleftrightarrow>
       (\<forall>p < length (m_buckets m). \<forall>v. b_value (m_buckets m ! p) \<noteq> Some (k, v))) \<and>
    (m_size m = 0 \<longrightarrow> at m k = Some (Inl out_of_range))"
proof -
  note inv = reachable_inv [OF assms]
  note a = at_spec [OF inv, of k]
  have 1: "at m k = Some (Inl out_of_range) \<longleftrightarrow> lookup m k = None"
    unfolding a by (cases "lookup m k") simp_all
  have 2: "lookup m k = None" if "m_size m = 0"
    using that HashMap_invD(3) [OF inv] by (simp add: lookup_def)
  from a 1 2 show ?thesis unfolding lookup_None_iff [symmetric] by simp
qed

theorem at_out_of_range_iff_absent_witness:
  "reachable example_one \<and> at example_one 7 = Some (Inl out_of_range) \<and>
   reachable (HashMap_default example_hasher :: (nat, nat) HashMap) \<and>
   at (HashMap_default example_hasher :: (nat, nat) HashMap) 1 = Some (Inl out_of_range) \<and>
   at example_one 1 = Some (Inr 10)"
proof -
  have rd: "reachable (HashMap_default example_hasher :: (nat, nat) HashMap)"
    by (rule reachable_default)
  from at_out_of_range_iff_absent [OF reachable_example_one, of 7]
  have 1: "at example_one 7 = Some (Inl out_of_range)"
    by (simp only: lookup_example_one option.case)
  from at_out_of_range_iff_absent [OF reachable_example_one, of 1]
  have 2: "at example_one 1 = Some (Inr 10)"
    by (simp only: lookup_example_one option.case)
  from at_out_of_range_iff_absent [OF rd, of 1]
  have 3: "at (HashMap_default example_hasher :: (nat, nat) HashMap) 1 = Some (Inl out_of_range)"
    by (simp only: lookup_default option.case)
  from reachable_example_one rd 1 2 3 show ?thesis by blast
qed

text \<open>
  Claim C7.  In every reachable state, \<^verbatim>\<open>erase(k)\<close> of a key \<open>k\<close> that no slot stores
  returns normally, whatever the bound on the call depth, and leaves the whole state, and
  with it \<^verbatim>\<open>size()\<close> and every mapping, as it was.
\<close>

theorem erase_absent_noop:
  assumes "reachable m" and "lookup m k = None"
  shows "erase d m k = Some m"
  using erase_absent [OF reachable_inv [OF assms(1)] assms(2)] .

theorem erase_absent_noop_witness:
  "reachable example_one \<and> lookup example_one 7 = None \<and> erase 0 example_one 7 = Some example_one"
  using erase_absent_noop [OF reachable_example_one lookup_example_one(2), of 0]
    reachable_example_one lookup_example_one(2) by blast

text \<open>
  Claim C8, as the specification words it, fails at capacity 0: the constructor stores
  the mask \<^verbatim>\<open>capacity_ ? capacity_ - 1 : 0\<close>, so a default-constructed map has capacity 0
  and mask 0, while \<open>capacity - 1\<close> is \<open>2^64 - 1\<close> in \<^verbatim>\<open>size_t\<close> (and \<open>-1\<close> in the integers).
\<close>

theorem default_mask_is_not_capacity_minus_1:
  "reachable (HashMap_default example_hasher :: (nat, nat) HashMap) \<and>
   m_capacity (HashMap_default example_hasher :: (nat, nat) HashMap) = 0 \<and>
   m_mask (HashMap_default example_hasher :: (nat, nat) HashMap) = 0 \<and>
   size_sub (m_capacity (HashMap_default example_hasher :: (nat, nat) HashMap)) 1 =
     18446744073709551615 \<and>
   int (m_mask (HashMap_default example_hasher :: (nat, nat) HashMap)) \<noteq>
     int (m_capacity (HashMap_default example_hasher :: (nat, nat) HashMap)) - 1"
proof -
  have "reachable (HashMap_default example_hasher :: (nat, nat) HashMap)"
    by (rule reachable_default)
  then show ?thesis by (simp add: HashMap_default_def update_sizes_def size_sub_def)
qed

text \<open>
  Claim C8, amended.  In every reachable state, that is after the constructor and after
  every public operation that returns, the capacity is 0 and the stored mask is 0, or the
  capacity is a power of two, at least 2, and the stored mask is the capacity minus 1.
\<close>

theorem capacity_power_of_two_and_mask:
  assumes "reachable m"
  shows "(m_capacity m = 0 \<and> m_mask m = 0) \<or>
    (\<exists>j. 1 \<le> j \<and> j \<le> 63 \<and> m_capacity m = 2 ^ j \<and> m_mask m = m_capacity m - 1 \<and>
       m_mask m = size_sub (m_capacity m) 1)"
proof (cases "m_capacity m = 0")
  case True
  with HashMap_invD(6) [OF reachable_inv [OF assms]] show ?thesis by simp
next
  case False
  from table_ok_geometry [OF HashMap_invD(8) [OF reachable_inv [OF assms] False]]
  obtain j where g: "geometry m j" ..
  then have j: "1 \<le> j" by (simp add: geometry_def)
  note cap = geometry_cap [OF g]
  have "size_sub (2 ^ j) 1 = 2 ^ j - 1" by (rule size_sub_1_pow2 [OF geometry_le_63 [OF g]])
  with cap(1,6) have "m_mask m = size_sub (m_capacity m) 1" by simp
  with j geometry_le_63 [OF g] cap(1,6) show ?thesis by blast
qed

theorem capacity_power_of_two_and_mask_witness:
  "reachable example_one \<and> m_capacity example_one = 2 ^ 1 \<and> m_mask example_one = 1 \<and>
   m_mask example_one = size_sub (m_capacity example_one) 1"
proof -
  have c: "m_capacity example_one = 2" "m_mask example_one = 1"
    by (simp_all add: example_one_def)
  from capacity_power_of_two_and_mask [OF reachable_example_one]
  have "m_mask example_one = size_sub (m_capacity example_one) 1" by (auto simp: c)
  with reachable_example_one c show ?thesis by simp
qed

text \<open>
  Claim C9.  In every reachable state and for every slot of the table: the slot holds no
  pair exactly when its distance field is the sentinel \<^verbatim>\<open>UNOCCUPIED\<close> (which is what
  \<^verbatim>\<open>empty()\<close> tests); and when it holds a pair, its distance is the circular distance of
  the slot from the ideal bucket of the cached hash, is smaller than the capacity, and so
  is not the sentinel, the capacity itself being smaller than the sentinel.
\<close>

theorem occupied_distance_below_capacity:
  assumes "reachable m" and "p < length (m_buckets m)"
  shows "(HashBucket_empty (m_buckets m ! p) \<longleftrightarrow> b_value (m_buckets m ! p) = None) \<and>
    (b_distance (m_buckets m ! p) = UNOCCUPIED \<longleftrightarrow> b_value (m_buckets m ! p) = None) \<and>
    (b_value (m_buckets m ! p) \<noteq> None \<longrightarrow>
       b_distance (m_buckets m ! p) < m_capacity m \<and>
       b_distance (m_buckets m ! p) \<noteq> UNOCCUPIED \<and>
       b_distance (m_buckets m ! p) =
         get_distance m (get_ideal m (b_hash (m_buckets m ! p))) p) \<and>
    length (m_buckets m) = m_capacity m \<and> m_capacity m < UNOCCUPIED"
proof -
  note inv = reachable_inv [OF assms(1)]
  have c0: "m_capacity m \<noteq> 0"
  proof
    assume "m_capacity m = 0"
    with HashMap_invD(7) [OF inv] assms(2) show False by simp
  qed
  note ok = HashMap_invD(8) [OF inv c0]
  from table_ok_geometry [OF ok] obtain j where g: "geometry m j" ..
  note cap = geometry_cap [OF g]
  from assms(2) cap(2) have p: "p < m_capacity m" by simp
  note e = table_ok_empty_iff [OF ok p]
  have d: "b_distance (m_buckets m ! p) < m_capacity m \<and>
      b_distance (m_buckets m ! p) =
        get_distance m (get_ideal m (b_hash (m_buckets m ! p))) p"
    if "b_value (m_buckets m ! p) \<noteq> None"
  proof -
    from that obtain kv where kv: "b_value (m_buckets m ! p) = Some kv" by auto
    have i: "b_hash (m_buckets m ! p) mod m_capacity m < m_capacity m" using p by simp
    from slot_okD_Some [OF table_ok_slot [OF ok p] kv]
    have "b_distance (m_buckets m ! p) =
      (p + m_capacity m - b_hash (m_buckets m ! p) mod m_capacity m) mod m_capacity m" by simp
    also have "\<dots> = get_distance m (get_ideal m (b_hash (m_buckets m ! p))) p"
      using geometry_distance [OF g i p] geometry_ideal [OF g, of "b_hash (m_buckets m ! p)"]
      by simp
    finally show ?thesis using table_ok_dist_lt [OF ok p kv] by simp
  qed
  from e d cap(2,5) show ?thesis by (auto simp: HashBucket_empty_def)
qed

theorem occupied_distance_below_capacity_witness:
  "reachable example_1_5 \<and> (2 :: nat) < length (m_buckets example_1_5) \<and>
   b_value (m_buckets example_1_5 ! 2) = Some (5, 50) \<and>
   b_distance (m_buckets example_1_5 ! 2) < m_capacity example_1_5 \<and>
   b_distance (m_buckets example_1_5 ! 2) \<noteq> UNOCCUPIED \<and>
   \<not> HashBucket_empty (m_buckets example_1_5 ! 2)"
proof -
  have p: "(2 :: nat) < length (m_buckets example_1_5)"
    and v: "b_value (m_buckets example_1_5 ! 2) = Some (5, 50)"
    by (simp_all add: example_1_5_def occupied_bucket_def)
  from occupied_distance_below_capacity [OF reachable_example_1_5 p] v
  have "b_distance (m_buckets example_1_5 ! 2) < m_capacity example_1_5 \<and>
   b_distance (m_buckets example_1_5 ! 2) \<noteq> UNOCCUPIED \<and>
   \<not> HashBucket_empty (m_buckets example_1_5 ! 2)" by simp
  with reachable_example_1_5 p v show ?thesis by blast
qed

text \<open>
  Claim C10.  In every reachable state with nonzero capacity: the grow threshold is at
  most the mask, the count is the number of occupied slots and is at most the capacity
  minus 1, so some slot is empty; for every key \<^verbatim>\<open>find_bucket\<close> returns; and for every
  pair \<^verbatim>\<open>insert\<close> returns, from call depth 1 on when it does not have to grow the table,
  and from call depth 3 on whenever the grown table stays within the allocation limit of
  the bucket vector.
\<close>

theorem probing_terminates:
  assumes "reachable m" and "m_capacity m \<noteq> 0"
  shows "m_max_size m \<le> m_mask m \<and> m_mask m = m_capacity m - 1 \<and>
    m_size m = length (filter (\<lambda>b. \<not> HashBucket_empty b) (m_buckets m)) \<and>
    m_size m \<le> m_capacity m - 1 \<and>
    (\<exists>p < m_capacity m. HashBucket_empty (m_buckets m ! p)) \<and>
    (\<exists>q. find_bucket m k (unat (m_hasher m k)) = Some q) \<and>
    (m_size m < m_max_size m \<or> lookup m (fst kv) \<noteq> None \<longrightarrow>
       (\<exists>m'. \<forall>d. HashMap_insert (Suc d) m kv = Some m')) \<and>
    (4 * (m_size m + 1) \<le> vector_max_size \<longrightarrow>
       (\<exists>m'. \<forall>d. HashMap_insert (Suc (Suc (Suc d))) m kv = Some m'))"
proof -
  note inv = reachable_inv [OF assms(1)]
  note ok = HashMap_invD(8) [OF inv assms(2)]
  from table_ok_geometry [OF ok] obtain j where g: "geometry m j" ..
  note cap = geometry_cap [OF g]
  from HashMap_invD(1) [OF inv] have 1: "m_max_size m \<le> m_mask m" by simp
  with HashMap_invD(5) [OF inv] cap(6) have 4: "m_size m \<le> m_capacity m - 1" by simp
  note con = HashMap_inv_consistent [OF inv]
  have "length (entries m) = length (filter (\<lambda>b. b_value b \<noteq> None) (m_buckets m))"
    by (simp add: entries_def map_filter_def)
  also have "filter (\<lambda>b. b_value b \<noteq> None) (m_buckets m) =
      filter (\<lambda>b. \<not> HashBucket_empty b) (m_buckets m)"
    using con by (intro filter_cong) simp_all
  finally have 3: "m_size m = length (filter (\<lambda>b. \<not> HashBucket_empty b) (m_buckets m))"
    using HashMap_invD(3) [OF inv] by simp
  from 4 cap(2,3) HashMap_invD(3) [OF inv] have "length (entries m) < length (m_buckets m)"
    by simp
  from exists_empty_slot [OF this] obtain p where
    p: "p < length (m_buckets m)" "b_value (m_buckets m ! p) = None" by blast
  with table_ok_empty_iff [OF ok, of p] cap(2)
  have 5: "\<exists>p < m_capacity m. HashBucket_empty (m_buckets m ! p)" by auto
  from find_bucket_check [OF inv refl, of k]
  have 6: "\<exists>q. find_bucket m k (unat (m_hasher m k)) = Some q" by blast
  have 7: "\<exists>m'. \<forall>d. HashMap_insert (Suc d) m kv = Some m'"
    if "m_size m < m_max_size m \<or> lookup m (fst kv) \<noteq> None"
  proof (cases "lookup m (fst kv)")
    case None
    with that have "m_size m < m_max_size m" by simp
    from insert_hash_absent [OF inv assms(2) None refl this] obtain m' pos where
      "\<forall>d. insert_hash (Suc d) m kv (unat (m_hasher m (fst kv))) = Some (m', pos)" by blast
    then have "\<forall>d. HashMap_insert (Suc d) m kv = Some m'" by (simp del: insert_hash.simps)
    then show ?thesis ..
  next
    case (Some w)
    have "HashMap_insert (Suc d) m kv = Some m" for d
      using insert_hash_present [OF inv Some refl, of d] by (auto simp del: insert_hash.simps)
    then show ?thesis by blast
  qed
  have 8: "\<exists>m'. \<forall>d. HashMap_insert (Suc (Suc (Suc d))) m kv = Some m'"
    if sz: "4 * (m_size m + 1) \<le> vector_max_size"
  proof (cases "lookup m (fst kv)")
    case None
    from HashMap_insert_new_key [OF inv None sz] show ?thesis by blast
  next
    case (Some w)
    with 7 obtain m' where "\<forall>d. HashMap_insert (Suc d) m kv = Some m'" by auto
    then have "\<forall>d. HashMap_insert (Suc (Suc (Suc d))) m kv = Some m'" by blast
    then show ?thesis ..
  qed
  from 1 cap(6) 3 4 5 6 7 8 show ?thesis by blast
qed

theorem probing_terminates_witness:
  "reachable example_one \<and> m_capacity example_one \<noteq> 0 \<and>
   m_size example_one \<le> m_capacity example_one - 1 \<and>
   (\<exists>q. find_bucket example_one 7 (unat (m_hasher example_one 7)) = Some q) \<and>
   (\<exists>m'. \<forall>d. HashMap_insert (Suc (Suc (Suc d))) example_one (5, 50) = Some m')"
proof -
  have c: "m_capacity example_one \<noteq> 0" and s: "4 * (m_size example_one + 1) \<le> vector_max_size"
    by (simp_all add: example_one_def vector_max_size_def)
  from probing_terminates [OF reachable_example_one c, of 7 "(5, 50)"] s
    reachable_example_one c
  show ?thesis by blast
qed

end
